(* ===== verification/Rio_Prelude.thy ===== *)
theory Rio_Prelude
  imports Main "HOL-Library.Word"
begin

text \<open>
  Shared vocabulary of the development.

  \<^item> Rust's machine integers: \<open>u32\<close>, \<open>u64\<close> are words, so that every addition the
    code writes with \<open>+\<close> wraps as the release build does, and \<open>saturating_add\<close>,
    \<open>saturating_sub\<close>, \<open>saturating_mul\<close>, \<open>checked_add\<close> are functions on words with a
    lemma that reads each of them back as arithmetic on natural numbers. \<open>i64\<close> values
    are integers, with the saturation written out.
  \<^item> Rust's iterator operations the components share (\<open>rposition\<close>).
  \<^item> The collection \<open>rust_int\<close> (reading words as naturals) and generic lemmas on lists.
  \<^item> The locale \<open>fold_machine\<close>: a state machine run over a list of inputs, with an
    invariant every step keeps; components interpret it on their own step functions.
\<close>

type_synonym u32 = "32 word"
type_synonym u64 = "64 word"
type_synonym i64 = int

named_theorems rust_int \<open>words read as natural numbers\<close>

section \<open>Rust integer operations\<close>

definition saturating_add :: "'a::len word \<Rightarrow> 'a word \<Rightarrow> 'a word" where
  "saturating_add a b = (if unat a + unat b < 2 ^ LENGTH('a) then a + b else - 1)"

definition saturating_sub :: "'a::len word \<Rightarrow> 'a word \<Rightarrow> 'a word" where
  "saturating_sub a b = (if b \<le> a then a - b else 0)"

definition saturating_mul :: "'a::len word \<Rightarrow> 'a word \<Rightarrow> 'a word" where
  "saturating_mul a b = (if unat a * unat b < 2 ^ LENGTH('a) then a * b else - 1)"

definition checked_add :: "'a::len word \<Rightarrow> 'a word \<Rightarrow> 'a word option" where
  "checked_add a b = (if unat a + unat b < 2 ^ LENGTH('a) then Some (a + b) else None)"

definition checked_sub :: "'a::len word \<Rightarrow> 'a word \<Rightarrow> 'a word option" where
  "checked_sub a b = (if b \<le> a then Some (a - b) else None)"

definition i64_max :: int where
  "i64_max = 9223372036854775807"

definition i64_min :: int where
  "i64_min = - 9223372036854775808"

definition i64_saturating_add :: "i64 \<Rightarrow> i64 \<Rightarrow> i64" where
  "i64_saturating_add a b = max i64_min (min i64_max (a + b))"

lemmas word_order_nat [rust_int] = word_le_nat_alt word_less_nat_alt

lemma unat_max_word: "unat (- 1 :: 'a::len word) = 2 ^ LENGTH('a) - 1"
  by (simp add: unsigned_minus_1_eq_mask mask_eq_exp_minus_1)

lemma unat_saturating_add [rust_int]:
  "unat (saturating_add a b) = min (unat a + unat b) (2 ^ LENGTH('a) - 1)"
  for a b :: "'a::len word"
  by (auto simp: saturating_add_def unat_word_ariths unat_max_word)

lemma unat_saturating_sub [rust_int]: "unat (saturating_sub a b) = unat a - unat b"
  by (auto simp: saturating_sub_def unat_sub word_le_nat_alt)

lemma unat_saturating_mul [rust_int]:
  "unat (saturating_mul a b) = min (unat a * unat b) (2 ^ LENGTH('a) - 1)"
  for a b :: "'a::len word"
  by (auto simp: saturating_mul_def unat_word_ariths unat_max_word)

lemma unat_max [rust_int]: "unat (max a b) = max (unat a) (unat b)"
  by (simp add: max_def word_le_nat_alt)

lemma unat_min [rust_int]: "unat (min a b) = min (unat a) (unat b)"
  by (simp add: min_def word_le_nat_alt)

lemma checked_add_eq_Some:
  "checked_add a b = Some c \<longleftrightarrow> unat a + unat b < 2 ^ LENGTH('a) \<and> unat c = unat a + unat b"
  for a b c :: "'a::len word"
  by (auto simp: checked_add_def word_unat_eq_iff unat_word_ariths)

lemma checked_add_eq_None:
  "checked_add a b = None \<longleftrightarrow> 2 ^ LENGTH('a) \<le> unat a + unat b"
  for a b :: "'a::len word"
  by (auto simp: checked_add_def)

lemma checked_sub_eq_Some:
  "checked_sub a b = Some c \<longleftrightarrow> unat b \<le> unat a \<and> unat c = unat a - unat b"
  by (auto simp: checked_sub_def word_unat_eq_iff unat_sub word_le_nat_alt)

lemma unat_less_exp: "unat a < 2 ^ LENGTH('a)" for a :: "'a::len word"
  by (rule unsigned_less)

lemma unat_bound64 [simp]: "unat (a::u64) < 18446744073709551616"
  using unat_less_exp [of a] by simp

lemma unat_bound32 [simp]: "unat (a::u32) < 4294967296"
  using unat_less_exp [of a] by simp

text \<open>An increment below a bound does not wrap: the shape of every capped counter.\<close>

lemma unat_le_max64 [simp]: "unat (a::u64) \<le> 18446744073709551615"
  using unat_bound64 [of a] by linarith

lemma unat_le_max32 [simp]: "unat (a::u32) \<le> 4294967295"
  using unat_bound32 [of a] by linarith

lemma unat_of_nat32: "n < 4294967296 \<Longrightarrow> unat (of_nat n :: u32) = n"
  by (simp add: unsigned_of_nat take_bit_nat_eq_self)

lemma unat_of_nat64: "n < 18446744073709551616 \<Longrightarrow> unat (of_nat n :: u64) = n"
  by (simp add: unsigned_of_nat take_bit_nat_eq_self)

lemma unat_inc_less: "a < b \<Longrightarrow> unat (a + 1) = unat a + 1"
  for a b :: "'a::len word"
proof -
  assume "a < b"
  then have "unat a + 1 < 2 ^ LENGTH('a)"
    using unat_less_exp [of b] unfolding word_less_nat_alt by linarith
  then show ?thesis by (simp add: unat_word_ariths)
qed

lemma inc_le_of_less: "a < b \<Longrightarrow> a + 1 \<le> b"
  for a b :: "'a::len word"
  by (simp add: unat_inc_less word_le_nat_alt word_less_nat_alt)

lemma saturating_add_mono1: "a \<le> saturating_add a b"
  using unat_less_exp [of a] by (simp add: rust_int le_diff_conv2 Suc_le_eq)

section \<open>Iterator operations\<close>

text \<open>\<open>Iterator::rposition\<close>: the index of the last element that satisfies the predicate.\<close>

fun rposition :: "('a \<Rightarrow> bool) \<Rightarrow> 'a list \<Rightarrow> nat option" where
  "rposition P [] = None"
| "rposition P (x # xs) =
     (case rposition P xs of Some i \<Rightarrow> Some (Suc i) | None \<Rightarrow> if P x then Some 0 else None)"

lemma rposition_None: "rposition P xs = None \<longleftrightarrow> (\<forall>x \<in> set xs. \<not> P x)"
  by (induction xs) (auto split: option.splits)

lemma rposition_Some:
  "rposition P xs = Some i \<longleftrightarrow>
     i < length xs \<and> P (xs ! i) \<and> (\<forall>j. i < j \<longrightarrow> j < length xs \<longrightarrow> \<not> P (xs ! j))"
proof (induction xs arbitrary: i)
  case Nil
  then show ?case by simp
next
  case (Cons x xs)
  show ?case
  proof (cases "rposition P xs")
    case None
    then have none: "\<forall>y \<in> set xs. \<not> P y" by (simp add: rposition_None)
    show ?thesis
      by (cases i) (use None none in \<open>auto simp: nth_Cons'\<close>)
  next
    case (Some k)
    with Cons.IH have k: "k < length xs" "P (xs ! k)" by auto
    show ?thesis
    proof (cases i)
      case 0
      with Some k show ?thesis by (auto simp: nth_Cons' intro!: exI [of _ "Suc k"])
    next
      case (Suc i')
      have "(\<forall>j. Suc i' < j \<longrightarrow> j < length (x # xs) \<longrightarrow> \<not> P ((x # xs) ! j)) \<longleftrightarrow>
            (\<forall>j. i' < j \<longrightarrow> j < length xs \<longrightarrow> \<not> P (xs ! j))"
        by (auto simp: nth_Cons' dest: spec [of _ "Suc _"])
      with Suc Some Cons.IH [of i'] show ?thesis by simp
    qed
  qed
qed

lemma rposition_append:
  "rposition P (xs @ ys) =
     (case rposition P ys of Some i \<Rightarrow> Some (length xs + i) | None \<Rightarrow> rposition P xs)"
  by (induction xs) (auto split: option.splits)

section \<open>State machines run over lists\<close>

locale fold_machine =
  fixes step :: "'s \<Rightarrow> 'e \<Rightarrow> 's"
    and inv :: "'s \<Rightarrow> bool"
  assumes step_inv: "inv s \<Longrightarrow> inv (step s e)"
begin

lemma run_inv: "inv s \<Longrightarrow> inv (foldl step s es)"
  by (induction es arbitrary: s) (simp_all add: step_inv)

text \<open>An invariant of the machine is an invariant of every prefix of a run.\<close>

lemma prefix_inv: "inv s \<Longrightarrow> inv (foldl step s (take n es))"
  by (rule run_inv)

end

end
