(* ===== verification/Retry_IdSet.thy ===== *)
theory Retry_IdSet
  imports Rio_Prelude
begin

text \<open>
  Executor-id sets of the retry kernel (\<open>rio-retry-kernel/src/lib.rs\<close>).

  The kernel's alias \<open>IdSet\<close> is the standard library's \<open>BTreeSet\<close> in production and
  \<open>BoundedIdSet\<close>, a four-slot array, in the proof build. A \<open>BTreeSet\<close> is modelled by
  \<open>'id set\<close>: the kernel never looks at its order. \<open>BoundedIdSet\<close> is modelled as the
  array it is, with its index loops as recursion over the slots. The locale \<open>id_set\<close>
  is the interface both representations share; it is interpreted on both, and the
  placement predicates (\<open>exhausts_fleet\<close>, \<open>placeable\<close>) are shown once, inside it, to
  answer the same through either representation.
\<close>

section \<open>The bounded array set\<close>

definition BOUNDED_ID_SET_CAPACITY :: nat where
  "BOUNDED_ID_SET_CAPACITY = 4"

record 'id BoundedIdSet =
  slots :: "'id option list"

definition bounded_new :: "'id BoundedIdSet" where
  "bounded_new = \<lparr>slots = replicate BOUNDED_ID_SET_CAPACITY None\<rparr>"

fun bounded_len_loop :: "'id option list \<Rightarrow> nat \<Rightarrow> nat" where
  "bounded_len_loop [] n = n"
| "bounded_len_loop (s # ss) n = bounded_len_loop ss (if s \<noteq> None then n + 1 else n)"

definition bounded_len :: "'id BoundedIdSet \<Rightarrow> nat" where
  "bounded_len b = bounded_len_loop (slots b) 0"

fun bounded_is_empty_loop :: "'id option list \<Rightarrow> bool" where
  "bounded_is_empty_loop [] = True"
| "bounded_is_empty_loop (s # ss) = (if s \<noteq> None then False else bounded_is_empty_loop ss)"

definition bounded_is_empty :: "'id BoundedIdSet \<Rightarrow> bool" where
  "bounded_is_empty b = bounded_is_empty_loop (slots b)"

fun bounded_contains_loop :: "'id option list \<Rightarrow> 'id \<Rightarrow> bool" where
  "bounded_contains_loop [] v = False"
| "bounded_contains_loop (s # ss) v =
     (case s of Some w \<Rightarrow> if w = v then True else bounded_contains_loop ss v
              | None \<Rightarrow> bounded_contains_loop ss v)"

definition bounded_contains :: "'id BoundedIdSet \<Rightarrow> 'id \<Rightarrow> bool" where
  "bounded_contains b v = bounded_contains_loop (slots b) v"

fun bounded_is_subset_loop :: "'id option list \<Rightarrow> 'id BoundedIdSet \<Rightarrow> bool" where
  "bounded_is_subset_loop [] other = True"
| "bounded_is_subset_loop (s # ss) other =
     (case s of Some v \<Rightarrow> if \<not> bounded_contains other v then False else bounded_is_subset_loop ss other
              | None \<Rightarrow> bounded_is_subset_loop ss other)"

definition bounded_is_subset :: "'id BoundedIdSet \<Rightarrow> 'id BoundedIdSet \<Rightarrow> bool" where
  "bounded_is_subset b other = bounded_is_subset_loop (slots b) other"

text \<open>The first free slot takes the value; no free slot is the panic, \<open>None\<close>.\<close>

fun bounded_insert_loop :: "'id option list \<Rightarrow> 'id \<Rightarrow> 'id option list option" where
  "bounded_insert_loop [] v = None"
| "bounded_insert_loop (s # ss) v =
     (if s = None then Some (Some v # ss)
      else (case bounded_insert_loop ss v of None \<Rightarrow> None | Some ss' \<Rightarrow> Some (s # ss')))"

definition bounded_insert :: "'id BoundedIdSet \<Rightarrow> 'id \<Rightarrow> ('id BoundedIdSet \<times> bool) option" where
  "bounded_insert b v =
     (if bounded_contains b v then Some (b, False)
      else (case bounded_insert_loop (slots b) v of
              Some ss \<Rightarrow> Some (b\<lparr>slots := ss\<rparr>, True)
            | None \<Rightarrow> None))"

text \<open>\<open>Iterator::next\<close> over the slots, run to its end, yields the occupied slots in order.\<close>

fun bounded_iter_next :: "'id option list \<Rightarrow> ('id \<times> 'id option list) option" where
  "bounded_iter_next [] = None"
| "bounded_iter_next (s # ss) =
     (case s of Some v \<Rightarrow> Some (v, ss) | None \<Rightarrow> bounded_iter_next ss)"

fun bounded_extend :: "'id BoundedIdSet \<Rightarrow> 'id list \<Rightarrow> 'id BoundedIdSet option" where
  "bounded_extend b [] = Some b"
| "bounded_extend b (v # vs) =
     (case bounded_insert b v of None \<Rightarrow> None | Some (b', _) \<Rightarrow> bounded_extend b' vs)"

definition bounded_from_iter :: "'id list \<Rightarrow> 'id BoundedIdSet option" where
  "bounded_from_iter vs = bounded_extend bounded_new vs"

section \<open>The production set\<close>

definition btree_insert :: "'id set \<Rightarrow> 'id \<Rightarrow> ('id set \<times> bool) option" where
  "btree_insert s v = Some (Set.insert v s, v \<notin> s)"

section \<open>Fleet exhaustion and placement\<close>

record 'id FleetView =
  eligible :: "'id set"

definition fleet_default :: "'id FleetView" where
  "fleet_default = \<lparr>eligible = {}\<rparr>"

definition exhausts_fleet :: "'id set \<Rightarrow> 'id FleetView \<Rightarrow> bool" where
  "exhausts_fleet failed fleet =
     (if failed = {} \<or> eligible fleet = {} then False else eligible fleet \<subseteq> failed)"

datatype Placement = Placeable | FleetExhausted | NoEligibleWorkers

definition placeable :: "'id set \<Rightarrow> 'id set \<Rightarrow> Placement" where
  "placeable excluded elig =
     (if elig = {} then NoEligibleWorkers
      else if excluded \<noteq> {} \<and> elig \<subseteq> excluded then Placement.FleetExhausted
      else Placeable)"

text \<open>The same predicate compiled over the bounded representation.\<close>

definition placeable_bounded :: "'id BoundedIdSet \<Rightarrow> 'id BoundedIdSet \<Rightarrow> Placement" where
  "placeable_bounded excluded elig =
     (if bounded_is_empty elig then NoEligibleWorkers
      else if \<not> bounded_is_empty excluded \<and> bounded_is_subset elig excluded
      then Placement.FleetExhausted
      else Placeable)"

section \<open>The set interface\<close>

locale id_set =
  fixes empty :: "'s"
    and ins :: "'s \<Rightarrow> 'id \<Rightarrow> ('s \<times> bool) option"
    and contains :: "'s \<Rightarrow> 'id \<Rightarrow> bool"
    and is_subset :: "'s \<Rightarrow> 's \<Rightarrow> bool"
    and is_empty :: "'s \<Rightarrow> bool"
    and len :: "'s \<Rightarrow> nat"
    and ids :: "'s \<Rightarrow> 'id set"
    and wf :: "'s \<Rightarrow> bool"
  assumes wf_empty: "wf empty"
    and ids_empty: "ids empty = {}"
    and ins_ids: "wf s \<Longrightarrow> ins s v = Some (s', fresh) \<Longrightarrow>
                    wf s' \<and> ids s' = Set.insert v (ids s) \<and> fresh = (v \<notin> ids s)"
    and contains_ids: "wf s \<Longrightarrow> contains s v = (v \<in> ids s)"
    and is_subset_ids: "wf s \<Longrightarrow> wf t \<Longrightarrow> is_subset s t = (ids s \<subseteq> ids t)"
    and is_empty_ids: "wf s \<Longrightarrow> is_empty s = (ids s = {})"
    and len_ids: "wf s \<Longrightarrow> len s = card (ids s)"
begin

text \<open>Any successful run of inserts denotes the set of the inserted values.\<close>

fun ins_all :: "'s \<Rightarrow> 'id list \<Rightarrow> 's option" where
  "ins_all s [] = Some s"
| "ins_all s (v # vs) = (case ins s v of None \<Rightarrow> None | Some (s', _) \<Rightarrow> ins_all s' vs)"

lemma ins_all_ids: "wf s \<Longrightarrow> ins_all s vs = Some t \<Longrightarrow> wf t \<and> ids t = ids s \<union> set vs"
proof (induction vs arbitrary: s)
  case Nil
  then show ?case by simp
next
  case (Cons v vs)
  then obtain s' fresh where s': "ins s v = Some (s', fresh)" "ins_all s' vs = Some t"
    by (auto split: option.splits)
  with Cons.prems(1) have "wf s'" "ids s' = Set.insert v (ids s)"
    using ins_ids by blast+
  with Cons.IH [of s'] s'(2) show ?case by auto
qed

text \<open>The placement decision read through the interface is the decision on the sets.\<close>

lemma placeable_via:
  assumes "wf excluded" "wf elig"
  shows "(if is_empty elig then NoEligibleWorkers
          else if \<not> is_empty excluded \<and> is_subset elig excluded then Placement.FleetExhausted
          else Placeable) = placeable (ids excluded) (ids elig)"
  using assms by (simp add: placeable_def is_empty_ids is_subset_ids)

end

interpretation btree: id_set "{}" btree_insert "\<lambda>s v. v \<in> s" "(\<subseteq>)" "\<lambda>s. s = {}" card "\<lambda>s. s" finite
  by unfold_locales (auto simp: btree_insert_def)

section \<open>The bounded set implements the interface\<close>

definition bounded_ids :: "'id BoundedIdSet \<Rightarrow> 'id set" where
  "bounded_ids b = {v. Some v \<in> set (slots b)}"

text \<open>Exactly four slots, occupied slots packed at the front, and no value twice.\<close>

definition bounded_wf :: "'id BoundedIdSet \<Rightarrow> bool" where
  "bounded_wf b \<longleftrightarrow>
     length (slots b) = BOUNDED_ID_SET_CAPACITY \<and>
     (\<exists>vs. distinct vs \<and> slots b = map Some vs @ replicate (length (slots b) - length vs) None)"

lemma contains_loop_iff: "bounded_contains_loop ss v \<longleftrightarrow> Some v \<in> set ss"
  by (induction ss) (auto split: option.splits)

lemma bounded_contains_iff: "bounded_contains b v \<longleftrightarrow> v \<in> bounded_ids b"
  by (simp add: bounded_contains_def bounded_ids_def contains_loop_iff)

lemma is_subset_loop_iff:
  "bounded_is_subset_loop ss other \<longleftrightarrow> (\<forall>v. Some v \<in> set ss \<longrightarrow> v \<in> bounded_ids other)"
  by (induction ss) (auto simp: bounded_contains_iff split: option.splits)

lemma is_empty_loop_iff: "bounded_is_empty_loop ss \<longleftrightarrow> (\<forall>v. Some v \<notin> set ss)"
  by (induction ss) auto

lemma len_loop_packed: "bounded_len_loop (map Some vs @ replicate k None) n = n + length vs"
proof (induction vs arbitrary: n)
  case Nil
  have "bounded_len_loop (replicate k None) n = n" by (induction k) simp_all
  then show ?case by simp
next
  case (Cons v vs)
  then show ?case by simp
qed

lemma insert_loop_packed:
  "bounded_insert_loop (map Some vs @ replicate k None) v =
     (if k = 0 then None else Some (map Some (vs @ [v]) @ replicate (k - 1) None))"
proof (induction vs)
  case Nil
  show ?case by (cases k) simp_all
next
  case (Cons w vs)
  then show ?case by simp
qed

lemma bounded_wf_packed:
  assumes "bounded_wf b"
  obtains vs k where "distinct vs" "slots b = map Some vs @ replicate k None"
    "length vs + k = BOUNDED_ID_SET_CAPACITY" "bounded_ids b = set vs"
proof -
  from assms obtain vs where vs: "distinct vs"
      "slots b = map Some vs @ replicate (length (slots b) - length vs) None"
      "length (slots b) = BOUNDED_ID_SET_CAPACITY"
    unfolding bounded_wf_def by blast
  from vs(2) have le: "length vs \<le> length (slots b)"
    by (metis le_add1 length_append length_map)
  have "bounded_ids b = set vs"
    unfolding bounded_ids_def by (subst vs(2)) auto
  with that [OF vs(1,2)] le vs(3) show thesis by simp
qed

lemma bounded_wfI:
  "distinct vs \<Longrightarrow> slots b = map Some vs @ replicate k None \<Longrightarrow>
   length vs + k = BOUNDED_ID_SET_CAPACITY \<Longrightarrow> bounded_wf b"
  unfolding bounded_wf_def by auto

lemma bounded_insert_spec:
  assumes "bounded_wf b"
  shows "if v \<in> bounded_ids b then bounded_insert b v = Some (b, False)
         else if card (bounded_ids b) < BOUNDED_ID_SET_CAPACITY
         then \<exists>b'. bounded_insert b v = Some (b', True) \<and> bounded_wf b' \<and>
                   bounded_ids b' = Set.insert v (bounded_ids b)
         else bounded_insert b v = None"
proof -
  from assms obtain vs k where p: "distinct vs" "slots b = map Some vs @ replicate k None"
      "length vs + k = BOUNDED_ID_SET_CAPACITY" "bounded_ids b = set vs"
    by (rule bounded_wf_packed)
  have card: "card (bounded_ids b) = length vs" using p(1,4) by (simp add: distinct_card)
  show ?thesis
  proof (cases "v \<in> bounded_ids b")
    case True
    then show ?thesis by (simp add: bounded_insert_def bounded_contains_iff)
  next
    case False
    show ?thesis
    proof (cases "k = 0")
      case True
      then have "bounded_insert_loop (slots b) v = None"
        using insert_loop_packed [of vs k v] p(2) by simp
      with False card p(3) True show ?thesis
        by (simp add: bounded_insert_def bounded_contains_iff)
    next
      case k: False
      let ?b' = "b\<lparr>slots := map Some (vs @ [v]) @ replicate (k - 1) None\<rparr>"
      have ins: "bounded_insert b v = Some (?b', True)"
        using False p(2) k by (simp add: bounded_insert_def bounded_contains_iff insert_loop_packed)
      have wf: "bounded_wf ?b'"
        by (rule bounded_wfI [of "vs @ [v]" _ "k - 1"]) (use p k False in auto)
      have "bounded_ids ?b' = Set.insert v (bounded_ids b)"
        using p(4) by (auto simp: bounded_ids_def)
      with ins wf False card p(3) k show ?thesis by auto
    qed
  qed
qed

lemma bounded_new_wf: "bounded_wf bounded_new"
  by (rule bounded_wfI [of "[]" _ BOUNDED_ID_SET_CAPACITY]) (simp_all add: bounded_new_def)

lemma bounded_card_le: "bounded_wf b \<Longrightarrow> card (bounded_ids b) \<le> BOUNDED_ID_SET_CAPACITY"
  by (erule bounded_wf_packed) (simp add: distinct_card)

lemma bounded_len_card: "bounded_wf b \<Longrightarrow> bounded_len b = card (bounded_ids b)"
  by (erule bounded_wf_packed) (simp add: bounded_len_def len_loop_packed distinct_card)

interpretation bounded: id_set bounded_new bounded_insert bounded_contains bounded_is_subset
    bounded_is_empty bounded_len bounded_ids bounded_wf
proof unfold_locales
  show "bounded_wf bounded_new" by (rule bounded_new_wf)
  show "bounded_ids bounded_new = {}" by (simp add: bounded_ids_def bounded_new_def)
next
  fix s s' :: "'a BoundedIdSet" and v :: 'a and fresh :: bool
  assume "bounded_wf s" "bounded_insert s v = Some (s', fresh)"
  then show "bounded_wf s' \<and> bounded_ids s' = Set.insert v (bounded_ids s) \<and> fresh = (v \<notin> bounded_ids s)"
    using bounded_insert_spec [of s v] by (auto split: if_splits)
qed (simp_all add: bounded_contains_iff bounded_is_subset_def is_subset_loop_iff bounded_is_empty_def
       is_empty_loop_iff bounded_len_card, auto simp: bounded_ids_def)

section \<open>Properties\<close>

text \<open>
  The four-slot array set of the proof build behaves as a mathematical set as long as
  it holds at most four values: membership, emptiness, inclusion and cardinality agree
  with the set it denotes, an insert of a present value changes nothing and answers
  false, an insert of a new value adds it and answers true, and an insert of a fifth
  distinct value is the panic.
\<close>

lemma bounded_id_set_refines_set:
  assumes "bounded_wf b" and "bounded_wf c"
  shows "bounded_contains b v = (v \<in> bounded_ids b) \<and>
         bounded_is_empty b = (bounded_ids b = {}) \<and>
         bounded_is_subset b c = (bounded_ids b \<subseteq> bounded_ids c) \<and>
         bounded_len b = card (bounded_ids b) \<and>
         (case bounded_insert b v of
            Some (b', fresh) \<Rightarrow> bounded_wf b' \<and> bounded_ids b' = insert v (bounded_ids b) \<and>
                               fresh = (v \<notin> bounded_ids b)
          | None \<Rightarrow> v \<notin> bounded_ids b \<and> card (bounded_ids b) = BOUNDED_ID_SET_CAPACITY)"
proof -
  have "case bounded_insert b v of
          Some (b', fresh) \<Rightarrow> bounded_wf b' \<and> bounded_ids b' = insert v (bounded_ids b) \<and>
                             fresh = (v \<notin> bounded_ids b)
        | None \<Rightarrow> v \<notin> bounded_ids b \<and> card (bounded_ids b) = BOUNDED_ID_SET_CAPACITY"
  proof (cases "bounded_insert b v")
    case None
    then show ?thesis
      using bounded_insert_spec [OF assms(1), of v] bounded_card_le [OF assms(1)]
      by (auto split: if_splits)
  next
    case (Some r)
    then show ?thesis using bounded.ins_ids [OF assms(1), of v] by (cases r) simp
  qed
  then show ?thesis
    by (simp add: assms bounded.contains_ids bounded.is_empty_ids bounded.is_subset_ids bounded.len_ids)
qed

lemma bounded_wf_pair:
  "a \<noteq> b \<Longrightarrow> bounded_wf \<lparr>slots = [Some a, Some b, None, None]\<rparr>"
  by (rule bounded_wfI [of "[a, b]" _ 2]) (simp_all add: BOUNDED_ID_SET_CAPACITY_def numeral_2_eq_2)

lemma bounded_ids_pair: "bounded_ids \<lparr>slots = [Some a, Some b, None, None]\<rparr> = {a, b}"
  by (auto simp: bounded_ids_def)

text \<open>
  The placement of a derivation partitions the cases of the eligible fleet: it is
  \<open>NoEligibleWorkers\<close> exactly when nothing is eligible, \<open>FleetExhausted\<close> exactly when the
  fleet is non-empty and every eligible executor is excluded (the same condition as the
  fold's \<open>exhausts_fleet\<close>), \<open>Placeable\<close> exactly when some eligible executor is not excluded;
  the array-backed set of the proof build decides the same.
\<close>

lemma placeable_partition:
  assumes "bounded_wf x" and "bounded_wf e"
  shows "let excluded = bounded_ids x; elig = bounded_ids e in
     placeable_bounded x e = placeable excluded elig
     \<and> (placeable excluded elig = NoEligibleWorkers \<longleftrightarrow> elig = {})
     \<and> (placeable excluded elig = Placement.FleetExhausted \<longleftrightarrow> elig \<noteq> {} \<and> elig \<subseteq> excluded)
     \<and> (placeable excluded elig = Placeable \<longleftrightarrow> elig - excluded \<noteq> {})
     \<and> (placeable excluded elig = Placement.FleetExhausted \<longleftrightarrow> exhausts_fleet excluded \<lparr>eligible = elig\<rparr>)"
proof -
  have "placeable_bounded x e = placeable (bounded_ids x) (bounded_ids e)"
    using bounded.placeable_via [OF assms] by (simp add: placeable_bounded_def)
  thus ?thesis by (auto simp: placeable_def exhausts_fleet_def Let_def)
qed

end
