(* ===== verification/Retry_Fold.thy ===== *)
theory Retry_Fold
  imports Retry_IdSet
begin

text \<open>
  The reference fold of the retry kernel (\<open>rio-retry-kernel/src/lib.rs\<close>): the budget,
  the observed failure events, the ten counters, the verdict, one definition per arm of
  \<open>apply\<close>, and \<open>reference_fold\<close> itself.

  Counters are \<open>u32\<close> words, so \<open>+= 1\<close> is the wrapping increment of the release build.
  A mutable borrow of the counters is state passing: each arm takes the counters and
  returns the new ones with the verdict. The executor-id set is a set
  (\<open>Retry_IdSet\<close>), and its \<open>len() as u32\<close> is the truncating cast of its cardinality.
\<close>

section \<open>Budget, events, counters, verdicts\<close>

record Budget =
  max_retries :: u32
  max_infra_retries :: u32
  max_timeout_retries :: u32
  max_exempt_infra_retries :: u32
  backoff_base_secs :: u64
  backoff_multiplier :: u64
  backoff_max_secs :: u64
  poison_threshold :: u32
  require_distinct_workers :: bool
  poison_resubmit_retry_limit :: u32
  poison_ttl_secs :: u64

definition budget_default :: Budget where
  "budget_default =
     \<lparr>max_retries = 2, max_infra_retries = 10, max_timeout_retries = 4,
      max_exempt_infra_retries = 50, backoff_base_secs = 5, backoff_multiplier = 2,
      backoff_max_secs = 300, poison_threshold = 3, require_distinct_workers = True,
      poison_resubmit_retry_limit = 2, poison_ttl_secs = 24 * 60 * 60\<rparr>"

text \<open>The \<open>for _ in 0..attempt\<close> loop of \<open>Budget::backoff_secs\<close>, early return included.\<close>

fun backoff_loop :: "Budget \<Rightarrow> nat \<Rightarrow> u64 \<Rightarrow> u64" where
  "backoff_loop b 0 d = min d (backoff_max_secs b)"
| "backoff_loop b (Suc n) d =
     (let d' = saturating_mul d (backoff_multiplier b)
      in if d' \<ge> backoff_max_secs b then backoff_max_secs b else backoff_loop b n d')"

definition backoff_secs :: "Budget \<Rightarrow> u32 \<Rightarrow> u64" where
  "backoff_secs b attempt = backoff_loop b (unat attempt) (backoff_base_secs b)"

datatype 'id AttemptEvent =
    Transient u64 "'id option"
  | Infra u64 "'id option" (ev_exempt: bool) (ev_infra_at_cap: bool)
  | ExecutorVariant u64 "'id option" (ev_at_cap: bool)
  | Permanent u64 "'id option"
  | WorkerTimeout u64 "'id option"
  | Disconnect u64 "'id option"
  | ControllerTermination u64 "'id option" (ev_promoted: bool) (ev_term_at_cap: bool)
  | ControllerDeadlineExceeded u64 "'id option"
  | BackstopTimeout u64 "'id option"
  | EstablishedCrash u64 "'id option"
  | Dispatched u64 "'id option"
  | ResubmitReset u64
  | CacheHitClear u64
  | PoisonCleared u64

fun event_at :: "'id AttemptEvent \<Rightarrow> u64" where
  "event_at (AttemptEvent.Transient t _) = t"
| "event_at (AttemptEvent.Infra t _ _ _) = t"
| "event_at (AttemptEvent.ExecutorVariant t _ _) = t"
| "event_at (AttemptEvent.Permanent t _) = t"
| "event_at (AttemptEvent.WorkerTimeout t _) = t"
| "event_at (AttemptEvent.Disconnect t _) = t"
| "event_at (AttemptEvent.ControllerTermination t _ _ _) = t"
| "event_at (AttemptEvent.ControllerDeadlineExceeded t _) = t"
| "event_at (AttemptEvent.BackstopTimeout t _) = t"
| "event_at (AttemptEvent.EstablishedCrash t _) = t"
| "event_at (AttemptEvent.Dispatched t _) = t"
| "event_at (AttemptEvent.ResubmitReset t) = t"
| "event_at (AttemptEvent.CacheHitClear t) = t"
| "event_at (AttemptEvent.PoisonCleared t) = t"

record 'id Counters =
  count :: u32
  resubmit_cycles :: u32
  infra_count :: u32
  timeout_count :: u32
  last_infra_failure_at :: "u64 option"
  exempt_infra_count :: u32
  failed_builders :: "'id set"
  failure_count :: u32
  poisoned_at :: "u64 option"
  backoff_until :: "u64 option"

definition counters_default :: "'id Counters" where
  "counters_default =
     \<lparr>count = 0, resubmit_cycles = 0, infra_count = 0, timeout_count = 0,
      last_infra_failure_at = None, exempt_infra_count = 0, failed_builders = {},
      failure_count = 0, poisoned_at = None, backoff_until = None\<rparr>"

definition poison_threshold_reached :: "'id Counters \<Rightarrow> Budget \<Rightarrow> bool" where
  "poison_threshold_reached c b =
     (let n = (if require_distinct_workers b then of_nat (card (failed_builders c))
               else failure_count c)
      in n \<ge> poison_threshold b)"

definition clear_for_cache_hit :: "'id Counters \<Rightarrow> 'id Counters" where
  "clear_for_cache_hit c = counters_default\<lparr>backoff_until := backoff_until c\<rparr>"

datatype PoisonReason =
    Threshold
  | FleetExhausted
  | TransientBudget
  | InfraBudget
  | ExemptInfraBudget
  | Permanent
  | ComputeBoundAtCap

datatype Verdict = Requeue | Poison PoisonReason | Cancel | TtlExpire

section \<open>The arms of the fold\<close>

text \<open>\<open>if let Some(executor) = executor { c.failed_builders.insert(..) }\<close>.\<close>

definition insert_executor :: "'id option \<Rightarrow> 'id Counters \<Rightarrow> 'id Counters" where
  "insert_executor executor c =
     (case executor of Some e \<Rightarrow> c\<lparr>failed_builders := insert e (failed_builders c)\<rparr> | None \<Rightarrow> c)"

definition poison :: "u64 \<Rightarrow> PoisonReason \<Rightarrow> 'id Counters \<Rightarrow> 'id Counters \<times> Verdict" where
  "poison t reason c = (c\<lparr>poisoned_at := Some t\<rparr>, Poison reason)"

definition apply_transient ::
  "u64 \<Rightarrow> 'id option \<Rightarrow> Budget \<Rightarrow> 'id FleetView \<Rightarrow> 'id Counters \<Rightarrow> 'id Counters \<times> Verdict" where
  "apply_transient t executor b fleet c0 =
     (let c1 = insert_executor executor (c0\<lparr>infra_count := 0\<rparr>);
          c = c1\<lparr>failure_count := failure_count c1 + 1\<rparr>
      in if poison_threshold_reached c b then poison t PoisonReason.Threshold c
         else if exhausts_fleet (failed_builders c) fleet then poison t PoisonReason.FleetExhausted c
         else if count c < max_retries b then
           (let backoff = backoff_secs b (count c)
            in (c\<lparr>count := count c + 1, backoff_until := Some (saturating_add t backoff)\<rparr>, Requeue))
         else poison t PoisonReason.TransientBudget c)"

definition apply_infra ::
  "u64 \<Rightarrow> bool \<Rightarrow> Budget \<Rightarrow> 'id Counters \<Rightarrow> 'id Counters \<times> Verdict" where
  "apply_infra t exempt b c0 =
     (if exempt then
        (let c = c0\<lparr>exempt_infra_count := exempt_infra_count c0 + 1\<rparr>
         in if exempt_infra_count c \<ge> max_exempt_infra_retries b
            then poison t PoisonReason.ExemptInfraBudget c
            else (c, Requeue))
      else if infra_count c0 \<ge> max_infra_retries b then poison t PoisonReason.InfraBudget c0
      else (c0\<lparr>infra_count := infra_count c0 + 1, last_infra_failure_at := Some t\<rparr>, Requeue))"

definition apply_executor_variant ::
  "u64 \<Rightarrow> 'id option \<Rightarrow> bool \<Rightarrow> Budget \<Rightarrow> 'id Counters \<Rightarrow> 'id Counters \<times> Verdict" where
  "apply_executor_variant t executor at_cap b c0 =
     (let c1 = insert_executor executor (c0\<lparr>infra_count := 0\<rparr>);
          c = c1\<lparr>failure_count := failure_count c1 + 1\<rparr>
      in if at_cap then poison t PoisonReason.ComputeBoundAtCap c
         else if poison_threshold_reached c b then poison t PoisonReason.Permanent c
         else if count c < max_retries b then
           (let backoff = backoff_secs b (count c)
            in (c\<lparr>count := count c + 1, backoff_until := Some (saturating_add t backoff)\<rparr>, Requeue))
         else poison t PoisonReason.TransientBudget c)"

definition apply_permanent ::
  "u64 \<Rightarrow> 'id option \<Rightarrow> 'id Counters \<Rightarrow> 'id Counters \<times> Verdict" where
  "apply_permanent t executor c =
     (insert_executor executor (c\<lparr>poisoned_at := Some t\<rparr>), Poison PoisonReason.Permanent)"

definition apply_worker_timeout :: "Budget \<Rightarrow> 'id Counters \<Rightarrow> 'id Counters \<times> Verdict" where
  "apply_worker_timeout b c0 =
     (let c = c0\<lparr>infra_count := 0\<rparr>
      in if timeout_count c < max_timeout_retries b
         then (c\<lparr>timeout_count := timeout_count c + 1\<rparr>, Requeue)
         else (c, Cancel))"

definition apply_disconnect :: "u64 \<Rightarrow> Budget \<Rightarrow> 'id Counters \<Rightarrow> 'id Counters \<times> Verdict" where
  "apply_disconnect t b c =
     (if poison_threshold_reached c b then poison t PoisonReason.Threshold c else (c, Requeue))"

definition apply_controller_termination ::
  "u64 \<Rightarrow> bool \<Rightarrow> bool \<Rightarrow> Budget \<Rightarrow> 'id Counters \<Rightarrow> 'id Counters \<times> Verdict" where
  "apply_controller_termination t promoted at_cap b c =
     (if at_cap then
        (if infra_count c \<ge> max_infra_retries b then poison t PoisonReason.InfraBudget c
         else (c\<lparr>infra_count := infra_count c + 1, last_infra_failure_at := Some t\<rparr>, Requeue))
      else if promoted then
        (let c' = c\<lparr>exempt_infra_count := exempt_infra_count c + 1\<rparr>
         in if exempt_infra_count c' \<ge> max_exempt_infra_retries b
            then poison t PoisonReason.ExemptInfraBudget c'
            else (c', Requeue))
      else (c, Requeue))"

definition apply_controller_deadline :: "Budget \<Rightarrow> 'id Counters \<Rightarrow> 'id Counters \<times> Verdict" where
  "apply_controller_deadline b c0 =
     (let c = c0\<lparr>infra_count := 0\<rparr>
      in if timeout_count c \<ge> max_timeout_retries b then (c, Cancel)
         else (c\<lparr>timeout_count := timeout_count c + 1\<rparr>, Requeue))"

definition apply_backstop ::
  "u64 \<Rightarrow> 'id option \<Rightarrow> Budget \<Rightarrow> 'id Counters \<Rightarrow> 'id Counters \<times> Verdict" where
  "apply_backstop t executor b c0 =
     (let c1 = insert_executor executor c0;
          c = c1\<lparr>failure_count := failure_count c1 + 1\<rparr>
      in if poison_threshold_reached c b then poison t PoisonReason.Threshold c else (c, Requeue))"

definition apply_established_crash ::
  "u64 \<Rightarrow> 'id option \<Rightarrow> Budget \<Rightarrow> 'id Counters \<Rightarrow> 'id Counters \<times> Verdict" where
  "apply_established_crash t executor b c0 =
     (let c1 = insert_executor executor c0;
          c = c1\<lparr>failure_count := failure_count c1 + 1\<rparr>
      in if poison_threshold_reached c b then poison t PoisonReason.Threshold c else (c, Requeue))"

definition apply_resubmit_reset :: "'id Counters \<Rightarrow> 'id Counters \<times> Verdict" where
  "apply_resubmit_reset c = (counters_default\<lparr>resubmit_cycles := resubmit_cycles c + 1\<rparr>, Requeue)"

fun apply_event ::
  "'id Counters \<Rightarrow> 'id AttemptEvent \<Rightarrow> Budget \<Rightarrow> 'id FleetView \<Rightarrow> 'id Counters \<times> Verdict" where
  "apply_event c (AttemptEvent.Transient t ex) b fleet = apply_transient t ex b fleet c"
| "apply_event c (AttemptEvent.Infra t ex exempt at_cap) b fleet = apply_infra t exempt b c"
| "apply_event c (AttemptEvent.ExecutorVariant t ex at_cap) b fleet =
     apply_executor_variant t ex at_cap b c"
| "apply_event c (AttemptEvent.Permanent t ex) b fleet = apply_permanent t ex c"
| "apply_event c (AttemptEvent.WorkerTimeout t ex) b fleet = apply_worker_timeout b c"
| "apply_event c (AttemptEvent.Disconnect t ex) b fleet = apply_disconnect t b c"
| "apply_event c (AttemptEvent.ControllerTermination t ex promoted at_cap) b fleet =
     apply_controller_termination t promoted at_cap b c"
| "apply_event c (AttemptEvent.ControllerDeadlineExceeded t ex) b fleet = apply_controller_deadline b c"
| "apply_event c (AttemptEvent.BackstopTimeout t ex) b fleet = apply_backstop t ex b c"
| "apply_event c (AttemptEvent.EstablishedCrash t ex) b fleet = apply_established_crash t ex b c"
| "apply_event c (AttemptEvent.Dispatched t ex) b fleet = (c\<lparr>backoff_until := None\<rparr>, Requeue)"
| "apply_event c (AttemptEvent.ResubmitReset t) b fleet = apply_resubmit_reset c"
| "apply_event c (AttemptEvent.CacheHitClear t) b fleet = (clear_for_cache_hit c, Requeue)"
| "apply_event c (AttemptEvent.PoisonCleared t) b fleet = (counters_default, Requeue)"

section \<open>The fold\<close>

definition ttl_downgrade :: "'id Counters \<Rightarrow> Verdict \<Rightarrow> u64 \<Rightarrow> Budget \<Rightarrow> Verdict" where
  "ttl_downgrade c verdict now b =
     (case verdict of
        Poison _ \<Rightarrow> (case poisoned_at c of
                       Some p \<Rightarrow> if saturating_sub now p > poison_ttl_secs b then TtlExpire else verdict
                     | None \<Rightarrow> verdict)
      | _ \<Rightarrow> verdict)"

definition fold_step ::
  "Budget \<Rightarrow> 'id FleetView \<Rightarrow> 'id Counters \<times> Verdict \<Rightarrow> 'id AttemptEvent \<Rightarrow> 'id Counters \<times> Verdict" where
  "fold_step b fleet s ev = apply_event (fst s) ev b fleet"

definition fold_events ::
  "'id Counters \<Rightarrow> 'id AttemptEvent list \<Rightarrow> u64 \<Rightarrow> Budget \<Rightarrow> 'id FleetView \<Rightarrow> 'id Counters \<times> Verdict" where
  "fold_events initial history now b fleet =
     (let (c, verdict) = foldl (fold_step b fleet) (initial, Requeue) history
      in (c, ttl_downgrade c verdict now b))"

definition reference_fold ::
  "'id AttemptEvent list \<Rightarrow> u64 \<Rightarrow> Budget \<Rightarrow> 'id FleetView \<Rightarrow> 'id Counters \<times> Verdict" where
  "reference_fold history now b fleet = fold_events counters_default history now b fleet"

lemmas arm_defs =
  apply_transient_def apply_infra_def apply_executor_variant_def apply_permanent_def
  apply_worker_timeout_def apply_disconnect_def apply_controller_termination_def
  apply_controller_deadline_def apply_backstop_def apply_established_crash_def
  apply_resubmit_reset_def clear_for_cache_hit_def counters_default_def insert_executor_def
  poison_def

section \<open>Backoff\<close>

lemma saturating_mul_ge_iff:
  fixes d m x :: u64
  shows "x \<le> saturating_mul d m \<longleftrightarrow> unat x \<le> unat d * unat m"
  by (simp add: word_le_nat_alt unat_saturating_mul unat_max_word)

lemma unat_backoff_loop:
  "unat (backoff_loop b n d) =
     min (unat d * unat (backoff_multiplier b) ^ n) (unat (backoff_max_secs b))"
proof (induction n arbitrary: d)
  case 0
  show ?case by (simp add: unat_min)
next
  case (Suc n)
  let ?m = "unat (backoff_multiplier b)" and ?x = "unat (backoff_max_secs b)"
  show ?case
  proof (cases "?x \<le> unat d * ?m")
    case True
    have "?x \<le> unat d * ?m * ?m ^ n"
    proof (cases "?m = 0")
      case False
      hence "1 \<le> ?m ^ n" by simp
      hence "unat d * ?m * 1 \<le> unat d * ?m * ?m ^ n" by (rule mult_le_mono2)
      with True show ?thesis by linarith
    qed (use True in simp)
    with True show ?thesis by (simp add: saturating_mul_ge_iff mult.assoc min_def)
  next
    case False
    hence "unat d * ?m \<le> 18446744073709551615"
      using unat_le_max64 [of "backoff_max_secs b"] by linarith
    hence "unat (saturating_mul d (backoff_multiplier b)) = unat d * ?m"
      by (simp add: unat_saturating_mul unat_max_word)
    with False show ?thesis by (simp add: saturating_mul_ge_iff Suc.IH mult.assoc)
  qed
qed

text \<open>
  The backoff of attempt \<open>a\<close> is exactly \<open>min (base * multiplier ^ a) max\<close>, computed over the
  naturals: neither the saturating product nor the early return changes the value, whatever
  the budget.
\<close>

lemma backoff_secs_closed_form:
  "unat (backoff_secs b a) =
     min (unat (backoff_base_secs b) * unat (backoff_multiplier b) ^ unat a)
         (unat (backoff_max_secs b))"
  by (simp add: backoff_secs_def unat_backoff_loop)

section \<open>Invariants of the fold\<close>

definition caps_ok :: "Budget \<Rightarrow> 'id Counters \<Rightarrow> bool" where
  "caps_ok b c \<longleftrightarrow> count c \<le> max_retries b \<and> infra_count c \<le> max_infra_retries b
     \<and> timeout_count c \<le> max_timeout_retries b"

definition poison_stamped :: "'id Counters \<times> Verdict \<Rightarrow> bool" where
  "poison_stamped s \<longleftrightarrow> (case snd s of Poison _ \<Rightarrow> poisoned_at (fst s) \<noteq> None | v \<Rightarrow> v \<noteq> TtlExpire)"

definition fold_inv :: "Budget \<Rightarrow> 'id Counters \<times> Verdict \<Rightarrow> bool" where
  "fold_inv b s \<longleftrightarrow> caps_ok b (fst s) \<and> finite (failed_builders (fst s)) \<and> poison_stamped s"

lemmas fold_inv_defs = fold_inv_def caps_ok_def poison_stamped_def

lemma insert_executor_simps [simp]:
  "count (insert_executor ex c) = count c"
  "resubmit_cycles (insert_executor ex c) = resubmit_cycles c"
  "infra_count (insert_executor ex c) = infra_count c"
  "timeout_count (insert_executor ex c) = timeout_count c"
  "last_infra_failure_at (insert_executor ex c) = last_infra_failure_at c"
  "exempt_infra_count (insert_executor ex c) = exempt_infra_count c"
  "failed_builders (insert_executor ex c) = set_option ex \<union> failed_builders c"
  "failure_count (insert_executor ex c) = failure_count c"
  "poisoned_at (insert_executor ex c) = poisoned_at c"
  "backoff_until (insert_executor ex c) = backoff_until c"
  by (auto simp: insert_executor_def split: option.split)

lemmas arm_simps =
  apply_transient_def apply_infra_def apply_executor_variant_def apply_permanent_def
  apply_worker_timeout_def apply_disconnect_def apply_controller_termination_def
  apply_controller_deadline_def apply_backstop_def apply_established_crash_def
  apply_resubmit_reset_def clear_for_cache_hit_def counters_default_def poison_def Let_def

lemma apply_event_inv:
  assumes "caps_ok b c" "finite (failed_builders c)"
  shows "fold_inv b (apply_event c ev b fleet)"
  using assms by (cases ev) (simp_all add: arm_simps fold_inv_defs inc_le_of_less not_le)

lemma fold_inv_default: "fold_inv b (counters_default, Requeue)"
  by (simp add: fold_inv_defs counters_default_def)

lemma fold_step_inv: "fold_inv b s \<Longrightarrow> fold_inv b (fold_step b fleet s ev)"
  unfolding fold_step_def by (rule apply_event_inv) (simp_all add: fold_inv_def)

interpretation retry_fold: fold_machine "fold_step b fleet" "fold_inv b"
  for b :: Budget and fleet :: "'id FleetView"
  by unfold_locales (rule fold_step_inv)

lemma reference_fold_eq:
  "reference_fold h now b fleet =
     (let s = foldl (fold_step b fleet) (counters_default, Requeue) h
      in (fst s, ttl_downgrade (fst s) (snd s) now b))"
  by (simp add: reference_fold_def fold_events_def case_prod_beta Let_def)

lemma reference_fold_inv:
  "fold_inv b (foldl (fold_step b fleet) (counters_default, Requeue) h)"
  by (rule retry_fold.run_inv [OF fold_inv_default])

text \<open>
  Whatever the observed history, the fold's retry, infrastructure and timeout counters never
  exceed their budget caps, the set of failed builders is finite, and the verdict is
  justified by the poison stamp: a \<open>Poison\<close> verdict is stamped and within its time to
  live, and \<open>TtlExpire\<close> is answered only for a stamp older than it.
\<close>

lemma reference_fold_within_budget:
  "let (c, v) = reference_fold h now b fleet
   in count c \<le> max_retries b \<and> infra_count c \<le> max_infra_retries b
      \<and> timeout_count c \<le> max_timeout_retries b \<and> finite (failed_builders c)
      \<and> (case v of
            Poison _ \<Rightarrow> (\<exists>p. poisoned_at c = Some p \<and> saturating_sub now p \<le> poison_ttl_secs b)
          | TtlExpire \<Rightarrow> (\<exists>p. poisoned_at c = Some p \<and> saturating_sub now p > poison_ttl_secs b)
          | _ \<Rightarrow> True)"
  using reference_fold_inv [of b fleet h]
  by (auto simp: reference_fold_eq fold_inv_defs ttl_downgrade_def Let_def not_less
      split: Verdict.splits option.splits)

text \<open>
  The counters do not depend on the clock, and poison expiry is monotone in it: once the
  verdict of a history is \<open>TtlExpire\<close> it stays so at every later time, and a verdict that is
  not \<open>Poison\<close> never changes as time passes.
\<close>

lemma ttl_expiry_monotone:
  assumes "now \<le> now'"
  shows "fst (reference_fold h now b fleet) = fst (reference_fold h now' b fleet)
     \<and> (case snd (reference_fold h now b fleet) of
          Poison r \<Rightarrow> snd (reference_fold h now' b fleet) \<in> {Poison r, TtlExpire}
        | v \<Rightarrow> snd (reference_fold h now' b fleet) = v)"
proof -
  have le: "unat now \<le> unat now'" using assms by (simp add: word_le_nat_alt)
  have "saturating_sub now p > x \<Longrightarrow> saturating_sub now' p > x" for p x :: u64
    using le by (simp add: word_less_nat_alt unat_saturating_sub)
  thus ?thesis
    by (auto simp: reference_fold_eq ttl_downgrade_def Let_def split: Verdict.splits option.splits)
qed

section \<open>Attempts are bounded\<close>

text \<open>A history in which every event requeues: the derivation is re-attempted each time.\<close>

fun requeued :: "Budget \<Rightarrow> 'id FleetView \<Rightarrow> 'id Counters \<Rightarrow> 'id AttemptEvent list \<Rightarrow> bool" where
  "requeued b fleet c [] = True"
| "requeued b fleet c (ev # h) =
     (let (c', v) = apply_event c ev b fleet in v = Requeue \<and> requeued b fleet c' h)"

fun is_reset :: "'id AttemptEvent \<Rightarrow> bool" where
  "is_reset (AttemptEvent.ResubmitReset _) = True"
| "is_reset (AttemptEvent.CacheHitClear _) = True"
| "is_reset (AttemptEvent.PoisonCleared _) = True"
| "is_reset _ = False"

text \<open>The events that charge one of the four retry budgets when they requeue.\<close>

fun charges_budget :: "'id AttemptEvent \<Rightarrow> bool" where
  "charges_budget (AttemptEvent.Transient _ _) = True"
| "charges_budget (AttemptEvent.Infra _ _ _ _) = True"
| "charges_budget (AttemptEvent.ExecutorVariant _ _ _) = True"
| "charges_budget (AttemptEvent.WorkerTimeout _ _) = True"
| "charges_budget (AttemptEvent.ControllerDeadlineExceeded _ _) = True"
| "charges_budget (AttemptEvent.ControllerTermination _ _ promoted at_cap) = (promoted \<or> at_cap)"
| "charges_budget _ = False"

definition attempts_left :: "Budget \<Rightarrow> 'id Counters \<Rightarrow> nat" where
  "attempts_left b c =
     (1 + unat (max_infra_retries b)) *
       ((unat (max_retries b) - unat (count c)) + (unat (max_timeout_retries b) - unat (timeout_count c)))
     + (unat (max_infra_retries b) - unat (infra_count c))
     + (unat (max_exempt_infra_retries b) - unat (exempt_infra_count c))"

lemma attempts_left_charge:
  fixes m n i x :: nat
  assumes "n' + 1 = n"
  shows "(1 + m) * n' + m + x < (1 + m) * n + (m - i) + x"
  using assms by auto

lemma diff_inc:
  fixes a m :: "'a::len word"
  assumes "a < m"
  shows "unat m - unat (a + 1) + 1 = unat m - unat a"
  using unat_inc_less [OF assms] assms by (simp add: word_less_nat_alt)

text \<open>
  What a requeue-only history keeps: the caps, and an exempt counter that has not yet reached
  its budget (so that its increment cannot wrap).
\<close>

definition open_inv :: "Budget \<Rightarrow> 'id Counters \<Rightarrow> bool" where
  "open_inv b c \<longleftrightarrow> caps_ok b c
     \<and> (exempt_infra_count c = 0 \<or> exempt_infra_count c < max_exempt_infra_retries b)"

lemma exempt_open_less:
  fixes x m :: u32
  assumes "x = 0 \<or> x < m" "x + 1 < m"
  shows "x < m"
  using assms by (metis word_gt_0 word_not_simps(1))

lemma apply_event_open:
  assumes "open_inv b c" "apply_event c ev b fleet = (c', Requeue)"
  shows "open_inv b c'"
  using assms
  by (cases ev) (auto simp: arm_simps open_inv_def caps_ok_def inc_le_of_less not_le
      split: if_splits)

lemma attempts_left_count:
  assumes "count c < max_retries b" "count c' = count c + 1" "timeout_count c' = timeout_count c"
    "infra_count c' = 0" "exempt_infra_count c' = exempt_infra_count c"
  shows "attempts_left b c' < attempts_left b c"
  unfolding attempts_left_def assms(2-5) unsigned_0 diff_zero
  by (rule attempts_left_charge) (use diff_inc [OF assms(1)] in linarith)

lemma attempts_left_timeout:
  assumes "timeout_count c < max_timeout_retries b" "timeout_count c' = timeout_count c + 1"
    "count c' = count c" "infra_count c' = 0" "exempt_infra_count c' = exempt_infra_count c"
  shows "attempts_left b c' < attempts_left b c"
  unfolding attempts_left_def assms(2-5) unsigned_0 diff_zero
  by (rule attempts_left_charge) (use diff_inc [OF assms(1)] in linarith)

lemma attempts_left_infra:
  assumes "infra_count c < max_infra_retries b" "infra_count c' = infra_count c + 1"
    "count c' = count c" "timeout_count c' = timeout_count c"
    "exempt_infra_count c' = exempt_infra_count c"
  shows "attempts_left b c' < attempts_left b c"
  unfolding attempts_left_def assms(2-5) using diff_inc [OF assms(1)] by linarith

lemma attempts_left_exempt:
  assumes "exempt_infra_count c < max_exempt_infra_retries b"
    "exempt_infra_count c' = exempt_infra_count c + 1" "count c' = count c"
    "timeout_count c' = timeout_count c" "infra_count c' = infra_count c"
  shows "attempts_left b c' < attempts_left b c"
  unfolding attempts_left_def assms(2-5) using diff_inc [OF assms(1)] by linarith

lemma apply_event_charge:
  assumes "open_inv b c" "apply_event c ev b fleet = (c', Requeue)" "charges_budget ev"
  shows "attempts_left b c' < attempts_left b c"
proof -
  have ex: "exempt_infra_count c + 1 < max_exempt_infra_retries b \<Longrightarrow>
      exempt_infra_count c < max_exempt_infra_retries b"
    using assms(1) exempt_open_less unfolding open_inv_def by blast
  note arms = arm_simps not_le
  show ?thesis
  proof (cases ev)
    case (Transient t x)
    with assms(2) show ?thesis
      by (intro attempts_left_count) (auto simp: arms split: if_splits)
  next
    case (ExecutorVariant t x a)
    with assms(2) show ?thesis
      by (intro attempts_left_count) (auto simp: arms split: if_splits)
  next
    case (Infra t x exempt a)
    show ?thesis
    proof (cases exempt)
      case True
      with Infra assms(2) show ?thesis
        by (intro attempts_left_exempt) (auto simp: arms ex split: if_splits)
    next
      case False
      with Infra assms(2) show ?thesis
        by (intro attempts_left_infra) (auto simp: arms split: if_splits)
    qed
  next
    case (ControllerTermination t x promoted at_cap)
    show ?thesis
    proof (cases at_cap)
      case True
      with ControllerTermination assms(2) show ?thesis
        by (intro attempts_left_infra) (auto simp: arms split: if_splits)
    next
      case False
      with ControllerTermination assms(2,3) show ?thesis
        by (intro attempts_left_exempt) (auto simp: arms ex split: if_splits)
    qed
  qed (use assms(2,3) in \<open>auto simp: arms split: if_splits intro!: attempts_left_timeout\<close>)
qed

lemma apply_event_uncharged:
  assumes "apply_event c ev b fleet = (c', Requeue)" "\<not> charges_budget ev" "\<not> is_reset ev"
  shows "attempts_left b c' = attempts_left b c"
  using assms by (cases ev) (auto simp: arm_simps attempts_left_def split: if_splits)

lemma requeued_charges_le:
  assumes "open_inv b c" "requeued b fleet c h" "\<not> list_ex is_reset h"
  shows "length (filter charges_budget h) \<le> attempts_left b c"
  using assms
proof (induction h arbitrary: c)
  case (Cons ev h)
  obtain c' where ap: "apply_event c ev b fleet = (c', Requeue)" and rq: "requeued b fleet c' h"
    using Cons.prems(2) by (auto split: prod.splits)
  have "length (filter charges_budget h) \<le> attempts_left b c'"
    using Cons.IH [OF apply_event_open [OF Cons.prems(1) ap] rq] Cons.prems(3) by simp
  with apply_event_charge [OF Cons.prems(1) ap] apply_event_uncharged [OF ap] Cons.prems(3)
  show ?case by (cases "charges_budget ev") auto
qed simp

lemma open_inv_default: "open_inv b counters_default"
  by (simp add: open_inv_def caps_ok_def counters_default_def)

section \<open>The failure set is bounded\<close>

fun records_failure :: "'id AttemptEvent \<Rightarrow> bool" where
  "records_failure (AttemptEvent.Transient _ _) = True"
| "records_failure (AttemptEvent.ExecutorVariant _ _ _) = True"
| "records_failure (AttemptEvent.BackstopTimeout _ _) = True"
| "records_failure (AttemptEvent.EstablishedCrash _ _) = True"
| "records_failure _ = False"

fun event_executor :: "'id AttemptEvent \<Rightarrow> 'id option" where
  "event_executor (AttemptEvent.Transient _ ex) = ex"
| "event_executor (AttemptEvent.ExecutorVariant _ ex _) = ex"
| "event_executor (AttemptEvent.BackstopTimeout _ ex) = ex"
| "event_executor (AttemptEvent.EstablishedCrash _ ex) = ex"
| "event_executor _ = None"

lemma apply_event_records:
  assumes "apply_event c ev b fleet = (c', Requeue)" "\<not> is_reset ev"
  shows "failed_builders c' = set_option (event_executor ev) \<union> failed_builders c
    \<and> failure_count c' = failure_count c + (if records_failure ev then 1 else 0)
    \<and> (records_failure ev \<longrightarrow> \<not> poison_threshold_reached c' b)"
  using assms
  by (cases ev) (auto simp: arm_simps poison_threshold_reached_def split: if_splits)

lemma insert_executor_card:
  assumes "finite A"
  shows "card (set_option ex \<union> A) \<le> card A + 1"
  using assms by (cases ex) (simp_all add: card_insert_if)

definition below_threshold :: "Budget \<Rightarrow> nat \<Rightarrow> bool" where
  "below_threshold b n \<longleftrightarrow> n = 0 \<or> n < unat (poison_threshold b)"

lemma below_threshold_step:
  assumes "below_threshold b n" "m \<le> n + 1" "\<not> poison_threshold b \<le> of_nat m"
  shows "below_threshold b m"
proof -
  have "m \<le> unat (poison_threshold b) \<or> m \<le> 1"
    using assms(1,2) unfolding below_threshold_def by linarith
  hence "m < 4294967296" using unat_bound32 [of "poison_threshold b"] by linarith
  hence "unat (of_nat m :: u32) = m" by (simp add: unat_of_nat32)
  with assms(3) show ?thesis by (simp add: below_threshold_def word_le_nat_alt)
qed

lemma requeued_ConsE:
  assumes "requeued b fleet c (ev # h)"
  obtains c' where "apply_event c ev b fleet = (c', Requeue)" "requeued b fleet c' h"
  using assms by (auto split: prod.splits)

lemma requeued_distinct:
  assumes "require_distinct_workers b" "finite (failed_builders c)"
    "below_threshold b (card (failed_builders c))" "requeued b fleet c h" "\<not> list_ex is_reset h"
  shows "below_threshold b (card (failed_builders c \<union> (\<Union>ev\<in>set h. set_option (event_executor ev))))"
  using assms(2-)
proof (induction h arbitrary: c)
  case (Cons ev h)
  obtain c' where ap: "apply_event c ev b fleet = (c', Requeue)" and rq: "requeued b fleet c' h"
    using Cons.prems(3) by (rule requeued_ConsE)
  have rec: "failed_builders c' = set_option (event_executor ev) \<union> failed_builders c"
    "records_failure ev \<Longrightarrow> \<not> poison_threshold_reached c' b"
    using apply_event_records [OF ap] Cons.prems(4) by simp_all
  have "below_threshold b (card (failed_builders c'))"
  proof (cases "records_failure ev")
    case True
    with rec assms(1) have "\<not> poison_threshold b \<le> of_nat (card (failed_builders c'))"
      by (simp add: poison_threshold_reached_def)
    with Cons.prems(1,2) rec(1) insert_executor_card show ?thesis
      by (metis below_threshold_step)
  next
    case False
    hence "event_executor ev = None" by (cases ev) simp_all
    with rec(1) Cons.prems(2) show ?thesis by simp
  qed
  with Cons.IH [OF _ _ rq] Cons.prems(1,4) rec(1) show ?case by (simp add: ac_simps Un_assoc)
qed simp

lemma requeued_total:
  assumes "\<not> require_distinct_workers b" "below_threshold b (unat (failure_count c))"
    "requeued b fleet c h" "\<not> list_ex is_reset h"
  shows "below_threshold b (unat (failure_count c) + length (filter records_failure h))"
  using assms(2-)
proof (induction h arbitrary: c)
  case (Cons ev h)
  obtain c' where ap: "apply_event c ev b fleet = (c', Requeue)" and rq: "requeued b fleet c' h"
    using Cons.prems(2) by (rule requeued_ConsE)
  let ?d = "if records_failure ev then 1 else 0 :: nat"
  have rec: "failure_count c' = failure_count c + (if records_failure ev then 1 else 0)"
    "records_failure ev \<Longrightarrow> \<not> poison_threshold b \<le> failure_count c'"
    using apply_event_records [OF ap] Cons.prems(3) assms(1)
    by (auto simp: poison_threshold_reached_def)
  have "of_nat (unat (failure_count c) + ?d) = failure_count c'" by (simp add: rec(1))
  hence below: "below_threshold b (unat (failure_count c) + ?d)"
    using below_threshold_step [OF Cons.prems(1), of "unat (failure_count c) + ?d"] rec(2) Cons.prems(1)
    by (cases "records_failure ev") (simp_all del: of_nat_add)
  hence "unat (failure_count c) + ?d < 4294967296"
    using unat_bound32 [of "poison_threshold b"] unfolding below_threshold_def by linarith
  hence "unat (failure_count c') = unat (failure_count c) + ?d"
    using \<open>of_nat (unat (failure_count c) + ?d) = failure_count c'\<close> [symmetric]
    by (simp add: unat_of_nat32 del: of_nat_add)
  with Cons.IH [OF _ rq] Cons.prems(3) below show ?case by (simp split: if_splits)
qed simp

text \<open>
  The poison threshold bounds the breadth of failure. In a history without resets in which every
  event requeues, fewer distinct executors than the threshold have failed the derivation
  when the budget counts distinct workers, and fewer failures than the threshold have
  been recorded when it counts all of them. (With a threshold of zero nothing is recorded at
  all.) The \<open>as u32\<close> cast of the set size never truncates on the way.
\<close>

lemma failures_below_threshold:
  assumes "requeued b fleet counters_default h" "\<not> list_ex is_reset h"
  shows "if require_distinct_workers b
     then below_threshold b (card (\<Union>ev\<in>set h. set_option (event_executor ev)))
     else below_threshold b (length (filter records_failure h))"
  using requeued_distinct [OF _ _ _ assms] requeued_total [OF _ _ assms]
  by (simp add: counters_default_def below_threshold_def)

section \<open>Every counted attempt\<close>

text \<open>The two reports of an attempt that ended without a worker verdict charge the threshold alone.\<close>

fun charges_threshold :: "'id AttemptEvent \<Rightarrow> bool" where
  "charges_threshold (AttemptEvent.BackstopTimeout _ _) = True"
| "charges_threshold (AttemptEvent.EstablishedCrash _ _) = True"
| "charges_threshold _ = False"

definition counted_attempt :: "'id AttemptEvent \<Rightarrow> bool" where
  "counted_attempt ev \<longleftrightarrow> charges_budget ev \<or> charges_threshold ev"

text \<open>The verdict-less attempts of a history each name an executor, and never the same one twice.\<close>

definition fresh_executors :: "'id AttemptEvent list \<Rightarrow> bool" where
  "fresh_executors h \<longleftrightarrow>
     (let xs = map event_executor (filter charges_threshold h) in None \<notin> set xs \<and> distinct xs)"

lemma counted_split:
  "length (filter counted_attempt h) = length (filter charges_budget h) + length (filter charges_threshold h)"
proof (induction h)
  case (Cons ev h)
  thus ?case by (cases ev) (auto simp: counted_attempt_def)
qed simp

lemma charges_threshold_records: "charges_threshold ev \<Longrightarrow> records_failure ev"
  by (cases ev) simp_all

lemma threshold_le_records:
  "length (filter charges_threshold h) \<le> length (filter records_failure h)"
  using charges_threshold_records by (induction h) auto

lemma threshold_le_executors:
  assumes "fresh_executors h"
  shows "length (filter charges_threshold h) \<le> card (\<Union>ev\<in>set h. set_option (event_executor ev))"
proof -
  let ?xs = "map event_executor (filter charges_threshold h)"
  have some: "None \<notin> set ?xs" and dist: "distinct ?xs"
    using assms by (simp_all add: fresh_executors_def Let_def)
  have "inj_on the (set ?xs)" using some by (metis inj_onI option.exhaust_sel)
  hence "card (the ` set ?xs) = length ?xs"
    using dist by (metis card_image distinct_card)
  moreover have "the ` set ?xs \<subseteq> (\<Union>ev\<in>set h. set_option (event_executor ev))"
    using some by (force simp: elem_set)
  moreover have "finite (set_option x)" for x :: "'a option" by (cases x) simp_all
  hence "finite (\<Union>ev\<in>set h. set_option (event_executor ev))" by simp
  ultimately show ?thesis using card_mono by (metis length_map)
qed

lemma below_threshold_le: "below_threshold b n \<Longrightarrow> n \<le> unat (poison_threshold b)"
  by (auto simp: below_threshold_def)

text \<open>
  Without an executor there is nothing to add to the failure set, so such an attempt never
  brings a threshold over distinct workers closer.
\<close>

lemma anonymous_crash:
  assumes "require_distinct_workers b" "0 < poison_threshold b" "failed_builders c = {}"
  shows "requeued b fleet c (replicate n (AttemptEvent.EstablishedCrash t None))"
  using assms(3)
proof (induction n arbitrary: c)
  case (Suc n)
  thus ?case
    using assms(1,2) by (simp add: arm_simps insert_executor_def poison_threshold_reached_def not_le)
qed simp

text \<open>
  C12. Attempts are bounded, budget by budget. In a history without an operator or cache reset
  in which every event requeues: (1) the events that charge one of the four retry budgets
  number at most \<open>(1 + I) * (R + T) + I + X\<close>, where \<open>R\<close>, \<open>T\<close>, \<open>I\<close>, \<open>X\<close> are the transient,
  timeout, infrastructure and exempt-infrastructure budgets (the factor \<open>1 + I\<close> is there because
  a transient failure or a timeout resets the infrastructure counter); (2) the poison
  threshold bounds the executors that failed the derivation, where the budget counts distinct
  workers, and otherwise all recorded failures; (3) all counted attempts together, the crashes
  and backstop timeouts that charge only the threshold included, are bounded by the sum of the
  caps, provided, where distinct workers are counted, that those crashes and backstop timeouts
  each name an executor that was not named before. (4) The proviso is needed: with distinct
  workers counted and a positive threshold, any number of crashes without an executor requeue.
  Plain disconnects and terminations that are neither promoted nor at the cap charge nothing.
\<close>

theorem attempts_bounded:
  assumes "requeued b fleet counters_default h" "\<not> list_ex is_reset h"
  shows "length (filter charges_budget h)
      \<le> (1 + unat (max_infra_retries b)) * (unat (max_retries b) + unat (max_timeout_retries b))
         + unat (max_infra_retries b) + unat (max_exempt_infra_retries b)
    \<and> below_threshold b (if require_distinct_workers b
         then card (\<Union>ev\<in>set h. set_option (event_executor ev))
         else length (filter records_failure h))
    \<and> ((require_distinct_workers b \<longrightarrow> fresh_executors h) \<longrightarrow>
         length (filter counted_attempt h)
           \<le> (1 + unat (max_infra_retries b)) * (unat (max_retries b) + unat (max_timeout_retries b))
              + unat (max_infra_retries b) + unat (max_exempt_infra_retries b)
              + unat (poison_threshold b))
    \<and> (require_distinct_workers b \<and> 0 < poison_threshold b \<longrightarrow>
         (\<forall>n t. requeued b fleet counters_default
                  (replicate n (AttemptEvent.EstablishedCrash t None))))"
  (is "?B \<le> ?N \<and> ?T \<and> (?P \<longrightarrow> ?A \<le> ?N + ?t) \<and> ?U")
proof -
  have N: "?B \<le> ?N"
    using requeued_charges_le [OF open_inv_default assms(1,2)]
    by (simp add: attempts_left_def counters_default_def)
  have T: ?T
    using failures_below_threshold [OF assms(1,2)] by (simp split: if_splits)
  have "length (filter charges_threshold h) \<le> unat (poison_threshold b)"
    if ?P
    using below_threshold_le [OF T] that threshold_le_executors [of h] threshold_le_records [of h]
    by (auto split: if_splits)
  with N have C: "?P \<longrightarrow> ?A \<le> ?N + ?t"
    by (auto simp: counted_split)
  have ?U by (simp add: anonymous_crash counters_default_def)
  with N T C show ?thesis by blast
qed

theorem attempts_bounded_witness:
  "length (filter counted_attempt
      [AttemptEvent.Infra 1 (Some (7::nat)) False False, AttemptEvent.Transient 2 (Some 7),
       AttemptEvent.WorkerTimeout 3 None, AttemptEvent.EstablishedCrash 4 (Some 8)]) \<le> 129
   \<and> (\<forall>n t. requeued budget_default fleet_default counters_default
             (replicate n (AttemptEvent.EstablishedCrash t None :: nat AttemptEvent)))"
proof -
  let ?h = "[AttemptEvent.Infra 1 (Some (7::nat)) False False, AttemptEvent.Transient 2 (Some 7),
       AttemptEvent.WorkerTimeout 3 None, AttemptEvent.EstablishedCrash 4 (Some 8)]"
  have "requeued budget_default fleet_default counters_default ?h"
    by (simp add: arm_simps insert_executor_def budget_default_def poison_threshold_reached_def
        exhausts_fleet_def fleet_default_def word_le_nat_alt)
  from attempts_bounded [OF this] show ?thesis
    by (simp add: budget_default_def fresh_executors_def)
qed

section \<open>The verdict does not depend on the reporting channel\<close>

text \<open>
  The two reports of a build timeout (the worker's, the controller's) and the two reports of
  an attempt that ended without a worker verdict (the backstop's, the establishment's).
\<close>

fun same_channel :: "'id AttemptEvent \<Rightarrow> 'id AttemptEvent \<Rightarrow> bool" where
  "same_channel (AttemptEvent.WorkerTimeout _ _) (AttemptEvent.ControllerDeadlineExceeded _ _) = True"
| "same_channel (AttemptEvent.ControllerDeadlineExceeded _ _) (AttemptEvent.WorkerTimeout _ _) = True"
| "same_channel (AttemptEvent.BackstopTimeout t ex) (AttemptEvent.EstablishedCrash t' ex') = (t = t' \<and> ex = ex')"
| "same_channel (AttemptEvent.EstablishedCrash t ex) (AttemptEvent.BackstopTimeout t' ex') = (t = t' \<and> ex = ex')"
| "same_channel ev ev' = (ev = ev')"

lemma apply_event_same_channel:
  "same_channel ev ev' \<Longrightarrow> apply_event c ev b fleet = apply_event c ev' b fleet"
  by (induction ev ev' rule: same_channel.induct) (auto simp: arm_simps)

lemma foldl_same_channel:
  "list_all2 same_channel h h' \<Longrightarrow> foldl (fold_step b fleet) s h = foldl (fold_step b fleet) s h'"
  by (induction arbitrary: s rule: list_all2_induct)
    (simp_all add: fold_step_def apply_event_same_channel)

text \<open>
  The fold is channel invariant: replacing any timeout report by the same timeout seen on the
  other channel, and any backstop timeout by the established crash at the same time on the
  same executor (or the reverse), anywhere in the history, leaves every counter and the
  verdict unchanged.
\<close>

lemma verdict_channel_invariant:
  assumes "list_all2 same_channel h h'"
  shows "reference_fold h now b fleet = reference_fold h' now b fleet"
  by (simp add: reference_fold_eq foldl_same_channel [OF assms])

end
