(* ===== verification/Retry_Ledger.thy ===== *)
theory Retry_Ledger
  imports Retry_Fold
begin

text \<open>
  The attempt ledger of the retry kernel: its rows, the map of a row onto the fold's event
  alphabet (\<open>row_to_event\<close>), the run law of the bounded uncharged classes (\<open>run_step\<close>) and
  the admissions built on it (\<open>admit_worker_abort\<close>, \<open>admit_store_degraded\<close>). The last
  section shows that the admissions bound every run of uncharged rows.
\<close>

section \<open>Ledger rows\<close>

datatype AttemptEventKind = Attempt | Reset

datatype OutcomeClass =
    Transient
  | Infra
  | ExemptInfra
  | Timeout
  | Permanent
  | ExecutorVariant
  | Cascade
  | Backstop
  | Disconnected
  | ExecutorCrash
  | FleetExhaust
  | ResubmitReset
  | CacheHitClear
  | PoisonCleared
  | MaterializationUnobtainable
  | MaterializationInfra
  | MaterializationReset
  | StoreDegraded

datatype ReportingParty = Worker | Controller | Scheduler | Admin

datatype AttemptKind = Build | Materialization

text \<open>\<open>resubmit_cycle\<close> is an \<open>i32\<close>: the 32-bit word read with \<open>sint\<close>.\<close>

record 'id LedgerRow =
  event_kind :: AttemptEventKind
  outcome_class :: OutcomeClass
  executor :: "'id option"
  reporting_party :: ReportingParty
  floor_promoted :: bool
  floor_at_cap :: bool
  resubmit_cycle :: u32
  row_at :: u64
  kind :: AttemptKind

section \<open>Rows as events\<close>

definition row_to_event :: "'id LedgerRow \<Rightarrow> 'id AttemptEvent option" where
  "row_to_event row =
     (if event_kind row = Reset then
        (case outcome_class row of
           OutcomeClass.ResubmitReset \<Rightarrow> Some (AttemptEvent.ResubmitReset (row_at row))
         | OutcomeClass.CacheHitClear \<Rightarrow> Some (AttemptEvent.CacheHitClear (row_at row))
         | OutcomeClass.PoisonCleared \<Rightarrow> Some (AttemptEvent.PoisonCleared (row_at row))
         | _ \<Rightarrow> None)
      else
        (let worker_reported = (reporting_party row = Worker);
             exempt = (outcome_class row = OutcomeClass.ExemptInfra);
             infra_event =
               (if worker_reported
                then AttemptEvent.Infra (row_at row) (executor row) exempt (floor_at_cap row)
                else AttemptEvent.ControllerTermination (row_at row) (executor row)
                       (exempt \<or> floor_promoted row) (floor_at_cap row))
         in case outcome_class row of
              OutcomeClass.Transient \<Rightarrow> Some (AttemptEvent.Transient (row_at row) (executor row))
            | OutcomeClass.Infra \<Rightarrow> Some infra_event
            | OutcomeClass.ExemptInfra \<Rightarrow> Some infra_event
            | OutcomeClass.Timeout \<Rightarrow>
                Some (if worker_reported then AttemptEvent.WorkerTimeout (row_at row) (executor row)
                      else AttemptEvent.ControllerDeadlineExceeded (row_at row) (executor row))
            | OutcomeClass.Permanent \<Rightarrow> Some (AttemptEvent.Permanent (row_at row) (executor row))
            | OutcomeClass.ExecutorVariant \<Rightarrow>
                Some (AttemptEvent.ExecutorVariant (row_at row) (executor row) (floor_at_cap row))
            | OutcomeClass.Backstop \<Rightarrow> Some (AttemptEvent.BackstopTimeout (row_at row) (executor row))
            | OutcomeClass.Disconnected \<Rightarrow> Some (AttemptEvent.Disconnect (row_at row) (executor row))
            | OutcomeClass.ExecutorCrash \<Rightarrow> Some (AttemptEvent.EstablishedCrash (row_at row) (executor row))
            | _ \<Rightarrow> None))"

section \<open>The bounded uncharged classes\<close>

definition WORKER_ABORT_FREE_CLOSES :: u32 where
  "WORKER_ABORT_FREE_CLOSES = 3"

definition STORE_DEGRADED_FREE_RUN :: u32 where
  "STORE_DEGRADED_FREE_RUN = 12"

definition BOUNDED_UNCHARGED :: "(OutcomeClass \<times> u32) list" where
  "BOUNDED_UNCHARGED =
     [(OutcomeClass.Disconnected, WORKER_ABORT_FREE_CLOSES),
      (OutcomeClass.StoreDegraded, STORE_DEGRADED_FREE_RUN)]"

definition is_bounded_uncharged_row :: "'id LedgerRow \<Rightarrow> bool" where
  "is_bounded_uncharged_row r \<longleftrightarrow>
     kind r = Build \<and> event_kind r = Attempt \<and> reporting_party r = Worker
     \<and> list_ex (\<lambda>(c, _). c = outcome_class r) BOUNDED_UNCHARGED"

datatype RunStep = LaneSkip | Pace | Extend | Break

definition run_step :: "'id LedgerRow \<Rightarrow> OutcomeClass \<Rightarrow> RunStep" where
  "run_step r paced_class =
     (if kind r \<noteq> Build then LaneSkip
      else if \<not> is_bounded_uncharged_row r then Break
      else if outcome_class r = paced_class then Pace
      else Extend)"

fun trailing_count_loop :: "OutcomeClass \<Rightarrow> u32 \<Rightarrow> 'id LedgerRow list \<Rightarrow> u32" where
  "trailing_count_loop cls n [] = n"
| "trailing_count_loop cls n (r # rs) =
     (case run_step r cls of
        LaneSkip \<Rightarrow> trailing_count_loop cls n rs
      | Break \<Rightarrow> n
      | Pace \<Rightarrow> trailing_count_loop cls (n + 1) rs
      | Extend \<Rightarrow> trailing_count_loop cls n rs)"

definition trailing_uncharged_class_count :: "'id LedgerRow list \<Rightarrow> OutcomeClass \<Rightarrow> u32" where
  "trailing_uncharged_class_count rows cls = trailing_count_loop cls 0 (rev rows)"

datatype WorkerAbortAdmission = Uncharged | ChargedFallthrough

definition admit_bounded_uncharged ::
  "'id LedgerRow list \<Rightarrow> OutcomeClass \<Rightarrow> u32 \<Rightarrow> WorkerAbortAdmission" where
  "admit_bounded_uncharged rows cls bound =
     (if trailing_uncharged_class_count rows cls \<ge> bound then ChargedFallthrough else Uncharged)"

definition admit_worker_abort :: "'id LedgerRow list \<Rightarrow> u32 \<Rightarrow> WorkerAbortAdmission" where
  "admit_worker_abort rows bound = admit_bounded_uncharged rows OutcomeClass.Disconnected bound"

definition admit_store_degraded :: "'id LedgerRow list \<Rightarrow> u32 \<Rightarrow> WorkerAbortAdmission" where
  "admit_store_degraded rows bound = admit_bounded_uncharged rows OutcomeClass.StoreDegraded bound"

section \<open>Runs of uncharged rows are bounded\<close>

definition build_rows :: "'id LedgerRow list \<Rightarrow> 'id LedgerRow list" where
  "build_rows h = filter (\<lambda>r. kind r = Build) h"

lemma build_rows_simps [simp]:
  "build_rows [] = []"
  "build_rows (r # h) = (if kind r = Build then r # build_rows h else build_rows h)"
  "build_rows (g @ h) = build_rows g @ build_rows h"
  "rev (build_rows h) = build_rows (rev h)"
  by (simp_all add: build_rows_def rev_filter)

text \<open>The trailing run, latest row first, and its rows of one class.\<close>

definition trailing_run :: "'id LedgerRow list \<Rightarrow> 'id LedgerRow list" where
  "trailing_run h = takeWhile is_bounded_uncharged_row (rev (build_rows h))"

definition of_class :: "OutcomeClass \<Rightarrow> 'id LedgerRow list \<Rightarrow> nat" where
  "of_class cls rs = length (filter (\<lambda>r. outcome_class r = cls) rs)"

lemma is_bounded_uncharged_class:
  "is_bounded_uncharged_row r \<longleftrightarrow> kind r = Build \<and> event_kind r = Attempt \<and> reporting_party r = Worker
     \<and> (outcome_class r = OutcomeClass.Disconnected \<or> outcome_class r = OutcomeClass.StoreDegraded)"
  by (auto simp: is_bounded_uncharged_row_def BOUNDED_UNCHARGED_def)

lemma trailing_count_loop_run:
  "trailing_count_loop cls n rs =
     n + of_nat (of_class cls (takeWhile is_bounded_uncharged_row (build_rows rs)))"
  by (induction rs arbitrary: n)
    (auto simp: of_class_def run_step_def is_bounded_uncharged_class)

lemma trailing_count_run:
  "trailing_uncharged_class_count h cls = of_nat (of_class cls (trailing_run h))"
  by (simp add: trailing_uncharged_class_count_def trailing_count_loop_run trailing_run_def)

lemma run_length_split:
  assumes "\<forall>r \<in> set rs. is_bounded_uncharged_row r"
  shows "length rs = of_class OutcomeClass.Disconnected rs + of_class OutcomeClass.StoreDegraded rs"
  using assms by (induction rs) (auto simp: of_class_def is_bounded_uncharged_class)

text \<open>
  A ledger that grew by the admissions: a worker abort (store-degraded) row is appended as an
  uncharged row only when the admission of its class answered \<open>Uncharged\<close>; every other row
  may be appended freely.
\<close>

inductive admitted :: "'id LedgerRow list \<Rightarrow> bool" where
  admitted_Nil: "admitted []"
| admitted_free: "admitted h \<Longrightarrow> \<not> is_bounded_uncharged_row r \<Longrightarrow> admitted (h @ [r])"
| admitted_abort: "admitted h \<Longrightarrow> is_bounded_uncharged_row r \<Longrightarrow>
    outcome_class r = OutcomeClass.Disconnected \<Longrightarrow>
    admit_worker_abort h WORKER_ABORT_FREE_CLOSES = Uncharged \<Longrightarrow> admitted (h @ [r])"
| admitted_store: "admitted h \<Longrightarrow> is_bounded_uncharged_row r \<Longrightarrow>
    outcome_class r = OutcomeClass.StoreDegraded \<Longrightarrow>
    admit_store_degraded h STORE_DEGRADED_FREE_RUN = Uncharged \<Longrightarrow> admitted (h @ [r])"

lemma trailing_run_snoc:
  "trailing_run (h @ [r]) =
     (if kind r \<noteq> Build then trailing_run h
      else if is_bounded_uncharged_row r then r # trailing_run h else [])"
  by (auto simp: trailing_run_def is_bounded_uncharged_class)

definition run_ok :: "'id LedgerRow list \<Rightarrow> bool" where
  "run_ok h \<longleftrightarrow> of_class OutcomeClass.Disconnected (trailing_run h) \<le> 3
     \<and> of_class OutcomeClass.StoreDegraded (trailing_run h) \<le> 12"

lemma admit_uncharged_count:
  assumes "admit_bounded_uncharged h cls bound = Uncharged" "of_class cls (trailing_run h) < 4294967296"
  shows "of_class cls (trailing_run h) < unat bound"
  using assms
  by (simp add: admit_bounded_uncharged_def trailing_count_run word_le_nat_alt unat_of_nat32
      split: if_splits)

lemma admitted_run_ok: "admitted h \<Longrightarrow> run_ok h"
proof (induction rule: admitted.induct)
  case admitted_Nil
  show ?case by (simp add: run_ok_def trailing_run_def of_class_def)
next
  case (admitted_free h r)
  then show ?case by (simp add: run_ok_def trailing_run_snoc of_class_def)
next
  case (admitted_abort h r)
  have "of_class OutcomeClass.Disconnected (trailing_run h) < 3"
    using admit_uncharged_count [of h OutcomeClass.Disconnected 3] admitted_abort
    by (simp add: admit_worker_abort_def WORKER_ABORT_FREE_CLOSES_def run_ok_def)
  with admitted_abort show ?case
    by (simp add: run_ok_def trailing_run_snoc of_class_def is_bounded_uncharged_class)
next
  case (admitted_store h r)
  have "of_class OutcomeClass.StoreDegraded (trailing_run h) < 12"
    using admit_uncharged_count [of h OutcomeClass.StoreDegraded 12] admitted_store
    by (simp add: admit_store_degraded_def STORE_DEGRADED_FREE_RUN_def run_ok_def)
  with admitted_store show ?case
    by (simp add: run_ok_def trailing_run_snoc of_class_def is_bounded_uncharged_class)
qed

lemma admitted_prefix: "admitted (g @ h) \<Longrightarrow> admitted g"
proof (induction h rule: rev_induct)
  case (snoc r h)
  from snoc.prems have "admitted (g @ h)"
    by (cases rule: admitted.cases) (simp_all flip: append_assoc)
  with snoc.IH show ?case by blast
qed simp

lemma build_rows_split:
  assumes "build_rows h = xs @ ys"
  obtains g where "\<exists>t. h = g @ t" "build_rows g = xs"
  using assms
proof (induction h arbitrary: xs thesis)
  case Nil
  then show ?case by auto
next
  case (Cons r h)
  show ?case
  proof (cases "kind r = Build")
    case False
    with Cons.IH Cons.prems(2) obtain g where "\<exists>t. h = g @ t" "build_rows g = xs" by auto
    with Cons.prems(1) [of "r # g"] False show ?thesis by auto
  next
    case True
    show ?thesis
    proof (cases xs)
      case Nil
      with Cons.prems(1) [of "[]"] show ?thesis by simp
    next
      case (Cons x xs')
      with True Cons.IH Cons.prems(2) obtain g where "\<exists>t. h = g @ t" "build_rows g = xs'" "x = r"
        by auto
      with Cons Cons.prems(1) [of "r # g"] True show ?thesis by auto
    qed
  qed
qed

lemma trailing_run_ends_with:
  assumes "build_rows g = xs @ rs" "list_all is_bounded_uncharged_row rs"
  shows "of_class cls rs \<le> of_class cls (trailing_run g)"
proof -
  have "takeWhile is_bounded_uncharged_row (rev rs @ rev xs)
      = rev rs @ takeWhile is_bounded_uncharged_row (rev xs)"
    by (rule takeWhile_append2) (use assms(2) in \<open>simp add: list_all_iff\<close>)
  hence "trailing_run g = rev rs @ takeWhile is_bounded_uncharged_row (rev xs)"
    by (simp add: trailing_run_def assms(1) del: build_rows_simps(4))
  thus ?thesis by (simp add: of_class_def flip: rev_filter)
qed

text \<open>
  C28. Uncharged closes are bounded. In any ledger grown by the kernel's admissions, at the registry
  bounds, no run of consecutive build rows that are all uncharged (worker aborts and
  store-degraded closes, in any order, materialization rows interleaved) is longer than
  3 + 12 = 15: after that the next one falls through to a charged outcome. The count the
  admission takes never wraps.
\<close>

theorem uncharged_runs_bounded:
  assumes "admitted h" "build_rows h = xs @ rs @ ys" "list_all is_bounded_uncharged_row rs"
  shows "length rs \<le> 15"
proof -
  from assms(2) have split: "build_rows h = (xs @ rs) @ ys" by simp
  obtain g where g: "\<exists>t. h = g @ t" "build_rows g = xs @ rs"
    by (rule build_rows_split [OF split])
  hence "run_ok g" using assms(1) admitted_prefix admitted_run_ok by blast
  moreover have "of_class cls rs \<le> of_class cls (trailing_run g)" for cls
    by (rule trailing_run_ends_with [OF g(2) assms(3)])
  ultimately have "of_class OutcomeClass.Disconnected rs \<le> 3" "of_class OutcomeClass.StoreDegraded rs \<le> 12"
    unfolding run_ok_def by (meson le_trans)+
  with run_length_split [of rs] assms(3) show ?thesis by (simp add: list_all_iff)
qed

definition abort_row :: "u64 \<Rightarrow> nat LedgerRow" where
  "abort_row t = \<lparr>event_kind = Attempt, outcome_class = OutcomeClass.Disconnected, executor = Some 1,
     reporting_party = Worker, floor_promoted = False, floor_at_cap = False, resubmit_cycle = 0,
     row_at = t, kind = Build\<rparr>"

theorem uncharged_runs_bounded_witness:
  "admitted [abort_row 1] \<and> list_all is_bounded_uncharged_row [abort_row 1]
   \<and> length [abort_row 1] \<le> 15"
proof -
  have b: "is_bounded_uncharged_row (abort_row 1)"
    by (simp add: is_bounded_uncharged_class abort_row_def)
  have "admit_worker_abort ([] :: nat LedgerRow list) WORKER_ABORT_FREE_CLOSES = Uncharged"
    by (simp add: admit_worker_abort_def admit_bounded_uncharged_def WORKER_ABORT_FREE_CLOSES_def
        trailing_uncharged_class_count_def)
  with b have a: "admitted ([] @ [abort_row 1])"
    by (intro admitted_abort admitted_Nil) (simp_all add: abort_row_def)
  have "length [abort_row 1] \<le> 15"
    by (rule uncharged_runs_bounded [of "[] @ [abort_row 1]" "[]" _ "[]"])
      (use a b in \<open>simp_all add: abort_row_def\<close>)
  with a b show ?thesis by simp
qed

end
