(* ===== verification/Retry_Decide.thy ===== *)
theory Retry_Decide
  imports Retry_Ledger
begin

text \<open>
  \<open>decide\<close>, the budget decision over a derivation's attempt-ledger suffix, and the four clauses
  of its contract (the \<open>kani::ensures\<close> predicates of \<open>rio-retry-kernel/src/lib.rs\<close>), which
  are proved here for histories of every length, every budget and every identity type.
  The last sections show that the build decision sees the build lane only, and that it
  refines the reference fold.
\<close>

section \<open>The decision\<close>

record 'id Decision =
  verdict :: Verdict
  exclusion :: "'id set"
  decision_backoff_until :: "u64 option"
  counters :: "'id Counters"

definition try_from_i32 :: "u32 \<Rightarrow> u32 option" where
  "try_from_i32 x = (if sint x < 0 then None else Some x)"

text \<open>The seed read: the cycle index carried by a leading resubmit-reset row.\<close>

definition decide_initial :: "'id LedgerRow list \<Rightarrow> 'id Counters" where
  "decide_initial history =
     (case find (\<lambda>r. kind r = Build) history of
        Some first \<Rightarrow>
          if event_kind first = Reset \<and> outcome_class first = OutcomeClass.ResubmitReset
          then counters_default\<lparr>resubmit_cycles :=
                 saturating_sub (case try_from_i32 (resubmit_cycle first) of Some n \<Rightarrow> n | None \<Rightarrow> 0) 1\<rparr>
          else counters_default
      | None \<Rightarrow> counters_default)"

definition decide_fold_row ::
  "Budget \<Rightarrow> 'id LedgerRow \<Rightarrow> 'id Counters \<times> Verdict \<times> u32 \<Rightarrow> 'id Counters \<times> Verdict \<times> u32" where
  "decide_fold_row b row s =
     (case s of (c, v, run) \<Rightarrow>
        (case row_to_event row of
           Some ev \<Rightarrow> (let (c', v') = apply_event c ev b fleet_default in (c', v', run))
         | None \<Rightarrow> (c, v, run)))"

text \<open>One iteration of \<open>decide\<close>'s loop over (counters, verdict, store-degraded run).\<close>

definition decide_step ::
  "Budget \<Rightarrow> 'id Counters \<times> Verdict \<times> u32 \<Rightarrow> 'id LedgerRow \<Rightarrow> 'id Counters \<times> Verdict \<times> u32" where
  "decide_step b s row =
     (case s of (c, v, run) \<Rightarrow>
        (case run_step row OutcomeClass.StoreDegraded of
           LaneSkip \<Rightarrow> (c, v, run)
         | Pace \<Rightarrow>
             (let until = saturating_add (row_at row) (backoff_secs b run);
                  later = (case backoff_until c of Some x \<Rightarrow> if x > until then x else until | None \<Rightarrow> until)
              in (c\<lparr>backoff_until := Some later\<rparr>, v, saturating_add run 1))
         | Extend \<Rightarrow> decide_fold_row b row (c, v, run)
         | Break \<Rightarrow> decide_fold_row b row (c, v, 0)))"

definition decide_fold :: "Budget \<Rightarrow> 'id LedgerRow list \<Rightarrow> 'id Counters \<times> Verdict \<times> u32" where
  "decide_fold b history = foldl (decide_step b) (decide_initial history, Requeue, 0) history"

definition decide :: "'id LedgerRow list \<Rightarrow> Budget \<Rightarrow> u64 \<Rightarrow> 'id Decision" where
  "decide history b now =
     (let (c, v, run) = decide_fold b history
      in \<lparr>verdict = ttl_downgrade c v now b, exclusion = failed_builders c,
          decision_backoff_until = backoff_until c, counters = c\<rparr>)"

section \<open>The contract clauses\<close>

definition decide_verdict_partition_consistent :: "'id Decision \<Rightarrow> Budget \<Rightarrow> u64 \<Rightarrow> bool" where
  "decide_verdict_partition_consistent d b now =
     (let c = counters d; stamped = (poisoned_at c \<noteq> None) in
      case verdict d of
        Requeue \<Rightarrow> True
      | Poison PoisonReason.Threshold \<Rightarrow> stamped \<and> poison_threshold_reached c b
      | Poison PoisonReason.TransientBudget \<Rightarrow> stamped \<and> count c \<ge> max_retries b
      | Poison PoisonReason.InfraBudget \<Rightarrow> stamped \<and> infra_count c \<ge> max_infra_retries b
      | Poison PoisonReason.ExemptInfraBudget \<Rightarrow>
          stamped \<and> exempt_infra_count c \<ge> max_exempt_infra_retries b
      | Poison PoisonReason.Permanent \<Rightarrow> stamped
      | Poison PoisonReason.ComputeBoundAtCap \<Rightarrow> stamped
      | Poison PoisonReason.FleetExhausted \<Rightarrow> False
      | Cancel \<Rightarrow> timeout_count c \<ge> max_timeout_retries b
      | TtlExpire \<Rightarrow> (case poisoned_at c of Some p \<Rightarrow> saturating_sub now p > poison_ttl_secs b | None \<Rightarrow> False))"

definition is_exempt_charge :: "'id LedgerRow \<Rightarrow> bool" where
  "is_exempt_charge r \<longleftrightarrow>
     event_kind r = Attempt
     \<and> ((reporting_party r = Worker \<and> outcome_class r = OutcomeClass.ExemptInfra)
        \<or> (reporting_party r \<noteq> Worker \<and> \<not> floor_at_cap r
           \<and> (outcome_class r = OutcomeClass.ExemptInfra
              \<or> (outcome_class r = OutcomeClass.Infra \<and> floor_promoted r))))"

definition last_build_row :: "'id LedgerRow list \<Rightarrow> 'id LedgerRow option" where
  "last_build_row history = find (\<lambda>r. kind r = Build) (rev history)"

definition decide_requeue_within_caps :: "'id Decision \<Rightarrow> 'id LedgerRow list \<Rightarrow> Budget \<Rightarrow> bool" where
  "decide_requeue_within_caps d history b =
     (let last_is_exempt_charge =
            (case last_build_row history of Some r \<Rightarrow> is_exempt_charge r | None \<Rightarrow> False)
      in count (counters d) \<le> max_retries b
         \<and> infra_count (counters d) \<le> max_infra_retries b
         \<and> timeout_count (counters d) \<le> max_timeout_retries b
         \<and> (verdict d \<noteq> Requeue \<or> \<not> last_is_exempt_charge
            \<or> exempt_infra_count (counters d) < max_exempt_infra_retries b))"

definition is_build_reset :: "'id LedgerRow \<Rightarrow> bool" where
  "is_build_reset r \<longleftrightarrow> kind r = Build \<and> event_kind r = Reset"

definition charges_threshold :: "'id LedgerRow \<Rightarrow> bool" where
  "charges_threshold r \<longleftrightarrow>
     event_kind r = Attempt
     \<and> outcome_class r \<in> {OutcomeClass.Transient, OutcomeClass.Permanent, OutcomeClass.ExecutorVariant,
                          OutcomeClass.Backstop, OutcomeClass.ExecutorCrash}"

definition after_last_reset :: "'id LedgerRow list \<Rightarrow> 'id LedgerRow list" where
  "after_last_reset history =
     (let start = (case rposition is_build_reset history of Some i \<Rightarrow> i + 1 | None \<Rightarrow> 0)
      in drop start history)"

definition decide_exclusion_covers_charged_attempts :: "'id Decision \<Rightarrow> 'id LedgerRow list \<Rightarrow> bool" where
  "decide_exclusion_covers_charged_attempts d history =
     list_all (\<lambda>r. \<not> charges_threshold r
                    \<or> (case executor r of None \<Rightarrow> True | Some e \<Rightarrow> e \<in> exclusion d))
       (filter (\<lambda>r. kind r = Build) (after_last_reset history))"

definition decide_executor_variant_permanent_is_threshold ::
  "'id Decision \<Rightarrow> 'id LedgerRow list \<Rightarrow> Budget \<Rightarrow> bool" where
  "decide_executor_variant_permanent_is_threshold d history b =
     (let last_is_executor_variant =
            (case last_build_row history of
               Some r \<Rightarrow> event_kind r = Attempt \<and> outcome_class r = OutcomeClass.ExecutorVariant
             | None \<Rightarrow> False)
      in \<not> (last_is_executor_variant \<and> verdict d = Poison PoisonReason.Permanent)
         \<or> poison_threshold_reached (counters d) b)"

section \<open>The decision sees the build lane only\<close>

lemma decide_step_other_lane: "kind r \<noteq> Build \<Longrightarrow> decide_step b s r = s"
  by (simp add: decide_step_def run_step_def case_prod_beta)

lemma foldl_build_rows: "foldl (decide_step b) s (build_rows h) = foldl (decide_step b) s h"
  by (induction h arbitrary: s) (simp_all add: decide_step_other_lane)

lemma find_build_rows:
  "find (\<lambda>r. kind r = Build) (build_rows h) = find (\<lambda>r. kind r = Build) h"
  by (induction h) auto

lemma decide_initial_build_rows: "decide_initial (build_rows h) = decide_initial h"
  by (simp add: decide_initial_def find_build_rows)

lemma decide_fold_build_rows: "decide_fold b (build_rows h) = decide_fold b h"
  by (simp add: decide_fold_def foldl_build_rows decide_initial_build_rows)

text \<open>
  The kind partition, build half: the decision is a function of the build-lane rows alone.
  Materialization rows interleaved anywhere in the ledger neither charge a budget, nor enter
  the poison thresholds or the exclusion set, nor pace the backoff, nor reset anything.
\<close>

lemma decide_ignores_materialization:
  "decide history b now = decide (build_rows history) b now"
  by (simp add: decide_def decide_fold_build_rows)

section \<open>The contract holds\<close>

text \<open>What the loop keeps: the caps, and a verdict justified by the counters.\<close>

definition verdict_justified :: "Budget \<Rightarrow> 'id Counters \<Rightarrow> Verdict \<Rightarrow> bool" where
  "verdict_justified b c v =
     (case v of
        Requeue \<Rightarrow> True
      | Poison PoisonReason.Threshold \<Rightarrow> poisoned_at c \<noteq> None \<and> poison_threshold_reached c b
      | Poison PoisonReason.TransientBudget \<Rightarrow> poisoned_at c \<noteq> None \<and> count c \<ge> max_retries b
      | Poison PoisonReason.InfraBudget \<Rightarrow> poisoned_at c \<noteq> None \<and> infra_count c \<ge> max_infra_retries b
      | Poison PoisonReason.ExemptInfraBudget \<Rightarrow>
          poisoned_at c \<noteq> None \<and> exempt_infra_count c \<ge> max_exempt_infra_retries b
      | Poison PoisonReason.Permanent \<Rightarrow> poisoned_at c \<noteq> None
      | Poison PoisonReason.ComputeBoundAtCap \<Rightarrow> poisoned_at c \<noteq> None
      | Poison PoisonReason.FleetExhausted \<Rightarrow> False
      | Cancel \<Rightarrow> timeout_count c \<ge> max_timeout_retries b
      | TtlExpire \<Rightarrow> False)"

definition decide_inv :: "Budget \<Rightarrow> 'id Counters \<times> Verdict \<times> u32 \<Rightarrow> bool" where
  "decide_inv b s \<longleftrightarrow> (case s of (c, v, run) \<Rightarrow>
     caps_ok b c \<and> finite (failed_builders c) \<and> verdict_justified b c v)"

lemma threshold_stamp [simp]:
  "poison_threshold_reached (c\<lparr>poisoned_at := x\<rparr>) b = poison_threshold_reached c b"
  "poison_threshold_reached (c\<lparr>backoff_until := x\<rparr>) b = poison_threshold_reached c b"
  by (simp_all add: poison_threshold_reached_def)

lemma exhausts_fleet_default [simp]: "\<not> exhausts_fleet x fleet_default"
  by (simp add: exhausts_fleet_def fleet_default_def)

lemma apply_event_justified:
  "verdict_justified b (fst (apply_event c ev b fleet_default)) (snd (apply_event c ev b fleet_default))"
  by (cases ev) (auto simp: arm_simps verdict_justified_def)

lemma verdict_justified_backoff [simp]:
  "verdict_justified b (c\<lparr>backoff_until := x\<rparr>) v = verdict_justified b c v"
  by (simp add: verdict_justified_def split: Verdict.split PoisonReason.split)

lemma decide_fold_row_inv: "decide_inv b (c, v, run) \<Longrightarrow> decide_inv b (decide_fold_row b row (c, v, run'))"
  using apply_event_inv [of b c _ fleet_default] apply_event_justified [of b c]
  by (auto simp: decide_fold_row_def decide_inv_def fold_inv_def split: option.split prod.split)
    (metis fst_conv snd_conv)+

lemma decide_step_inv: "decide_inv b s \<Longrightarrow> decide_inv b (decide_step b s row)"
  using decide_fold_row_inv [of b "fst s" "fst (snd s)" "snd (snd s)" row]
  by (cases s) (auto simp: decide_step_def decide_inv_def caps_ok_def Let_def split: RunStep.split)

interpretation decide_loop: fold_machine "decide_step b" "decide_inv b"
  for b :: Budget
  by unfold_locales (rule decide_step_inv)

lemma decide_fold_inv: "decide_inv b (decide_fold b h)"
  unfolding decide_fold_def
  by (rule decide_loop.run_inv)
    (simp add: decide_inv_def decide_initial_def caps_ok_def verdict_justified_def
      counters_default_def split: option.split)

lemma ttl_downgrade_simps [simp]:
  "ttl_downgrade c v now b = Requeue \<longleftrightarrow> v = Requeue"
  "v \<noteq> TtlExpire \<Longrightarrow> ttl_downgrade c v now b = Cancel \<longleftrightarrow> v = Cancel"
  by (auto simp: ttl_downgrade_def split: Verdict.splits option.splits)

lemma ttl_downgrade_PoisonD: "ttl_downgrade c v now b = Poison r \<Longrightarrow> v = Poison r"
  by (auto simp: ttl_downgrade_def split: Verdict.splits option.splits if_splits)

text \<open>
  C11. Contract clause 1: every verdict names a budget that really is at its bound, the poison
  verdicts are stamped, the time-to-live downgrade fires only on an expired stamp, and the
  fleet-exhaust reason is never produced by \<open>decide\<close>.
\<close>

theorem decide_verdict_partition:
  "decide_verdict_partition_consistent (decide history b now) b now"
  using decide_fold_inv [of b history]
  by (cases "decide_fold b history")
    (auto simp: decide_def decide_verdict_partition_consistent_def decide_inv_def Let_def
      ttl_downgrade_def verdict_justified_def split: Verdict.splits PoisonReason.splits option.splits)

lemma last_build_rowE:
  assumes "last_build_row h = Some r"
  obtains ys where "build_rows h = ys @ [r]" "kind r = Build"
proof -
  have "find (\<lambda>r. kind r = Build) (rev h) = Some r \<Longrightarrow> \<exists>ys. build_rows (rev h) = r # ys \<and> kind r = Build" for h
    by (induction h rule: rev_induct) (auto split: if_splits)
  then obtain ys where "build_rows (rev h) = r # ys" "kind r = Build"
    using assms unfolding last_build_row_def by blast
  with that [of "rev ys"] show thesis by (simp flip: build_rows_simps(4))
qed

text \<open>The decision after its last build row: one step of the loop on that row.\<close>

lemma decide_last_row:
  assumes "last_build_row h = Some r"
  obtains s where "decide_fold b h = decide_step b s r" "decide_inv b s" "kind r = Build"
proof -
  obtain ys where ys: "build_rows h = ys @ [r]" "kind r = Build"
    using assms by (rule last_build_rowE)
  let ?s = "foldl (decide_step b) (decide_initial h, Requeue, 0) ys"
  have "decide_fold b h = foldl (decide_step b) (decide_initial h, Requeue, 0) (build_rows h)"
    by (simp add: decide_fold_def foldl_build_rows)
  hence "decide_fold b h = decide_step b ?s r" by (simp add: ys)
  moreover have "decide_inv b ?s"
    by (rule decide_loop.run_inv)
      (simp add: decide_inv_def decide_initial_def caps_ok_def verdict_justified_def
        counters_default_def split: option.split)
  ultimately show thesis using that ys(2) by blast
qed

lemma exempt_charge_step:
  assumes "is_exempt_charge r" "kind r = Build" "decide_step b s r = (c, Requeue, run)"
  shows "exempt_infra_count c < max_exempt_infra_retries b"
  using assms
  by (cases s) (auto simp: is_exempt_charge_def decide_step_def run_step_def is_bounded_uncharged_class
      decide_fold_row_def row_to_event_def arm_simps not_le split: if_splits)

lemma executor_variant_step:
  assumes "event_kind r = Attempt" "outcome_class r = OutcomeClass.ExecutorVariant" "kind r = Build"
    "decide_step b s r = (c, Poison PoisonReason.Permanent, run)"
  shows "poison_threshold_reached c b"
  using assms
  by (cases s) (auto simp: decide_step_def run_step_def is_bounded_uncharged_class
      decide_fold_row_def row_to_event_def arm_simps not_le split: if_splits)

text \<open>
  C39. Contract clause 2: the retry, infrastructure and timeout counters of a decision are within
  their caps over every history, and a decision that requeues right after an
  exempt-charging row has not reached the exempt cap.
\<close>

theorem decide_within_caps:
  "decide_requeue_within_caps (decide history b now) history b"
proof -
  obtain c v run where f: "decide_fold b history = (c, v, run)" by (cases "decide_fold b history")
  have caps: "caps_ok b c" using decide_fold_inv [of b history] by (simp add: decide_inv_def f)
  have "exempt_infra_count c < max_exempt_infra_retries b"
    if "last_build_row history = Some r" "is_exempt_charge r" "v = Requeue" for r
    using that exempt_charge_step decide_last_row [OF that(1)] f by metis
  with caps show ?thesis
    by (auto simp: decide_requeue_within_caps_def decide_def f caps_ok_def Let_def split: option.split)
qed

text \<open>
  Contract clause 4: when the last build row is an executor-variant failure, the decision
  reaches \<open>Poison Permanent\<close> only through the poison threshold, never on a first
  observation.
\<close>

lemma decide_executor_variant_permanent:
  "decide_executor_variant_permanent_is_threshold (decide history b now) history b"
proof -
  obtain c v run where f: "decide_fold b history = (c, v, run)" by (cases "decide_fold b history")
  have "poison_threshold_reached c b"
    if "last_build_row history = Some r" "event_kind r = Attempt"
      "outcome_class r = OutcomeClass.ExecutorVariant" "v = Poison PoisonReason.Permanent" for r
    using that executor_variant_step decide_last_row [OF that(1)] f by metis
  thus ?thesis
    by (auto simp: decide_executor_variant_permanent_is_threshold_def decide_def f Let_def
        dest: ttl_downgrade_PoisonD split: option.split)
qed

lemma after_last_reset_snoc:
  "after_last_reset (h @ [r]) = (if is_build_reset r then [] else after_last_reset h @ [r])"
proof (cases "is_build_reset r")
  case True
  then show ?thesis by (simp add: after_last_reset_def rposition_append)
next
  case False
  show ?thesis
  proof (cases "rposition is_build_reset h")
    case None
    with False show ?thesis by (simp add: after_last_reset_def rposition_append)
  next
    case (Some i)
    hence "Suc i \<le> length h" using rposition_Some [of is_build_reset h i] by simp
    with False Some show ?thesis by (simp add: after_last_reset_def rposition_append)
  qed
qed

lemma apply_event_keeps_builders:
  "\<not> is_reset ev \<Longrightarrow> failed_builders c \<subseteq> failed_builders (fst (apply_event c ev b fleet))"
  by (cases ev) (auto simp: arm_simps)

lemma row_to_event_reset:
  "row_to_event r = Some ev \<Longrightarrow> is_reset ev \<longleftrightarrow> event_kind r = Reset"
  by (auto simp: row_to_event_def Let_def split: if_splits OutcomeClass.splits)

text \<open>A non-reset row keeps the exclusion set, and a charged one adds its executor.\<close>

lemma decide_step_builders:
  assumes "\<not> is_build_reset r"
  shows "failed_builders (fst s) \<subseteq> failed_builders (fst (decide_step b s r))"
proof -
  obtain c v run where s: "s = (c, v, run)" by (cases s)
  have "kind r = Build \<Longrightarrow> row_to_event r = Some ev \<Longrightarrow>
      failed_builders c \<subseteq> failed_builders (fst (apply_event c ev b fleet_default))" for ev
    using assms apply_event_keeps_builders row_to_event_reset [of r ev]
    by (simp add: is_build_reset_def)
  thus ?thesis
    by (auto simp: s decide_step_def decide_fold_row_def run_step_def Let_def
        split: option.split prod.split)
qed

lemma decide_step_charges:
  assumes "charges_threshold r" "kind r = Build" "executor r = Some e"
  shows "e \<in> failed_builders (fst (decide_step b s r))"
proof -
  obtain c v run where s: "s = (c, v, run)" by (cases s)
  from assms(1) show ?thesis
    unfolding charges_threshold_def
    by (elim conjE insertE emptyE)
      (simp_all add: s decide_step_def decide_fold_row_def run_step_def is_bounded_uncharged_class
        row_to_event_def assms(2,3) arm_simps)
qed

definition covered :: "'id set \<Rightarrow> 'id LedgerRow \<Rightarrow> bool" where
  "covered x r \<longleftrightarrow> kind r = Build \<longrightarrow> charges_threshold r \<longrightarrow> set_option (executor r) \<subseteq> x"

lemma covered_mono: "covered x r \<Longrightarrow> x \<subseteq> y \<Longrightarrow> covered y r"
  by (auto simp: covered_def)

lemma decide_covers:
  "\<forall>r \<in> set (after_last_reset h). covered (failed_builders (fst (foldl (decide_step b) s h))) r"
proof (induction h rule: rev_induct)
  case Nil
  show ?case by (simp add: after_last_reset_def)
next
  case (snoc r h)
  let ?s = "foldl (decide_step b) s h"
  show ?case
  proof (cases "is_build_reset r")
    case False
    have "covered (failed_builders (fst (decide_step b ?s r))) r"
      by (auto simp: covered_def intro: decide_step_charges)
    moreover have "covered (failed_builders (fst (decide_step b ?s r))) r'"
      if "r' \<in> set (after_last_reset h)" for r'
      by (rule covered_mono [OF _ decide_step_builders [OF False]]) (use snoc.IH that in blast)
    ultimately show ?thesis using False by (simp add: after_last_reset_snoc)
  qed (simp add: after_last_reset_snoc)
qed

text \<open>
  C10. Contract clause 3: the exclusion set of a decision contains the executor of every
  threshold-charging build attempt after the last build-lane reset, so a re-attempt is
  never placed on an executor that already failed the derivation in this cycle.
\<close>

theorem decide_exclusion_covers:
  "decide_exclusion_covers_charged_attempts (decide history b now) history"
  using decide_covers [of history b "(decide_initial history, Requeue, 0)"]
  by (auto simp: decide_exclusion_covers_charged_attempts_def list_all_iff decide_def decide_fold_def
      covered_def split: option.split prod.split)

section \<open>The decision refines the reference fold\<close>

definition no_backoff :: "'id Counters \<Rightarrow> 'id Counters" where
  "no_backoff c = c\<lparr>backoff_until := None\<rparr>"

lemma no_backoff_fields [simp]:
  "count (no_backoff c) = count c"  "resubmit_cycles (no_backoff c) = resubmit_cycles c"
  "infra_count (no_backoff c) = infra_count c"  "timeout_count (no_backoff c) = timeout_count c"
  "last_infra_failure_at (no_backoff c) = last_infra_failure_at c"
  "exempt_infra_count (no_backoff c) = exempt_infra_count c"
  "failed_builders (no_backoff c) = failed_builders c"  "failure_count (no_backoff c) = failure_count c"
  "poisoned_at (no_backoff c) = poisoned_at c"  "backoff_until (no_backoff c) = None"
  "no_backoff (c\<lparr>backoff_until := x\<rparr>) = no_backoff c" "no_backoff (no_backoff c) = no_backoff c"
  by (simp_all add: no_backoff_def)

lemma apply_event_no_backoff:
  "no_backoff (fst (apply_event (no_backoff c) ev b fleet)) = no_backoff (fst (apply_event c ev b fleet))
   \<and> snd (apply_event (no_backoff c) ev b fleet) = snd (apply_event c ev b fleet)"
  by (cases ev) (auto simp: arm_simps no_backoff_def insert_executor_def poison_threshold_reached_def
      split: option.split)

lemma apply_event_backoff_cong:
  assumes "no_backoff c = no_backoff d"
  shows "no_backoff (fst (apply_event c ev b fleet)) = no_backoff (fst (apply_event d ev b fleet))
   \<and> snd (apply_event c ev b fleet) = snd (apply_event d ev b fleet)"
  using apply_event_no_backoff [of c ev b fleet] apply_event_no_backoff [of d ev b fleet] assms by simp

text \<open>The events a ledger denotes: those of its build rows, in order.\<close>

definition ledger_events :: "'id LedgerRow list \<Rightarrow> 'id AttemptEvent list" where
  "ledger_events h = List.map_filter row_to_event (build_rows h)"

lemma ledger_events_simps [simp]:
  "ledger_events [] = []"
  "ledger_events (r # h) =
     (if kind r = Build then (case row_to_event r of Some ev \<Rightarrow> [ev] | None \<Rightarrow> []) else []) @ ledger_events h"
  by (simp_all add: ledger_events_def map_filter_simps split: option.split)

lemma pace_no_event:
  "run_step r OutcomeClass.StoreDegraded = Pace \<Longrightarrow> kind r = Build \<and> row_to_event r = None"
  by (auto simp: run_step_def is_bounded_uncharged_class row_to_event_def split: if_splits)

text \<open>A row either folds its one event, or changes nothing but the pacing deadline.\<close>

lemma decide_step_event:
  assumes "ledger_events [r] = [ev]"
  shows "fst (decide_step b s r) = fst (apply_event (fst s) ev b fleet_default)"
    and "fst (snd (decide_step b s r)) = snd (apply_event (fst s) ev b fleet_default)"
proof -
  have r: "kind r = Build" "row_to_event r = Some ev"
    using assms by (auto split: if_splits option.splits)
  have "run_step r OutcomeClass.StoreDegraded \<noteq> LaneSkip" using r(1) by (simp add: run_step_def)
  moreover have "run_step r OutcomeClass.StoreDegraded \<noteq> Pace" using r(2) pace_no_event [of r] by auto
  ultimately have "run_step r OutcomeClass.StoreDegraded = Extend \<or> run_step r OutcomeClass.StoreDegraded = Break"
    by (cases "run_step r OutcomeClass.StoreDegraded") simp_all
  with r show "fst (decide_step b s r) = fst (apply_event (fst s) ev b fleet_default)"
    and "fst (snd (decide_step b s r)) = snd (apply_event (fst s) ev b fleet_default)"
    by (auto simp: decide_step_def decide_fold_row_def case_prod_beta)
qed

lemma decide_step_no_event:
  assumes "ledger_events [r] = []"
  shows "no_backoff (fst (decide_step b s r)) = no_backoff (fst s)"
    and "fst (snd (decide_step b s r)) = fst (snd s)"
proof -
  have "kind r \<noteq> Build \<or> row_to_event r = None"
    using assms by (auto split: if_splits option.splits)
  thus "no_backoff (fst (decide_step b s r)) = no_backoff (fst s)"
    and "fst (snd (decide_step b s r)) = fst (snd s)"
    by (auto simp: decide_step_def decide_fold_row_def run_step_def case_prod_beta Let_def)
qed

lemma decide_step_refines:
  assumes "no_backoff (fst s) = no_backoff (fst f)" "fst (snd s) = snd f"
  shows "no_backoff (fst (decide_step b s r)) =
      no_backoff (fst (foldl (fold_step b fleet_default) f (ledger_events [r])))
    \<and> fst (snd (decide_step b s r)) = snd (foldl (fold_step b fleet_default) f (ledger_events [r]))"
proof -
  have "ledger_events [r] = [] \<or> (\<exists>ev. ledger_events [r] = [ev])"
    by (auto split: option.split)
  thus ?thesis
  proof (elim disjE exE)
    assume e: "ledger_events [r] = []"
    show ?thesis unfolding e foldl.simps decide_step_no_event [OF e] using assms by simp
  next
    fix ev assume e: "ledger_events [r] = [ev]"
    show ?thesis
      unfolding e foldl.simps decide_step_event [OF e] fold_step_def
      by (rule apply_event_backoff_cong [OF assms(1)])
  qed
qed

lemma decide_fold_refines:
  assumes "no_backoff (fst s) = no_backoff (fst f)" "fst (snd s) = snd f"
  shows "no_backoff (fst (foldl (decide_step b) s h)) =
      no_backoff (fst (foldl (fold_step b fleet_default) f (ledger_events h)))
    \<and> fst (snd (foldl (decide_step b) s h)) = snd (foldl (fold_step b fleet_default) f (ledger_events h))"
  using assms
proof (induction h arbitrary: s f)
  case (Cons r h)
  have "ledger_events (r # h) = ledger_events [r] @ ledger_events h" by simp
  with Cons.IH [OF conjunct1 [OF decide_step_refines [OF Cons.prems]]
      conjunct2 [OF decide_step_refines [OF Cons.prems]]]
  show ?case by (simp only: foldl.simps foldl_append)
qed simp

lemma ttl_downgrade_no_backoff:
  "ttl_downgrade (no_backoff c) v now b = ttl_downgrade c v now b"
  by (simp add: ttl_downgrade_def split: Verdict.split)

text \<open>
  C1. Refinement. The decision over a ledger is the reference fold over the events its build rows
  denote (seeded with the cycle index of a leading resubmit reset, against an empty fleet):
  same verdict, same exclusion set and same counters, the pacing deadline \<open>backoff_until\<close>
  apart. So store-degraded rows, which only pace, are never charged.
\<close>

theorem decide_refines_reference_fold:
  "let d = decide history b now;
       (c, v) = fold_events (decide_initial history) (ledger_events history) now b fleet_default
   in verdict d = v \<and> exclusion d = failed_builders c \<and> no_backoff (counters d) = no_backoff c"
proof -
  let ?s = "decide_fold b history"
  let ?f = "foldl (fold_step b fleet_default) (decide_initial history, Requeue) (ledger_events history)"
  have eq: "no_backoff (fst ?s) = no_backoff (fst ?f)" "fst (snd ?s) = snd ?f"
    using decide_fold_refines [of "(decide_initial history, Requeue, 0)" "(decide_initial history, Requeue)"]
    by (simp_all add: decide_fold_def)
  hence "ttl_downgrade (fst ?s) (snd ?f) now b = ttl_downgrade (fst ?f) (snd ?f) now b"
    using ttl_downgrade_no_backoff by metis
  moreover have "failed_builders (fst ?s) = failed_builders (fst ?f)"
    using arg_cong [OF eq(1), of failed_builders] by simp
  ultimately show ?thesis
    using eq by (simp add: decide_def fold_events_def Let_def case_prod_beta)
qed

end
