(* ===== verification/Retry_Sweep.thy ===== *)
theory Retry_Sweep
  imports Retry_Decide
begin

text \<open>
  The materialization lane of the attempt ledger (\<open>materialization_decide\<close>,
  \<open>materialization_counters\<close>), the per-lane suffix cut the loaders apply
  (\<open>ledger_suffix_start\<close>, \<open>row_survives_load\<close>) and the garbage collection of attempt rows
  (\<open>sweep_horizon_secs\<close>, \<open>sweep_eligible\<close>, \<open>exec_row_sweep_eligible\<close>), with the theorems that
  the collection never changes a decision and that the cut is sound for both lanes.
\<close>

section \<open>The materialization budget\<close>

datatype MaterializationVerdict = Claimable | Park

record MatCounters =
  infra_since_reset :: u32
  worker_infra_since_reset :: u32
  unobtainable_since_reset :: u32

definition mat_counters_default :: MatCounters where
  "mat_counters_default =
     \<lparr>infra_since_reset = 0, worker_infra_since_reset = 0, unobtainable_since_reset = 0\<rparr>"

definition mat_count :: "MatCounters \<Rightarrow> 'id LedgerRow \<Rightarrow> MatCounters" where
  "mat_count c r =
     (case outcome_class r of
        OutcomeClass.MaterializationInfra \<Rightarrow>
          (let c' = c\<lparr>infra_since_reset := infra_since_reset c + 1\<rparr>
           in if reporting_party r = Worker
              then c'\<lparr>worker_infra_since_reset := worker_infra_since_reset c' + 1\<rparr> else c')
      | OutcomeClass.MaterializationUnobtainable \<Rightarrow>
          c\<lparr>unobtainable_since_reset := unobtainable_since_reset c + 1\<rparr>
      | _ \<Rightarrow> c)"

definition lane_reset :: "AttemptKind \<Rightarrow> 'id LedgerRow \<Rightarrow> bool" where
  "lane_reset lane r \<longleftrightarrow> kind r = lane \<and> event_kind r = Reset"

definition materialization_counters :: "'id LedgerRow list \<Rightarrow> MatCounters" where
  "materialization_counters rows =
     foldl mat_count mat_counters_default
       (filter (\<lambda>r. kind r = Materialization)
         (takeWhile (\<lambda>r. \<not> lane_reset Materialization r) (rev rows)))"

definition materialization_decide :: "'id LedgerRow list \<Rightarrow> u32 \<Rightarrow> MaterializationVerdict" where
  "materialization_decide rows max_materialization_attempts =
     (if infra_since_reset (materialization_counters rows) \<ge> max_materialization_attempts
      then Park else Claimable)"

section \<open>The loaders' cut and the sweep\<close>

definition sweep_horizon_secs :: "Budget \<Rightarrow> u64 \<Rightarrow> u64" where
  "sweep_horizon_secs b retention_floor_secs = max retention_floor_secs (poison_ttl_secs b)"

definition ledger_suffix_start :: "'id LedgerRow list \<Rightarrow> AttemptKind \<Rightarrow> nat" where
  "ledger_suffix_start rows lane =
     (case rposition (lane_reset lane) rows of Some i \<Rightarrow> i | None \<Rightarrow> 0)"

text \<open>An index out of range is the panic of the slice access: \<open>None\<close>.\<close>

definition row_survives_load :: "'id LedgerRow list \<Rightarrow> nat \<Rightarrow> bool option" where
  "row_survives_load rows index =
     (if index < length rows then Some (index \<ge> ledger_suffix_start rows (kind (rows ! index))) else None)"

definition sweep_eligible :: "'id LedgerRow list \<Rightarrow> nat \<Rightarrow> u64 \<Rightarrow> u64 \<Rightarrow> bool option" where
  "sweep_eligible rows index now horizon_secs =
     (if index < length rows
      then Some (event_kind (rows ! index) = Attempt
                 \<and> index < ledger_suffix_start rows (kind (rows ! index))
                 \<and> saturating_sub now (row_at (rows ! index)) > horizon_secs)
      else None)"

datatype IngestSessionObservation = Absent | Live | Stale

definition exec_row_sweep_eligible ::
  "bool \<Rightarrow> bool \<Rightarrow> bool \<Rightarrow> bool \<Rightarrow> IngestSessionObservation \<Rightarrow> bool \<Rightarrow> bool" where
  "exec_row_sweep_eligible terminal has_active_assignment referenced_by_ledger has_log_chunks session aged_out
     \<longleftrightarrow> terminal \<and> \<not> has_active_assignment \<and> \<not> referenced_by_ledger \<and> \<not> has_log_chunks
         \<and> session \<noteq> Live \<and> aged_out"

text \<open>The ledger after a deletion, and the view the loaders return.\<close>

definition sweep_view :: "'id LedgerRow list \<Rightarrow> (nat \<Rightarrow> bool) \<Rightarrow> 'id LedgerRow list" where
  "sweep_view rows deleted = map (nth rows) (filter (\<lambda>i. \<not> deleted i) [0..<length rows])"

definition loaded_view :: "'id LedgerRow list \<Rightarrow> 'id LedgerRow list" where
  "loaded_view rows =
     map (nth rows) (filter (\<lambda>i. row_survives_load rows i = Some True) [0..<length rows])"

section \<open>The sweep is invisible\<close>

text \<open>Front-to-back readings of the two index loops.\<close>

lemma filter_upt_Suc:
  "map (nth (x # xs)) (filter P [0..<Suc n]) =
     (if P 0 then [x] else []) @ map (nth xs) (filter (\<lambda>i. P (Suc i)) [0..<n])"
proof -
  have "[0..<Suc n] = 0 # map Suc [0..<n]" by (simp add: map_Suc_upt upt_conv_Cons)
  thus ?thesis by (simp add: filter_map comp_def del: upt_Suc)
qed

lemma sweep_view_Cons:
  "sweep_view (x # xs) deleted = (if deleted 0 then [] else [x]) @ sweep_view xs (\<lambda>i. deleted (Suc i))"
  by (simp add: sweep_view_def filter_upt_Suc del: upt_Suc)

lemma ledger_suffix_start_Cons:
  "ledger_suffix_start (x # xs) lane =
     (if list_ex (lane_reset lane) xs then Suc (ledger_suffix_start xs lane) else 0)"
  using rposition_None [of "lane_reset lane" xs]
  by (auto simp: ledger_suffix_start_def list_ex_iff split: option.split)

lemma ledger_suffix_start_none:
  "\<not> list_ex (lane_reset lane) xs \<Longrightarrow> ledger_suffix_start xs lane = 0"
  using rposition_None [of "lane_reset lane" xs]
  by (auto simp: ledger_suffix_start_def list_ex_iff split: option.split)

lemma survives_Suc:
  "row_survives_load (x # xs) (Suc i) = row_survives_load xs i"
  by (auto simp: row_survives_load_def ledger_suffix_start_Cons ledger_suffix_start_none)

lemma loaded_view_Nil [simp]: "loaded_view [] = []"
  by (simp add: loaded_view_def)

lemma loaded_view_Cons:
  "loaded_view (x # xs) = (if list_ex (lane_reset (kind x)) xs then [] else [x]) @ loaded_view xs"
proof -
  have "row_survives_load (x # xs) 0 = Some True \<longleftrightarrow> \<not> list_ex (lane_reset (kind x)) xs"
    by (simp add: row_survives_load_def ledger_suffix_start_Cons)
  thus ?thesis by (simp add: loaded_view_def filter_upt_Suc survives_Suc del: upt_Suc)
qed

text \<open>Attempt rows strictly before their lane's last reset.\<close>

definition before_cut :: "'id LedgerRow list \<Rightarrow> nat \<Rightarrow> bool" where
  "before_cut rows i \<longleftrightarrow> i < length rows \<and> event_kind (rows ! i) = Attempt
     \<and> i < ledger_suffix_start rows (kind (rows ! i))"

lemma before_cut_Cons:
  "before_cut (x # xs) 0 \<Longrightarrow> event_kind x = Attempt \<and> list_ex (lane_reset (kind x)) xs"
  "before_cut (x # xs) (Suc i) \<Longrightarrow> before_cut xs i"
  by (auto simp: before_cut_def ledger_suffix_start_Cons split: if_splits)

lemma sweep_keeps_resets:
  assumes "\<And>i. deleted i \<Longrightarrow> before_cut rows i"
  shows "list_ex (lane_reset lane) (sweep_view rows deleted) = list_ex (lane_reset lane) rows"
  using assms
proof (induction rows arbitrary: deleted)
  case (Cons x xs)
  have "list_ex (lane_reset lane) (sweep_view xs (\<lambda>i. deleted (Suc i))) = list_ex (lane_reset lane) xs"
    by (rule Cons.IH) (use Cons.prems before_cut_Cons(2) in blast)
  moreover have "deleted 0 \<Longrightarrow> \<not> lane_reset lane x"
    using Cons.prems [of 0] before_cut_Cons(1) [of x xs] by (auto simp: lane_reset_def)
  ultimately show ?case by (auto simp: sweep_view_Cons)
qed (simp add: sweep_view_def)

lemma sweep_loaded_view:
  assumes "\<And>i. deleted i \<Longrightarrow> before_cut rows i"
  shows "loaded_view (sweep_view rows deleted) = loaded_view rows"
  using assms
proof (induction rows arbitrary: deleted)
  case (Cons x xs)
  let ?deleted = "\<lambda>i. deleted (Suc i)"
  have tl: "\<And>i. ?deleted i \<Longrightarrow> before_cut xs i" using Cons.prems before_cut_Cons(2) by blast
  note IH = Cons.IH [OF tl] and resets = sweep_keeps_resets [OF tl]
  show ?case
  proof (cases "deleted 0")
    case True
    with Cons.prems [of 0] before_cut_Cons(1) [of x xs] IH show ?thesis
      by (simp add: sweep_view_Cons loaded_view_Cons)
  next
    case False
    with IH resets show ?thesis by (simp add: sweep_view_Cons loaded_view_Cons)
  qed
qed (simp add: sweep_view_def)

text \<open>
  C2. Garbage collection is invisible. Deleting any set of rows of which each was sweep-eligible,
  under whatever clock and horizon it was judged by, leaves the loaded view of the ledger
  unchanged row for row, and with it the build decision, the materialization counters and
  the admissions.
\<close>

theorem sweep_invisible:
  assumes "\<forall>i. deleted i \<longrightarrow> (\<exists>now horizon. sweep_eligible rows i now horizon = Some True)"
  shows "loaded_view (sweep_view rows deleted) = loaded_view rows
    \<and> decide (loaded_view (sweep_view rows deleted)) b now' = decide (loaded_view rows) b now'
    \<and> materialization_counters (loaded_view (sweep_view rows deleted))
        = materialization_counters (loaded_view rows)"
proof -
  have "deleted i \<Longrightarrow> before_cut rows i" for i
    using assms by (auto simp: sweep_eligible_def before_cut_def split: if_splits)
  from sweep_loaded_view [OF this] show ?thesis by simp
qed

definition attempt_row :: "AttemptEventKind \<Rightarrow> OutcomeClass \<Rightarrow> u64 \<Rightarrow> nat LedgerRow" where
  "attempt_row k cls t = \<lparr>event_kind = k, outcome_class = cls, executor = Some 1,
     reporting_party = Worker, floor_promoted = False, floor_at_cap = False, resubmit_cycle = 1,
     row_at = t, kind = Build\<rparr>"

theorem sweep_invisible_witness:
  "loaded_view (sweep_view [attempt_row Attempt OutcomeClass.Transient 1,
       attempt_row Reset OutcomeClass.ResubmitReset 2] (\<lambda>i. i = 0))
   = [attempt_row Reset OutcomeClass.ResubmitReset 2]"
proof -
  let ?h = "[attempt_row Attempt OutcomeClass.Transient 1, attempt_row Reset OutcomeClass.ResubmitReset 2]"
  have "sweep_eligible ?h 0 9 5 = Some True"
    by (simp add: sweep_eligible_def ledger_suffix_start_def lane_reset_def attempt_row_def
        saturating_sub_def word_less_nat_alt word_le_nat_alt)
  hence "\<forall>i. (i = 0) \<longrightarrow> (\<exists>now horizon. sweep_eligible ?h i now horizon = Some True)" by blast
  from sweep_invisible [OF this, of budget_default 0] show ?thesis
    by (simp add: loaded_view_Cons lane_reset_def attempt_row_def)
qed

section \<open>The lanes and the cut\<close>

lemma filter_takeWhile_lane:
  "filter (\<lambda>r. kind r = Materialization) (takeWhile (\<lambda>r. \<not> lane_reset Materialization r) rs)
   = takeWhile (\<lambda>r. \<not> lane_reset Materialization r) (filter (\<lambda>r. kind r = Materialization) rs)"
  by (induction rs) (auto simp: lane_reset_def)

definition mat_rows :: "'id LedgerRow list \<Rightarrow> 'id LedgerRow list" where
  "mat_rows h = filter (\<lambda>r. kind r = Materialization) h"

lemma materialization_counters_lane:
  "materialization_counters rows =
     foldl mat_count mat_counters_default
       (takeWhile (\<lambda>r. \<not> lane_reset Materialization r) (rev (mat_rows rows)))"
  by (simp add: materialization_counters_def filter_takeWhile_lane mat_rows_def rev_filter)

lemma mat_rows_uncut:
  "\<not> list_ex (lane_reset Materialization) rows \<Longrightarrow> mat_rows (loaded_view rows) = mat_rows rows"
  by (induction rows) (auto simp: mat_rows_def loaded_view_Cons)

lemma takeWhile_snoc_stop:
  "list_ex P xs \<Longrightarrow> takeWhile (\<lambda>r. \<not> P r) (rev xs @ ys) = takeWhile (\<lambda>r. \<not> P r) (rev xs)"
  by (metis list_ex_iff set_rev takeWhile_append1)

lemma lane_reset_mat_rows:
  "list_ex (lane_reset Materialization) (mat_rows xs) = list_ex (lane_reset Materialization) xs"
  by (auto simp: mat_rows_def list_ex_iff lane_reset_def)

lemma mat_suffix_loaded:
  "takeWhile (\<lambda>r. \<not> lane_reset Materialization r) (rev (mat_rows (loaded_view rows)))
   = takeWhile (\<lambda>r. \<not> lane_reset Materialization r) (rev (mat_rows rows))"
proof (induction rows)
  case (Cons x xs)
  show ?case
  proof (cases "list_ex (lane_reset Materialization) xs")
    case True
    hence "takeWhile (\<lambda>r. \<not> lane_reset Materialization r) (rev (mat_rows (x # xs)))
        = takeWhile (\<lambda>r. \<not> lane_reset Materialization r) (rev (mat_rows xs))"
      using takeWhile_snoc_stop [of "lane_reset Materialization" "mat_rows xs"]
      by (auto simp: lane_reset_mat_rows) (simp add: mat_rows_def)
    moreover have "mat_rows (loaded_view (x # xs)) = mat_rows (loaded_view xs)"
      using True by (cases "kind x") (simp_all add: loaded_view_Cons mat_rows_def)
    ultimately show ?thesis using Cons.IH by simp
  next
    case False
    hence "mat_rows (loaded_view (x # xs)) = mat_rows (x # xs)"
      using mat_rows_uncut [OF False] by (cases "kind x") (simp_all add: loaded_view_Cons mat_rows_def)
    thus ?thesis by simp
  qed
qed simp

text \<open>
  The kind partition, materialization half, and the soundness of the loaders' cut for it: the
  materialization verdict is a function of the materialization rows alone, and reading
  only the loaded view instead of the whole ledger gives the same counters and the same
  verdict.
\<close>

lemma materialization_decide_lane:
  "materialization_decide rows n = materialization_decide (mat_rows rows) n
   \<and> materialization_counters (loaded_view rows) = materialization_counters rows
   \<and> materialization_decide (loaded_view rows) n = materialization_decide rows n"
proof -
  have "mat_rows (mat_rows rows) = mat_rows rows" by (simp add: mat_rows_def)
  thus ?thesis
    by (simp add: materialization_decide_def materialization_counters_lane mat_suffix_loaded)
qed

lemma build_rows_uncut:
  "\<not> list_ex is_build_reset rows \<Longrightarrow> build_rows (loaded_view rows) = build_rows rows"
  by (induction rows) (auto simp: loaded_view_Cons is_build_reset_def lane_reset_def list_ex_iff)

lemma build_rows_loaded:
  assumes "is_build_reset r" "\<not> list_ex is_build_reset post"
  shows "build_rows (loaded_view (pre @ r # post)) = r # build_rows post"
proof (induction pre)
  case Nil
  have "kind r = Build" using assms(1) by (simp add: is_build_reset_def)
  moreover have "\<not> list_ex (lane_reset Build) post"
    using assms(2) by (auto simp: list_ex_iff lane_reset_def is_build_reset_def)
  ultimately show ?case using build_rows_uncut [OF assms(2)] by (simp add: loaded_view_Cons)
next
  case (Cons x pre)
  have "lane_reset Build r" using assms(1) by (simp add: is_build_reset_def lane_reset_def)
  with Cons show ?case by (cases "kind x") (simp_all add: loaded_view_Cons)
qed

lemma decide_step_reset:
  assumes "is_build_reset r" "row_to_event r = Some ev"
  shows "decide_step b s r =
    (fst (apply_event (fst s) ev b fleet_default), snd (apply_event (fst s) ev b fleet_default), 0)"
  using assms
  by (cases s) (simp add: decide_step_def run_step_def is_build_reset_def is_bounded_uncharged_class
      decide_fold_row_def case_prod_beta)

definition well_formed_reset :: "'id LedgerRow \<Rightarrow> bool" where
  "well_formed_reset r \<longleftrightarrow> is_build_reset r \<and> outcome_class r \<in>
     {OutcomeClass.ResubmitReset, OutcomeClass.CacheHitClear, OutcomeClass.PoisonCleared}"

lemma seed_cycle:
  assumes "0 < sint x"
  shows "saturating_sub (case try_from_i32 x of Some n \<Rightarrow> n | None \<Rightarrow> 0) 1 + 1 = x"
proof -
  have "x \<noteq> 0" using assms by auto
  hence "1 \<le> x" by (simp add: word_le_nat_alt Suc_le_eq unat_gt_0)
  with assms show ?thesis by (simp add: try_from_i32_def saturating_sub_def)
qed

text \<open>A reset row forgets everything before it but the cycle count and the pacing deadline.\<close>

lemma reset_forgets:
  assumes "well_formed_reset r" "outcome_class r = OutcomeClass.ResubmitReset \<Longrightarrow>
      resubmit_cycles (fst s) = resubmit_cycles (fst t)"
  shows "no_backoff (fst (decide_step b s r)) = no_backoff (fst (decide_step b t r))
     \<and> fst (snd (decide_step b s r)) = fst (snd (decide_step b t r))"
proof -
  have r: "is_build_reset r" "event_kind r = Reset"
    using assms(1) by (simp_all add: well_formed_reset_def is_build_reset_def)
  from assms(1) have "outcome_class r \<in>
     {OutcomeClass.ResubmitReset, OutcomeClass.CacheHitClear, OutcomeClass.PoisonCleared}"
    by (simp add: well_formed_reset_def)
  thus ?thesis using assms(2)
    by (elim insertE emptyE)
      (simp_all add: decide_step_reset [OF r(1)] row_to_event_def r(2) arm_simps no_backoff_def)
qed

text \<open>A resubmit reset and a cleared poison forget the pacing deadline as well.\<close>

lemma reset_forgets_pacing:
  assumes "well_formed_reset r" "outcome_class r \<noteq> OutcomeClass.CacheHitClear"
    "outcome_class r = OutcomeClass.ResubmitReset \<Longrightarrow> resubmit_cycles (fst s) = resubmit_cycles (fst t)"
  shows "decide_step b s r = decide_step b t r"
proof -
  have r: "is_build_reset r" "event_kind r = Reset"
    using assms(1) by (simp_all add: well_formed_reset_def is_build_reset_def)
  from assms(1,2) have "outcome_class r \<in> {OutcomeClass.ResubmitReset, OutcomeClass.PoisonCleared}"
    by (auto simp: well_formed_reset_def)
  thus ?thesis using assms(3)
    by (elim insertE emptyE) (simp_all add: decide_step_reset [OF r(1)] row_to_event_def r(2) arm_simps)
qed

lemma no_backoff_congs:
  assumes "no_backoff c = no_backoff d"
  shows "failed_builders c = failed_builders d" "ttl_downgrade c v now b = ttl_downgrade d v now b"
  using assms by (metis no_backoff_fields(7), metis ttl_downgrade_no_backoff)

lemma foldl_backoff_cong:
  assumes "no_backoff (fst s) = no_backoff (fst t)" "fst (snd s) = fst (snd t)"
  shows "no_backoff (fst (foldl (decide_step b) s h)) = no_backoff (fst (foldl (decide_step b) t h))
     \<and> fst (snd (foldl (decide_step b) s h)) = fst (snd (foldl (decide_step b) t h))"
  using decide_fold_refines [of s "(fst t, fst (snd t))" b h]
    decide_fold_refines [of t "(fst t, fst (snd t))" b h] assms
  by simp

lemma decide_initial_append:
  "decide_initial (pre @ r # post) =
     (if build_rows pre = [] then decide_initial (r # post) else decide_initial pre)"
proof -
  have "find (\<lambda>r. kind r = Build) (pre @ r # post) =
      (if build_rows pre = [] then find (\<lambda>r. kind r = Build) (r # post) else find (\<lambda>r. kind r = Build) pre)"
    by (induction pre) auto
  thus ?thesis by (simp add: decide_initial_def)
qed

lemma foldl_no_build: "build_rows h = [] \<Longrightarrow> foldl (decide_step b) s h = s"
  using foldl_build_rows [of b s h] by simp

lemma cut_cycle_seed:
  assumes "rows = pre @ r # post" "is_build_reset r" "outcome_class r = OutcomeClass.ResubmitReset"
    "0 < sint (resubmit_cycle r)" "resubmit_cycle r = resubmit_cycles (counters (decide pre b now)) + 1"
  shows "resubmit_cycles (decide_initial (r # post)) =
    resubmit_cycles (fst (foldl (decide_step b) (decide_initial rows, Requeue, 0) pre))"
proof (cases "build_rows pre = []")
  case True
  thus ?thesis using foldl_no_build [OF True] by (simp add: assms(1) decide_initial_append)
next
  case False
  let ?s = "foldl (decide_step b) (decide_initial rows, Requeue, 0) pre"
  have "?s = decide_fold b pre" using False by (simp add: decide_fold_def assms(1) decide_initial_append)
  hence "resubmit_cycles (fst ?s) + 1 = resubmit_cycle r"
    using assms(5) by (simp add: decide_def case_prod_beta)
  moreover have "resubmit_cycles (decide_initial (r # post)) + 1 = resubmit_cycle r"
    using assms(2,3) seed_cycle [OF assms(4)] by (simp add: decide_initial_def is_build_reset_def)
  ultimately show ?thesis by (metis add_right_cancel)
qed

text \<open>
  C19. The loaders' cut is sound for build decisions. When the last build-lane reset is one of the
  three well-formed kinds, and, if it is a resubmit reset, carries the next cycle index, deciding
  on the loaded view gives the verdict, the exclusion set and every counter but the pacing
  deadline of deciding on the derivation's complete history. After a resubmit reset or a
  cleared poison the two decisions are equal, the pacing deadline included; after a cache-hit
  clear the deadline may differ, since the clear keeps the one in force and the cut drops it.
\<close>

theorem decide_loaded_view:
  assumes "rows = pre @ r # post" "well_formed_reset r" "\<not> list_ex is_build_reset post"
    and "outcome_class r = OutcomeClass.ResubmitReset \<longrightarrow>
           0 < sint (resubmit_cycle r)
           \<and> resubmit_cycle r = resubmit_cycles (counters (decide pre b now)) + 1"
  shows "verdict (decide (loaded_view rows) b now) = verdict (decide rows b now)
    \<and> exclusion (decide (loaded_view rows) b now) = exclusion (decide rows b now)
    \<and> no_backoff (counters (decide (loaded_view rows) b now)) = no_backoff (counters (decide rows b now))
    \<and> (outcome_class r \<noteq> OutcomeClass.CacheHitClear \<longrightarrow>
         decide (loaded_view rows) b now = decide rows b now)"
proof -
  have r: "is_build_reset r" "kind r = Build"
    using assms(2) by (simp_all add: well_formed_reset_def is_build_reset_def)
  let ?i = "(decide_initial (r # post), Requeue, 0)"
  let ?s = "foldl (decide_step b) (decide_initial rows, Requeue, 0) pre"
  have view: "decide_fold b (loaded_view rows) = foldl (decide_step b) (decide_step b ?i r) post"
  proof -
    have "build_rows (loaded_view rows) = build_rows (r # post)"
      using build_rows_loaded [OF r(1) assms(3)] assms(1) r(2) by simp
    hence "decide_fold b (loaded_view rows) = decide_fold b (r # post)"
      by (metis decide_fold_build_rows)
    thus ?thesis by (simp add: decide_fold_def)
  qed
  have full: "decide_fold b rows = foldl (decide_step b) (decide_step b ?s r) post"
    by (simp add: decide_fold_def assms(1))
  have cycles: "resubmit_cycles (fst ?i) = resubmit_cycles (fst ?s)"
    if "outcome_class r = OutcomeClass.ResubmitReset"
    unfolding fst_conv
    by (rule cut_cycle_seed [OF assms(1) r(1) that, of b now]) (use assms(4) that in blast)+
  from foldl_backoff_cong [OF conjunct1 [OF reset_forgets] conjunct2 [OF reset_forgets],
      OF assms(2) cycles assms(2) cycles, of b b post]
  have eq: "no_backoff (fst (decide_fold b (loaded_view rows))) = no_backoff (fst (decide_fold b rows))"
    "fst (snd (decide_fold b (loaded_view rows))) = fst (snd (decide_fold b rows))"
    by (simp_all add: view full)
  have "decide_step b ?i r = decide_step b ?s r" if "outcome_class r \<noteq> OutcomeClass.CacheHitClear"
    by (rule reset_forgets_pacing [OF assms(2) that]) (rule cycles)
  hence "decide (loaded_view rows) b now = decide rows b now" if "outcome_class r \<noteq> OutcomeClass.CacheHitClear"
    using that by (simp add: decide_def view full)
  thus ?thesis
    using eq no_backoff_congs [OF eq(1)] by (simp add: decide_def case_prod_beta)
qed

theorem decide_loaded_view_witness:
  "let h = [attempt_row Attempt OutcomeClass.Transient 1, attempt_row Reset OutcomeClass.ResubmitReset 2,
            attempt_row Attempt OutcomeClass.Transient 3]
   in loaded_view h = tl h
      \<and> verdict (decide (loaded_view h) budget_default 9) = verdict (decide h budget_default 9)
      \<and> decide (loaded_view h) budget_default 9 = decide h budget_default 9"
proof -
  let ?a = "attempt_row Attempt OutcomeClass.Transient 1"
  let ?r = "attempt_row Reset OutcomeClass.ResubmitReset 2"
  let ?z = "attempt_row Attempt OutcomeClass.Transient 3"
  have "resubmit_cycles (counters (decide [?a] budget_default 9)) = 0"
    by (simp add: decide_def decide_fold_def decide_step_def run_step_def is_bounded_uncharged_class
        decide_fold_row_def row_to_event_def attempt_row_def decide_initial_def arm_simps
        insert_executor_def case_prod_beta)
  moreover have "well_formed_reset ?r" "\<not> list_ex is_build_reset [?z]"
    by (simp_all add: well_formed_reset_def is_build_reset_def attempt_row_def)
  ultimately show ?thesis
    using decide_loaded_view [of "[?a, ?r, ?z]" "[?a]" ?r "[?z]" budget_default 9]
    by (simp add: attempt_row_def loaded_view_Cons lane_reset_def)
qed

end
