(* ===== verification/Retry_Classify.thy ===== *)
theory Retry_Classify
  imports Retry_Ledger
begin

text \<open>
  Classification of observed failures (\<open>classify\<close>) with its windowed byte search for the
  concurrent-upload marker (\<open>contains_concurrent_putpath_marker\<close>), both loops as written.
  A \<open>str\<close> is its bytes: a list of 8-bit characters.
\<close>

section \<open>The marker search\<close>

definition CONCURRENT_PUTPATH_MSG :: string where
  "CONCURRENT_PUTPATH_MSG = ''concurrent PutPath in progress''"

text \<open>The inner loop: the offset at which the needle and the window first differ.\<close>

function match_offset :: "string \<Rightarrow> string \<Rightarrow> nat \<Rightarrow> nat \<Rightarrow> nat" where
  "match_offset hay needle start offset =
     (if offset < length needle \<and> hay ! (start + offset) = needle ! offset
      then match_offset hay needle start (offset + 1) else offset)"
  by pat_completeness auto
termination
  by (relation "measure (\<lambda>(hay, needle, start, offset). length needle - offset)") auto

function search_from :: "string \<Rightarrow> string \<Rightarrow> nat \<Rightarrow> nat \<Rightarrow> bool" where
  "search_from hay needle last_start start =
     (if start \<le> last_start then
        (if match_offset hay needle start 0 = length needle then True
         else search_from hay needle last_start (start + 1))
      else False)"
  by pat_completeness auto
termination
  by (relation "measure (\<lambda>(hay, needle, last_start, start). Suc last_start - start)") auto

declare match_offset.simps [simp del] search_from.simps [simp del]

definition contains_concurrent_putpath_marker :: "string \<Rightarrow> bool" where
  "contains_concurrent_putpath_marker msg =
     (let needle = CONCURRENT_PUTPATH_MSG
      in if length msg < length needle then False
         else search_from msg needle (length msg - length needle) 0)"

lemma match_offset_full:
  assumes "offset \<le> length needle"
  shows "match_offset hay needle start offset = length needle \<longleftrightarrow>
    (\<forall>j. offset \<le> j \<longrightarrow> j < length needle \<longrightarrow> hay ! (start + j) = needle ! j)"
  using assms
proof (induction hay needle start offset rule: match_offset.induct)
  case (1 hay needle start offset)
  show ?case
  proof (cases "offset < length needle \<and> hay ! (start + offset) = needle ! offset")
    case True
    have "(\<forall>j. offset \<le> j \<longrightarrow> j < length needle \<longrightarrow> hay ! (start + j) = needle ! j) \<longleftrightarrow>
        (\<forall>j. offset + 1 \<le> j \<longrightarrow> j < length needle \<longrightarrow> hay ! (start + j) = needle ! j)"
      using True by (metis Suc_eq_plus1 Suc_leD Suc_leI le_neq_implies_less)
    with 1 True show ?thesis by (simp add: match_offset.simps [of hay needle start offset])
  next
    case False
    with 1(2) show ?thesis
      by (subst match_offset.simps) (auto dest: le_neq_implies_less)
  qed
qed

lemma search_from_iff:
  "search_from hay needle last_start start \<longleftrightarrow>
     (\<exists>i. start \<le> i \<and> i \<le> last_start \<and> (\<forall>j < length needle. hay ! (i + j) = needle ! j))"
proof (induction hay needle last_start start rule: search_from.induct)
  case (1 hay needle last_start start)
  have hit: "match_offset hay needle start 0 = length needle \<longleftrightarrow>
      (\<forall>j < length needle. hay ! (start + j) = needle ! j)"
    using match_offset_full [of 0 needle hay start] by simp
  show ?case
  proof (cases "start \<le> last_start \<and> match_offset hay needle start 0 \<noteq> length needle")
    case True
    hence "search_from hay needle last_start start = search_from hay needle last_start (start + 1)"
      by (subst search_from.simps) simp
    with 1 True hit show ?thesis by (metis Suc_eq_plus1 Suc_leD Suc_leI le_neq_implies_less)
  next
    case False
    with hit show ?thesis by (subst search_from.simps) (auto intro: exI [of _ start])
  qed
qed

lemma window_iff:
  assumes "i + length needle \<le> length hay"
  shows "(\<forall>j < length needle. hay ! (i + j) = needle ! j) \<longleftrightarrow> take (length needle) (drop i hay) = needle"
  using assms by (auto simp: list_eq_iff_nth_eq)

lemma marker_iff:
  "contains_concurrent_putpath_marker msg \<longleftrightarrow> (\<exists>pre post. msg = pre @ CONCURRENT_PUTPATH_MSG @ post)"
proof
  let ?n = CONCURRENT_PUTPATH_MSG
  assume "contains_concurrent_putpath_marker msg"
  then obtain i where i: "length ?n \<le> length msg" "i \<le> length msg - length ?n"
      "\<forall>j < length ?n. msg ! (i + j) = ?n ! j"
    by (auto simp: contains_concurrent_putpath_marker_def search_from_iff Let_def split: if_splits)
  hence "take (length ?n) (drop i msg) = ?n" using window_iff [of i ?n msg] by simp
  hence "msg = take i msg @ ?n @ drop (length ?n) (drop i msg)" by (metis append_take_drop_id)
  thus "\<exists>pre post. msg = pre @ ?n @ post" by blast
next
  let ?n = CONCURRENT_PUTPATH_MSG
  assume "\<exists>pre post. msg = pre @ ?n @ post"
  then obtain pre post where m: "msg = pre @ ?n @ post" by blast
  have "\<forall>j < length ?n. msg ! (length pre + j) = ?n ! j" by (simp add: m nth_append)
  thus "contains_concurrent_putpath_marker msg"
    by (auto simp: contains_concurrent_putpath_marker_def search_from_iff Let_def m
        intro!: exI [of _ "length pre"])
qed

section \<open>Classification\<close>

record FloorOutcomeView =
  promoted :: bool
  at_cap :: bool

datatype ObservedFailure =
    WorkerTransient
  | WorkerInfra string
  | WorkerPermanent
  | WorkerExecutorVariant
  | WorkerTimeout
  | Disconnect
  | ControllerResourceTermination
  | ControllerDeadlineExceeded
  | BackstopTimeout
  | UnreportedCrash
  | WorkerStoreDegraded

fun classify :: "ObservedFailure \<Rightarrow> FloorOutcomeView \<Rightarrow> OutcomeClass" where
  "classify WorkerTransient fl = OutcomeClass.Transient"
| "classify (WorkerInfra error_msg) fl =
     (if promoted fl \<or> contains_concurrent_putpath_marker error_msg
      then OutcomeClass.ExemptInfra else OutcomeClass.Infra)"
| "classify WorkerPermanent fl = OutcomeClass.Permanent"
| "classify WorkerExecutorVariant fl = OutcomeClass.ExecutorVariant"
| "classify ObservedFailure.WorkerTimeout fl = OutcomeClass.Timeout"
| "classify ObservedFailure.Disconnect fl = OutcomeClass.Disconnected"
| "classify ControllerResourceTermination fl =
     (if promoted fl then OutcomeClass.ExemptInfra else OutcomeClass.Infra)"
| "classify ObservedFailure.ControllerDeadlineExceeded fl = OutcomeClass.Timeout"
| "classify ObservedFailure.BackstopTimeout fl = OutcomeClass.Backstop"
| "classify UnreportedCrash fl = OutcomeClass.ExecutorCrash"
| "classify WorkerStoreDegraded fl = OutcomeClass.StoreDegraded"

text \<open>
  Classification. An observed failure is exempt from the infrastructure cap exactly when it is a
  worker infrastructure failure whose floor was promoted or whose message contains the
  concurrent-upload marker as a substring, or a controller resource termination whose
  floor was promoted; and an attempt row carrying the class of an observed failure always
  folds to an event, the store-degraded class alone excepted.
\<close>

lemma classify_contract:
  "(classify e fl = OutcomeClass.ExemptInfra \<longleftrightarrow>
      (case e of
         WorkerInfra msg \<Rightarrow> promoted fl \<or> (\<exists>pre post. msg = pre @ CONCURRENT_PUTPATH_MSG @ post)
       | ControllerResourceTermination \<Rightarrow> promoted fl
       | _ \<Rightarrow> False))
   \<and> (row_to_event (row\<lparr>event_kind := Attempt, outcome_class := classify e fl\<rparr>) = None
        \<longleftrightarrow> e = WorkerStoreDegraded)"
  by (cases e) (auto simp: marker_iff row_to_event_def)

end
