(* ===== verification/Log_Visit.thy ===== *)
theory Log_Visit
  imports Rio_Prelude
begin

text \<open>
  The read side of the log kernel (\<open>rio-log-kernel/src/lib.rs\<close>): the overlap-dedup step
  \<open>visit_chunk\<close> and its sealed cursor advance, the keyed cursor, the tail-stop law, the
  object and fan-out visits and the completion claim. Line numbers are \<open>u64\<close>. The theorems are
  about whole walks over a manifest of any length, where the code's own proofs check two
  and three chunks.
\<close>

section \<open>One chunk\<close>

text \<open>Fields in source order: \<open>Serve yield_from yield_until next_line\<close>,
  \<open>GapThenServe gap_from gap_until yield_from yield_until next_line\<close>.\<close>

datatype ChunkVisit =
    Skip u64
  | Serve u64 u64 u64
  | GapThenServe u64 u64 u64 u64 u64

fun visit_is_empty :: "ChunkVisit \<Rightarrow> bool" where
  "visit_is_empty (Skip _) = True"
| "visit_is_empty _ = False"

fun next_line :: "ChunkVisit \<Rightarrow> u64" where
  "next_line (Skip nl) = nl"
| "next_line (Serve _ _ nl) = nl"
| "next_line (GapThenServe _ _ _ _ nl) = nl"

record CursorAdvance =
  adv_to :: u64
  adv_gap_crossed :: bool

definition advance :: "ChunkVisit \<Rightarrow> CursorAdvance" where
  "advance v = \<lparr>adv_to = next_line v,
     adv_gap_crossed = (case v of GapThenServe _ _ _ _ _ \<Rightarrow> True | _ \<Rightarrow> False)\<rparr>"

definition visit_chunk :: "u64 \<Rightarrow> u64 \<Rightarrow> u64 \<Rightarrow> ChunkVisit" where
  "visit_chunk cursor first_line n_lines =
     (let chunk_end = saturating_add first_line n_lines;
          last_line = saturating_sub chunk_end 1
      in if n_lines = 0 \<or> last_line < cursor then Skip cursor
         else if first_line > cursor then GapThenServe cursor first_line first_line chunk_end chunk_end
         else Serve cursor chunk_end chunk_end)"

datatype KeyedVisit = ExecSwitch | Visit ChunkVisit

datatype CursorKey = Matches | Differs | Unkeyed

definition visit_chunk_keyed :: "CursorKey \<Rightarrow> u64 \<Rightarrow> u64 \<Rightarrow> u64 \<Rightarrow> KeyedVisit" where
  "visit_chunk_keyed key cursor first_line n_lines =
     (case key of
        Differs \<Rightarrow> ExecSwitch
      | Matches \<Rightarrow> Visit (visit_chunk cursor first_line n_lines)
      | Unkeyed \<Rightarrow> if cursor = 0 \<or> first_line = cursor
                   then Visit (visit_chunk cursor first_line n_lines) else ExecSwitch)"

section \<open>Stopping a tail\<close>

datatype TailStopCause = NaturalEnd | TransportErr | OpenFailed | GapObserved | Orphaned | PermanentErr

record ExitVerdict =
  disclose_truncation :: bool

datatype TailNext = Reopen | Exit ExitVerdict

definition tail_next :: "TailStopCause \<Rightarrow> bool \<Rightarrow> bool \<Rightarrow> bool \<Rightarrow> bool \<Rightarrow> TailNext" where
  "tail_next cause terminal grace_expired served_complete consumer_alive =
     (let v = \<lparr>disclose_truncation = (\<not> served_complete \<and> consumer_alive)\<rparr>
      in if grace_expired then Exit v
         else (case cause of
                 Orphaned \<Rightarrow> Exit v
               | PermanentErr \<Rightarrow> Exit v
               | NaturalEnd \<Rightarrow> if terminal \<and> served_complete then Exit v else Reopen
               | TransportErr \<Rightarrow> Reopen
               | OpenFailed \<Rightarrow> Reopen
               | GapObserved \<Rightarrow> Reopen))"

section \<open>Objects and fan-out batches\<close>

datatype ObjectDivergence =
    ShortObject u64 u64
  | LongObject u64

record ObjectVisit =
  object_visit :: ChunkVisit
  divergence :: "ObjectDivergence option"

definition visit_object :: "u64 \<Rightarrow> u64 \<Rightarrow> u64 \<Rightarrow> u64 \<Rightarrow> ObjectVisit" where
  "visit_object cursor first_line manifest_count object_count =
     (let served = min manifest_count object_count;
          diverg = (if object_count < manifest_count
                 then Some (ShortObject (saturating_add first_line object_count)
                                        (saturating_add first_line manifest_count))
                 else if object_count > manifest_count
                 then Some (LongObject (object_count - manifest_count))
                 else None)
      in \<lparr>object_visit = visit_chunk cursor first_line served, divergence = diverg\<rparr>)"

datatype ShortObjectPolicy = ServeClamped | UnservableHole

fun cover_loop :: "u64 \<Rightarrow> u64 \<Rightarrow> (u64 \<times> u64) list \<Rightarrow> u64" where
  "cover_loop covered_to until [] = covered_to"
| "cover_loop covered_to until ((first, cnt) # remaining) =
     (if covered_to \<ge> until then covered_to
      else (let chunk_end = saturating_add first cnt
            in if first > covered_to then covered_to
               else cover_loop (max covered_to chunk_end) until remaining))"

definition short_object_policy :: "u64 \<Rightarrow> u64 \<Rightarrow> u64 \<Rightarrow> (u64 \<times> u64) list \<Rightarrow> ShortObjectPolicy" where
  "short_object_policy cursor missing_from missing_until remaining =
     (let needed_from = max missing_from cursor
      in if needed_from \<ge> missing_until then ServeClamped
         else if cover_loop needed_from missing_until remaining \<ge> missing_until then ServeClamped
         else UnservableHole)"

datatype GapProvenance = AdmittedHole | DroppedSpan u64

record FanoutVisit =
  fanout_visit :: ChunkVisit
  provenance :: "GapProvenance option"

definition visit_fanout_batch :: "u64 \<Rightarrow> u64 \<Rightarrow> u64 \<Rightarrow> u64 \<Rightarrow> FanoutVisit" where
  "visit_fanout_batch cursor first_line n_lines coverage_floor =
     (let v = visit_chunk cursor first_line n_lines
      in \<lparr>fanout_visit = v,
          provenance = (case v of
              Skip _ \<Rightarrow> None
            | Serve _ _ _ \<Rightarrow> None
            | GapThenServe gfrom guntil _ _ _ \<Rightarrow>
                Some (if gfrom < coverage_floor then DroppedSpan (min coverage_floor guntil)
                      else AdmittedHole))\<rparr>)"

section \<open>The completion claim\<close>

record FinalClaim =
  complete :: bool
  cursor_next :: u64
  gap_crossed :: bool

definition final_claim :: "u64 \<Rightarrow> u64 option \<Rightarrow> bool \<Rightarrow> bool \<Rightarrow> FinalClaim" where
  "final_claim cursor sealed_final_line_count manifest_covers_sealed crossed =
     \<lparr>complete = ((case sealed_final_line_count of
                    Some n \<Rightarrow> cursor \<ge> n \<and> manifest_covers_sealed
                  | None \<Rightarrow> False) \<and> \<not> crossed),
      cursor_next = cursor, gap_crossed = crossed\<rparr>"

section \<open>A visit in terms of lines\<close>

definition I64_MAX :: u64 where
  "I64_MAX = 0x7FFFFFFFFFFFFFFF"

text \<open>The manifest invariant: both columns are \<open>BIGINT\<close> values.\<close>

definition bigint_chunk :: "u64 \<times> u64 \<Rightarrow> bool" where
  "bigint_chunk c \<longleftrightarrow> fst c \<le> I64_MAX \<and> snd c \<le> I64_MAX"

definition chunk_lines :: "u64 \<times> u64 \<Rightarrow> nat set" where
  "chunk_lines c = {unat (fst c) ..< unat (fst c) + unat (snd c)}"

text \<open>The lines a visit yields, in order.\<close>

fun visit_lines :: "ChunkVisit \<Rightarrow> nat list" where
  "visit_lines (Skip _) = []"
| "visit_lines (Serve yf yu _) = [unat yf ..< unat yu]"
| "visit_lines (GapThenServe _ _ yf yu _) = [unat yf ..< unat yu]"

lemma bigint_end:
  assumes "bigint_chunk (f, n)"
  shows "unat (saturating_add f n) = unat f + unat n"
  using assms
  by (simp add: bigint_chunk_def I64_MAX_def word_le_nat_alt unat_saturating_add unat_max_word)

lemma visit_chunk_lines:
  assumes "bigint_chunk (f, n)"
  shows "visit_lines (visit_chunk cur f n) = [max (unat cur) (unat f) ..< unat f + unat n]"
    and "unat (next_line (visit_chunk cur f n)) =
           (if n = 0 then unat cur else max (unat cur) (unat f + unat n))"
    and "adv_gap_crossed (advance (visit_chunk cur f n)) \<longleftrightarrow> n \<noteq> 0 \<and> unat cur < unat f"
proof -
  have n: "n = 0 \<longleftrightarrow> unat n = 0" by (simp add: unat_eq_0)
  have one: "unat (1::u64) = 1" by simp
  note simps = visit_chunk_def Let_def word_less_nat_alt unat_saturating_sub bigint_end [OF assms] one
  show "visit_lines (visit_chunk cur f n) = [max (unat cur) (unat f) ..< unat f + unat n]"
    using n by (auto simp: simps max_def)
  show "unat (next_line (visit_chunk cur f n)) =
           (if n = 0 then unat cur else max (unat cur) (unat f + unat n))"
    using n by (auto simp: simps max_def)
  show "adv_gap_crossed (advance (visit_chunk cur f n)) \<longleftrightarrow> n \<noteq> 0 \<and> unat cur < unat f"
    using n by (auto simp: simps advance_def)
qed

section \<open>Walking a manifest\<close>

text \<open>The serve loop's cursor: each visit's sealed advance is the next visit's watermark.\<close>

fun walk :: "u64 \<Rightarrow> (u64 \<times> u64) list \<Rightarrow> ChunkVisit list" where
  "walk cur [] = []"
| "walk cur ((f, n) # cs) = (let v = visit_chunk cur f n in v # walk (adv_to (advance v)) cs)"

definition walk_end :: "u64 \<Rightarrow> (u64 \<times> u64) list \<Rightarrow> u64" where
  "walk_end cur cs = foldl (\<lambda>c v. adv_to (advance v)) cur (walk cur cs)"

definition walk_gap :: "u64 \<Rightarrow> (u64 \<times> u64) list \<Rightarrow> bool" where
  "walk_gap cur cs = list_ex (\<lambda>v. adv_gap_crossed (advance v)) (walk cur cs)"

definition served :: "u64 \<Rightarrow> (u64 \<times> u64) list \<Rightarrow> nat list" where
  "served cur cs = concat (map visit_lines (walk cur cs))"

abbreviation manifest_ok :: "(u64 \<times> u64) list \<Rightarrow> bool" where
  "manifest_ok cs \<equiv> list_all bigint_chunk cs \<and> sorted (map fst cs)"

definition manifest_lines :: "(u64 \<times> u64) list \<Rightarrow> nat set" where
  "manifest_lines cs = (\<Union>c\<in>set cs. chunk_lines c)"

lemma advance_to [simp]: "adv_to (advance v) = next_line v"
  by (simp add: advance_def)

lemma walk_simps [simp]:
  "served cur [] = []"
  "served cur ((f, n) # cs) =
     visit_lines (visit_chunk cur f n) @ served (next_line (visit_chunk cur f n)) cs"
  "walk_end cur [] = cur"
  "walk_end cur ((f, n) # cs) = walk_end (next_line (visit_chunk cur f n)) cs"
  "walk_gap cur [] = False"
  "walk_gap cur ((f, n) # cs) =
     (adv_gap_crossed (advance (visit_chunk cur f n)) \<or> walk_gap (next_line (visit_chunk cur f n)) cs)"
  by (simp_all add: served_def walk_end_def walk_gap_def Let_def)

lemma manifest_lines_simps [simp]:
  "manifest_lines [] = {}"
  "manifest_lines (c # cs) = chunk_lines c \<union> manifest_lines cs"
  by (simp_all add: manifest_lines_def)

lemma manifest_lines_ge:
  assumes "sorted (map fst ((f, n) # cs))" "l \<in> manifest_lines cs"
  shows "unat f \<le> l"
  using assms by (fastforce simp: manifest_lines_def chunk_lines_def word_le_nat_alt)

lemma served_lines:
  assumes "manifest_ok cs"
  shows "sorted_wrt (<) (served cur cs) \<and> set (served cur cs) = {l \<in> manifest_lines cs. unat cur \<le> l}"
  using assms
proof (induction cs arbitrary: cur)
  case (Cons c cs)
  obtain f n where c: "c = (f, n)" by (cases c)
  have ok: "bigint_chunk (f, n)" "manifest_ok cs" using Cons.prems c by auto
  let ?v = "visit_chunk cur f n"
  note lines = visit_chunk_lines [OF ok(1), of cur]
  note IH = Cons.IH [OF ok(2), of "next_line ?v"]
  have n: "n = 0 \<longleftrightarrow> unat n = 0" by (simp add: unat_eq_0)
  have low: "unat f \<le> l" if "l \<in> manifest_lines cs" for l
    using manifest_lines_ge [of f n cs l] that Cons.prems c by simp
  have "sorted_wrt (<) (served cur (c # cs))"
    using IH lines n by (auto simp: c sorted_wrt_append)
  moreover have "set (served cur (c # cs)) = {l \<in> manifest_lines (c # cs). unat cur \<le> l}"
  proof (rule set_eqI)
    fix l
    have "l \<in> set (served cur (c # cs)) \<longleftrightarrow> max (unat cur) (unat f) \<le> l \<and> l < unat f + unat n
        \<or> l \<in> manifest_lines cs \<and> unat (next_line ?v) \<le> l"
      using IH by (simp add: c lines(1))
    with low [of l] lines(2) n
    show "l \<in> set (served cur (c # cs)) \<longleftrightarrow> l \<in> {l \<in> manifest_lines (c # cs). unat cur \<le> l}"
      by (cases "l \<in> manifest_lines cs"; cases "n = 0") (simp_all add: c chunk_lines_def, linarith+)
  qed
  ultimately show ?case by blast
qed simp

text \<open>
  C3. A walk over a manifest in ascending order yields every stored line at or above the starting
  watermark exactly once, in increasing order, and nothing else, however the chunks
  overlap and whatever holes they leave.
\<close>

theorem walk_serves_each_line_once:
  assumes "list_all bigint_chunk cs" "sorted (map fst cs)"
  shows "sorted_wrt (<) (served cur cs)
    \<and> set (served cur cs) = {l. unat cur \<le> l \<and> (\<exists>c \<in> set cs. l \<in> chunk_lines c)}"
  using served_lines [of cs cur] assms by (auto simp: manifest_lines_def)

theorem walk_serves_each_line_once_witness:
  "sorted_wrt (<) (served 2 [(0, 4), (3, 3), (9, 2)])
    \<and> set (served 2 [(0, 4), (3, 3), (9, 2)])
      = {l. unat (2::u64) \<le> l \<and> (\<exists>c \<in> set [(0, 4), (3, 3), (9, 2)]. l \<in> chunk_lines c)}"
  by (rule walk_serves_each_line_once)
    (simp_all add: bigint_chunk_def I64_MAX_def word_le_nat_alt)

lemma no_gap_serves:
  assumes "list_all bigint_chunk cs" "\<not> walk_gap cur cs"
  shows "unat cur \<le> unat (walk_end cur cs) \<and> {unat cur ..< unat (walk_end cur cs)} \<subseteq> set (served cur cs)"
  using assms
proof (induction cs arbitrary: cur)
  case (Cons c cs)
  obtain f n where c: "c = (f, n)" by (cases c)
  have ok: "bigint_chunk (f, n)" using Cons.prems c by simp
  note lines = visit_chunk_lines [OF ok, of cur]
  have n: "n = 0 \<longleftrightarrow> unat n = 0" by (simp add: unat_eq_0)
  have IH: "unat (next_line (visit_chunk cur f n)) \<le> unat (walk_end cur (c # cs))"
    "{unat (next_line (visit_chunk cur f n)) ..< unat (walk_end cur (c # cs))}
       \<subseteq> set (served (next_line (visit_chunk cur f n)) cs)"
    using Cons.IH [of "next_line (visit_chunk cur f n)"] Cons.prems by (simp_all add: c)
  have "{unat cur ..< unat (next_line (visit_chunk cur f n))} \<subseteq> set (visit_lines (visit_chunk cur f n))"
    using lines n Cons.prems(2) by (auto simp: c)
  with IH lines(2) show ?case by (fastforce simp: c split: if_splits)
qed simp

lemma covered_no_gap:
  assumes "manifest_ok cs" "{unat cur ..< m} \<subseteq> manifest_lines cs"
    "\<forall>c \<in> set cs. unat (fst c) + unat (snd c) \<le> m"
  shows "\<not> walk_gap cur cs \<and> m \<le> max (unat cur) (unat (walk_end cur cs))"
  using assms
proof (induction cs arbitrary: cur)
  case (Cons c cs)
  obtain f n where c: "c = (f, n)" by (cases c)
  have ok: "bigint_chunk (f, n)" "manifest_ok cs" using Cons.prems c by auto
  note lines = visit_chunk_lines [OF ok(1), of cur]
  have n: "n = 0 \<longleftrightarrow> unat n = 0" by (simp add: unat_eq_0)
  have low: "unat f \<le> l" if "l \<in> manifest_lines cs" for l
    using manifest_lines_ge [of f n cs l] that Cons.prems c by simp
  have ngap: "\<not> adv_gap_crossed (advance (visit_chunk cur f n))"
  proof
    assume "adv_gap_crossed (advance (visit_chunk cur f n))"
    hence gap: "unat cur < unat f" "unat n \<noteq> 0" using lines(3) n by auto
    with Cons.prems(3) have "unat cur < m" by (auto simp: c)
    hence "unat cur \<in> manifest_lines (c # cs)" using Cons.prems(2) by auto
    with gap low [of "unat cur"] show False by (auto simp: c chunk_lines_def)
  qed
  have "{unat (next_line (visit_chunk cur f n)) ..< m} \<subseteq> manifest_lines cs"
    using Cons.prems(2) lines(2) n by (auto simp: c chunk_lines_def split: if_splits)
  from Cons.IH [OF ok(2) this] Cons.prems(3) ngap
  have "\<not> walk_gap cur (c # cs)"
    "m \<le> max (unat (next_line (visit_chunk cur f n))) (unat (walk_end cur (c # cs)))"
    by (simp_all add: c)
  moreover have "unat (next_line (visit_chunk cur f n)) \<le> unat (walk_end cur (c # cs))"
    using no_gap_serves [of cs "next_line (visit_chunk cur f n)"] ok(2) calculation(1) by (simp add: c)
  ultimately show ?case by linarith
qed auto

text \<open>
  C16. The completion claim is sound: when a walk from watermark \<open>s\<close> ends with a claim marked
  complete for a sealed line count \<open>n\<close>, every line from \<open>s\<close> up to \<open>n\<close> was served to the
  reader, whatever the manifest looked like.
\<close>

theorem final_claim_sound:
  assumes "list_all bigint_chunk cs"
    and "complete (final_claim (walk_end s cs) (Some n) covers (walk_gap s cs))"
  shows "{unat s ..< unat n} \<subseteq> set (served s cs)"
proof -
  have "\<not> walk_gap s cs" "unat n \<le> unat (walk_end s cs)"
    using assms(2) by (simp_all add: final_claim_def word_le_nat_alt)
  with no_gap_serves [OF assms(1), of s] show ?thesis by fastforce
qed

theorem final_claim_sound_witness:
  "{unat (0::u64) ..< unat (5::u64)} \<subseteq> set (served 0 [(0, 4), (3, 2)])"
proof (rule final_claim_sound)
  show "list_all bigint_chunk [(0, 4), (3, 2)]"
    by (simp add: bigint_chunk_def I64_MAX_def word_le_nat_alt)
  show "complete (final_claim (walk_end 0 [(0, 4), (3, 2)]) (Some 5) True (walk_gap 0 [(0, 4), (3, 2)]))"
    by (simp add: final_claim_def visit_chunk_def advance_def saturating_add_def saturating_sub_def
        word_le_nat_alt word_less_nat_alt)
qed

section \<open>Objects that differ from their manifest row\<close>

lemma cover_loop_iff:
  assumes "manifest_ok cs"
  shows "until \<le> cover_loop cov until cs \<longleftrightarrow> {unat cov ..< unat until} \<subseteq> manifest_lines cs"
  using assms
proof (induction cs arbitrary: cov)
  case Nil
  show ?case by (auto simp: word_le_nat_alt)
next
  case (Cons c cs)
  obtain f n where c: "c = (f, n)" by (cases c)
  have ok: "bigint_chunk (f, n)" "manifest_ok cs" using Cons.prems c by auto
  have low: "unat f \<le> l" if "l \<in> manifest_lines cs" for l
    using manifest_lines_ge [of f n cs l] that Cons.prems c by simp
  consider "until \<le> cov" | "cov < until" "cov < f" | "cov < until" "f \<le> cov" by fastforce
  then show ?case
  proof cases
    case 1
    then show ?thesis by (simp add: c word_le_nat_alt)
  next
    case 2
    with low [of "unat cov"] have "unat cov \<notin> manifest_lines (c # cs)"
      by (auto simp: c chunk_lines_def word_less_nat_alt)
    with 2 show ?thesis by (auto simp: c word_less_nat_alt word_le_nat_alt not_le)
  next
    case 3
    let ?m = "max cov (saturating_add f n)"
    have m: "unat ?m = max (unat cov) (unat f + unat n)" by (simp add: unat_max bigint_end [OF ok(1)])
    have "(l \<in> {unat ?m ..< unat until} \<longrightarrow> l \<in> manifest_lines cs) \<longleftrightarrow>
        (l \<in> {unat cov ..< unat until} \<longrightarrow> l \<in> chunk_lines c \<union> manifest_lines cs)" for l
      using 3 unfolding m by (auto simp: c chunk_lines_def word_le_nat_alt)
    hence "{unat ?m ..< unat until} \<subseteq> manifest_lines cs \<longleftrightarrow>
        {unat cov ..< unat until} \<subseteq> chunk_lines c \<union> manifest_lines cs"
      unfolding subset_iff by blast
    moreover have "cover_loop cov until (c # cs) = cover_loop ?m until cs"
    proof -
      have "\<not> until \<le> cov" "\<not> cov < f" using 3 by auto
      thus ?thesis by (simp add: c)
    qed
    ultimately show ?thesis using Cons.IH [OF ok(2), of ?m] by simp
  qed
qed

text \<open>
  A short object is served clamped exactly when the lines it is missing, from the watermark on,
  are all held by the remaining chunks of the manifest; otherwise it is an unservable hole.
\<close>

lemma short_object_policy_exact:
  assumes "list_all bigint_chunk remaining" "sorted (map fst remaining)"
  shows "short_object_policy cur missing_from missing_until remaining = ServeClamped \<longleftrightarrow>
    {max (unat missing_from) (unat cur) ..< unat missing_until} \<subseteq> manifest_lines remaining"
  using cover_loop_iff [of remaining missing_until "max missing_from cur"] assms
  by (auto simp: short_object_policy_def Let_def word_le_nat_alt unat_max)

text \<open>
  Visiting an object serves the lines its manifest row and its payload both hold, from the
  watermark on, and reports the divergence exactly: nothing when the counts agree, the
  missing line range when the payload is short, the surplus when it is long.
\<close>

lemma visit_object_contract:
  assumes "bigint_chunk (f, mc)" "bigint_chunk (f, oc)"
  shows "visit_lines (object_visit (visit_object cur f mc oc))
      = [max (unat cur) (unat f) ..< unat f + min (unat mc) (unat oc)]
    \<and> (case divergence (visit_object cur f mc oc) of
         None \<Rightarrow> oc = mc
       | Some (ShortObject a z) \<Rightarrow>
           oc < mc \<and> {unat a ..< unat z} = chunk_lines (f, mc) - chunk_lines (f, oc)
       | Some (LongObject x) \<Rightarrow> oc > mc \<and> unat x = unat oc - unat mc)"
proof -
  have "bigint_chunk (f, min mc oc)" using assms by (auto simp: bigint_chunk_def min_def)
  from visit_chunk_lines(1) [OF this, of cur]
  have "visit_lines (object_visit (visit_object cur f mc oc))
      = [max (unat cur) (unat f) ..< unat f + min (unat mc) (unat oc)]"
    by (simp add: visit_object_def Let_def unat_min)
  moreover have "unat (oc - mc) = unat oc - unat mc" if "mc < oc"
    using that by (simp add: unat_sub)
  ultimately show ?thesis
    using bigint_end [OF assms(1)] bigint_end [OF assms(2)]
    by (auto simp: visit_object_def Let_def chunk_lines_def word_less_nat_alt word_unat_eq_iff)
qed

section \<open>Gaps on the live seam and the end of a tail\<close>

text \<open>
  A gap on the fan-out seam is attributed to its cause. There is a provenance exactly when the
  batch left a gap; a gap whose start was still owed by the coverage floor is a dropped
  span, disclosed up to the floor or the end of the gap whichever is first, and a gap
  that lies wholly at or above the floor is an admitted hole.
\<close>

lemma fanout_provenance:
  "let r = visit_fanout_batch cur f n floor in
   fanout_visit r = visit_chunk cur f n
   \<and> (case (fanout_visit r, provenance r) of
        (GapThenServe a z _ _ _, Some (DroppedSpan d)) \<Rightarrow>
          a < z \<and> {l. a \<le> l \<and> l < z \<and> l < floor} = {l. a \<le> l \<and> l < d} \<and> a < d
      | (GapThenServe a z _ _ _, Some AdmittedHole) \<Rightarrow>
          a < z \<and> {l. a \<le> l \<and> l < z \<and> l < floor} = {}
      | (GapThenServe _ _ _ _ _, None) \<Rightarrow> False
      | (_, p) \<Rightarrow> p = None)"
  by (auto simp: visit_fanout_batch_def visit_chunk_def Let_def)

text \<open>
  The tail law. A tail exits exactly when its grace expired, it was orphaned or hit a permanent
  error, or it ended naturally on a terminal execution it served completely; in every
  other case it reopens. An exit discloses truncation exactly when something was not served
  and a consumer is left to be told, so a natural exit within grace discloses nothing.
\<close>

lemma tail_next_law:
  "(tail_next cause terminal grace served_all alive = Reopen \<longleftrightarrow>
      \<not> grace \<and> cause \<noteq> Orphaned \<and> cause \<noteq> PermanentErr
      \<and> \<not> (cause = NaturalEnd \<and> terminal \<and> served_all))
   \<and> (case tail_next cause terminal grace served_all alive of
        Reopen \<Rightarrow> True
      | Exit v \<Rightarrow> disclose_truncation v = (\<not> served_all \<and> alive)
                   \<and> \<not> (disclose_truncation v \<and> \<not> grace \<and> cause = NaturalEnd))"
  by (cases cause) (auto simp: tail_next_def Let_def)

end
