(* ===== verification/Log_Ingest.thy ===== *)
theory Log_Ingest
  imports Log_Visit
begin

text \<open>
  The write side of the log kernel: admission of a batch (\<open>accept_verdict\<close>), the seal's
  coverage test (\<open>manifest_covers_contiguously\<close>, over \<open>i64\<close> columns), and the chunk cutters
  (\<open>contiguous_prefix_len\<close>, \<open>bounded_contiguous_prefix_len\<close>) with their size constants.
\<close>

section \<open>Definitions\<close>

definition LINE_LEN_PREFIX_BYTES :: u64 where
  "LINE_LEN_PREFIX_BYTES = 4"

definition MAX_CHUNK_PAYLOAD_BYTES :: u64 where
  "MAX_CHUNK_PAYLOAD_BYTES = 16 * 1024 * 1024"

definition PER_LINE_OVERHEAD_BYTES :: u64 where
  "PER_LINE_OVERHEAD_BYTES = 32"

definition charged_line_cost :: "u64 \<Rightarrow> u64" where
  "charged_line_cost content_len = saturating_add content_len PER_LINE_OVERHEAD_BYTES"

definition MAX_CHUNK_LINES :: u64 where
  "MAX_CHUNK_LINES = MAX_CHUNK_PAYLOAD_BYTES div (PER_LINE_OVERHEAD_BYTES + LINE_LEN_PREFIX_BYTES)"

definition MAX_CHUNK_LINES_ABS :: u64 where
  "MAX_CHUNK_LINES_ABS = MAX_CHUNK_PAYLOAD_BYTES div LINE_LEN_PREFIX_BYTES"

definition MAX_LINE_CONTENT_BYTES :: u64 where
  "MAX_LINE_CONTENT_BYTES = 64 * 1024"

definition MAX_BATCH_LINES :: u64 where
  "MAX_BATCH_LINES = MAX_CHUNK_LINES"

datatype AcceptVerdict =
    RejectedOverflow
  | RejectedNonMonotone
  | RejectedPastFinal
  | RejectedOversizedBatch
  | Accepted u64

definition accept_verdict :: "u64 \<Rightarrow> u64 option \<Rightarrow> u64 \<Rightarrow> u64 \<Rightarrow> AcceptVerdict" where
  "accept_verdict high_water_line final_line_count first_line_number line_count =
     (case checked_add first_line_number line_count of
        None \<Rightarrow> RejectedOverflow
      | Some batch_end \<Rightarrow>
          if \<not> batch_end \<le> I64_MAX then RejectedOverflow
          else if line_count > MAX_BATCH_LINES then RejectedOversizedBatch
          else if first_line_number < high_water_line then RejectedNonMonotone
          else (case final_line_count of
                  Some ceiling \<Rightarrow> if first_line_number \<ge> ceiling then RejectedPastFinal
                                   else Accepted (min batch_end ceiling)
                | None \<Rightarrow> Accepted batch_end))"

fun covers_loop :: "i64 \<Rightarrow> i64 \<Rightarrow> (i64 \<times> i64) list \<Rightarrow> bool" where
  "covers_loop covered up_to [] = (covered \<ge> up_to)"
| "covers_loop covered up_to ((first_line, line_count) # chunks) =
     (if first_line > covered then False
      else (let covered' = max covered (i64_saturating_add first_line line_count)
            in if covered' \<ge> up_to then True else covers_loop covered' up_to chunks))"

definition manifest_covers_contiguously :: "(i64 \<times> i64) list \<Rightarrow> i64 \<Rightarrow> bool" where
  "manifest_covers_contiguously chunks up_to = covers_loop 0 up_to chunks"

fun prefix_loop :: "u64 \<Rightarrow> nat \<Rightarrow> u64 list \<Rightarrow> nat" where
  "prefix_loop prev len [] = len"
| "prefix_loop prev len (n # ns) =
     (if checked_add prev 1 \<noteq> Some n then len else prefix_loop n (len + 1) ns)"

fun contiguous_prefix_len :: "u64 list \<Rightarrow> nat" where
  "contiguous_prefix_len [] = 0"
| "contiguous_prefix_len (prev # ns) = prefix_loop prev 1 ns"

definition framed_cost :: "u64 \<Rightarrow> u64" where
  "framed_cost content_len = saturating_add (charged_line_cost content_len) LINE_LEN_PREFIX_BYTES"

fun bounded_prefix_loop :: "u64 \<Rightarrow> u64 \<Rightarrow> u64 \<Rightarrow> nat \<Rightarrow> (u64 \<times> u64) list \<Rightarrow> nat" where
  "bounded_prefix_loop max_payload prev framed len [] = len"
| "bounded_prefix_loop max_payload prev framed len ((n, content_len) # ls) =
     (if checked_add prev 1 \<noteq> Some n then len
      else (let next_framed = saturating_add framed (framed_cost content_len)
            in if next_framed > max_payload then len
               else bounded_prefix_loop max_payload n next_framed (len + 1) ls))"

fun bounded_contiguous_prefix_len :: "(u64 \<times> u64) list \<Rightarrow> u64 \<Rightarrow> nat" where
  "bounded_contiguous_prefix_len [] max_payload = 0"
| "bounded_contiguous_prefix_len ((prev, first_len) # ls) max_payload =
     bounded_prefix_loop max_payload prev (framed_cost first_len) 1 ls"

section \<open>Admission of batches\<close>

text \<open>One batch offered to an ingest session: the accepted end is the new high-water line.\<close>

definition ingest_step :: "u64 option \<Rightarrow> u64 \<Rightarrow> u64 \<times> u64 \<Rightarrow> u64" where
  "ingest_step final hw b =
     (case accept_verdict hw final (fst b) (snd b) of Accepted e \<Rightarrow> e | _ \<Rightarrow> hw)"

lemma accept_verdict_Accepted:
  "accept_verdict hw final f n = Accepted e \<longleftrightarrow>
     unat f + unat n \<le> unat I64_MAX \<and> n \<le> MAX_BATCH_LINES \<and> hw \<le> f
     \<and> (case final of Some c \<Rightarrow> f < c \<and> unat e = min (unat f + unat n) (unat c)
                    | None \<Rightarrow> unat e = unat f + unat n)"
proof (cases "checked_add f n")
  case None
  hence "\<not> unat f + unat n < 2 ^ 64" by (simp add: checked_add_eq_None)
  with None show ?thesis by (simp add: accept_verdict_def I64_MAX_def)
next
  case (Some k)
  hence k: "unat k = unat f + unat n" by (simp add: checked_add_eq_Some)
  show ?thesis
    using Some k
    by (auto simp: accept_verdict_def word_le_nat_alt word_less_nat_alt not_le not_less
        word_unat_eq_iff unat_min split: option.splits)
qed

lemma ingest_step_mono: "hw \<le> ingest_step final hw b"
proof (cases "accept_verdict hw final (fst b) (snd b)")
  case (Accepted e)
  with accept_verdict_Accepted [of hw final "fst b" "snd b" e] show ?thesis
    by (auto simp: ingest_step_def word_le_nat_alt word_less_nat_alt split: option.splits)
qed (simp_all add: ingest_step_def)

lemma ingest_step_bigint: "hw \<le> I64_MAX \<Longrightarrow> ingest_step final hw b \<le> I64_MAX"
  using accept_verdict_Accepted [of hw final "fst b" "snd b"]
  by (auto simp: ingest_step_def word_le_nat_alt split: AcceptVerdict.split option.splits)

interpretation ingest: fold_machine "ingest_step final" "\<lambda>hw. hw0 \<le> hw \<and> hw \<le> I64_MAX"
  for final :: "u64 option" and hw0 :: u64
  by unfold_locales (blast intro: order_trans ingest_step_mono ingest_step_bigint)

text \<open>The spans a session stores, batch by batch.\<close>

fun accepted_spans :: "u64 option \<Rightarrow> u64 \<Rightarrow> (u64 \<times> u64) list \<Rightarrow> (u64 \<times> u64) list" where
  "accepted_spans final hw [] = []"
| "accepted_spans final hw (b # bs) =
     (case accept_verdict hw final (fst b) (snd b) of Accepted e \<Rightarrow> [(fst b, e)] | _ \<Rightarrow> [])
     @ accepted_spans final (ingest_step final hw b) bs"

definition span_ok :: "u64 option \<Rightarrow> u64 \<Rightarrow> u64 \<times> u64 \<Rightarrow> bool" where
  "span_ok final hw s \<longleftrightarrow> hw \<le> fst s \<and> fst s \<le> snd s \<and> snd s \<le> I64_MAX
     \<and> (case final of Some c \<Rightarrow> snd s \<le> c | None \<Rightarrow> True)"

lemma accepted_span_ok:
  assumes "accept_verdict hw final f n = Accepted e"
  shows "span_ok final hw (f, e)"
  using assms unfolding accept_verdict_Accepted span_ok_def
  by (auto simp: word_le_nat_alt word_less_nat_alt split: option.splits)

lemma span_ok_mono: "span_ok final hw' s \<Longrightarrow> hw \<le> hw' \<Longrightarrow> span_ok final hw s"
  unfolding span_ok_def by auto

lemma accepted_spans_ok:
  "list_all (span_ok final hw) (accepted_spans final hw bs)
   \<and> sorted_wrt (\<lambda>s t. snd s \<le> fst t) (accepted_spans final hw bs)"
proof (induction bs arbitrary: hw)
  case (Cons b bs)
  let ?hw = "ingest_step final hw b"
  have later: "list_all (span_ok final hw) (accepted_spans final ?hw bs)"
    using Cons.IH [of ?hw] ingest_step_mono [of hw final b] span_ok_mono
    by (auto simp: list_all_iff)
  show ?case
  proof (cases "accept_verdict hw final (fst b) (snd b)")
    case (Accepted e)
    hence "?hw = e" by (simp add: ingest_step_def)
    with Accepted later Cons.IH [of ?hw] accepted_span_ok [OF Accepted] show ?thesis
      by (auto simp: list_all_iff span_ok_def)
  qed (use later Cons.IH [of ?hw] in simp_all)
qed simp

text \<open>
  Admission is exact: a batch is accepted if and only if its end fits the \<open>BIGINT\<close> domain, it
  is not oversized, it starts at or above the high-water line and below the sealed final
  count, and the accepted end is the batch end clipped to that count. Over any sequence of
  offered batches the stored spans are then disjoint and in ascending order, start at or
  above the initial high-water line and end at or below the final count.
\<close>

lemma accept_verdict_exact:
  "(accept_verdict hw final f n = Accepted e \<longleftrightarrow>
     unat f + unat n \<le> unat I64_MAX \<and> n \<le> MAX_BATCH_LINES \<and> hw \<le> f
     \<and> (case final of Some c \<Rightarrow> f < c \<and> unat e = min (unat f + unat n) (unat c)
                    | None \<Rightarrow> unat e = unat f + unat n))
   \<and> list_all (span_ok final hw) (accepted_spans final hw bs)
   \<and> sorted_wrt (\<lambda>s t. snd s \<le> fst t) (accepted_spans final hw bs)"
  using accept_verdict_Accepted [of hw final f n e] accepted_spans_ok [of final hw bs] by blast

section \<open>The seal's coverage test\<close>

definition i64_chunk :: "i64 \<times> i64 \<Rightarrow> bool" where
  "i64_chunk c \<longleftrightarrow> 0 \<le> fst c \<and> 0 \<le> snd c \<and> fst c + snd c \<le> i64_max"

lemma i64_chunk_end: "i64_chunk (f, n) \<Longrightarrow> i64_saturating_add f n = f + n"
  by (simp add: i64_chunk_def i64_saturating_add_def i64_min_def i64_max_def)

definition i64_lines :: "(i64 \<times> i64) list \<Rightarrow> i64 set" where
  "i64_lines cs = (\<Union>c\<in>set cs. {fst c ..< fst c + snd c})"

lemma i64_lines_simps [simp]:
  "i64_lines [] = {}"
  "i64_lines ((f, n) # cs) = {f ..< f + n} \<union> i64_lines cs"
  by (simp_all add: i64_lines_def)

lemma covers_loop_iff:
  assumes "list_all i64_chunk cs" "sorted (map fst cs)" "cov < up_to"
  shows "covers_loop cov up_to cs \<longleftrightarrow> {cov ..< up_to} \<subseteq> i64_lines cs"
  using assms
proof (induction cs arbitrary: cov)
  case (Cons c cs)
  obtain f n where c: "c = (f, n)" by (cases c)
  have ok: "i64_chunk (f, n)" "list_all i64_chunk cs" "sorted (map fst cs)" using Cons.prems c by auto
  have low: "f \<le> l" if "l \<in> i64_lines cs" for l
    using that Cons.prems(2) by (fastforce simp: c i64_lines_def)
  show ?case
  proof (cases "f \<le> cov")
    case False
    with low [of cov] Cons.prems(3) have "cov \<notin> i64_lines (c # cs)" by (auto simp: c)
    with False Cons.prems(3) show ?thesis by (auto simp: c)
  next
    case True
    let ?m = "max cov (f + n)"
    have step: "covers_loop cov up_to (c # cs) \<longleftrightarrow> up_to \<le> ?m \<or> covers_loop ?m up_to cs"
      using True by (simp add: c i64_chunk_end [OF ok(1)] Let_def)
    have "(l \<in> {?m ..< up_to} \<longrightarrow> l \<in> i64_lines cs) \<longleftrightarrow>
        (l \<in> {cov ..< up_to} \<longrightarrow> l \<in> i64_lines (c # cs))" for l
      using True by (auto simp: c)
    hence "{?m ..< up_to} \<subseteq> i64_lines cs \<longleftrightarrow> {cov ..< up_to} \<subseteq> i64_lines (c # cs)"
      unfolding subset_iff by blast
    moreover have "up_to \<le> ?m \<Longrightarrow> {?m ..< up_to} \<subseteq> i64_lines cs" by simp
    moreover have "covers_loop ?m up_to cs \<longleftrightarrow> {?m ..< up_to} \<subseteq> i64_lines cs" if "\<not> up_to \<le> ?m"
      using Cons.IH [OF ok(2,3), of ?m] that by linarith
    ultimately show ?thesis using step by blast
  qed
qed auto

text \<open>
  The seal's coverage test is exact on a manifest in ascending order: for a positive line count
  it answers true if and only if every line below the count is held by some chunk.
\<close>

lemma manifest_covers_exact:
  assumes "list_all i64_chunk chunks" "sorted (map fst chunks)" "0 < up_to"
  shows "manifest_covers_contiguously chunks up_to \<longleftrightarrow>
    (\<forall>l. 0 \<le> l \<and> l < up_to \<longrightarrow> (\<exists>(f, n) \<in> set chunks. f \<le> l \<and> l < f + n))"
  using covers_loop_iff [OF assms(1,2), of 0 up_to] assms(3)
  by (fastforce simp: manifest_covers_contiguously_def i64_lines_def subset_iff)

section \<open>Cutting chunks\<close>

text \<open>The framed size of a run of lines, over the naturals.\<close>

definition framed_sum :: "(u64 \<times> u64) list \<Rightarrow> nat" where
  "framed_sum ls = (\<Sum>l\<leftarrow>ls. unat (framed_cost (snd l)))"

fun consecutive :: "u64 list \<Rightarrow> bool" where
  "consecutive (a # b # ns) = (unat b = unat a + 1 \<and> consecutive (b # ns))"
| "consecutive _ = True"

lemma checked_succ: "checked_add prev 1 = Some n \<longleftrightarrow> unat n = unat prev + 1" for prev n :: u64
proof -
  have "unat prev + 1 < 18446744073709551616" if "unat n = unat prev + 1"
    using unat_bound64 [of n] that by linarith
  thus ?thesis by (auto simp: checked_add_eq_Some)
qed

lemma framed_cost_ge: "36 \<le> unat (framed_cost n)"
  by (simp add: framed_cost_def charged_line_cost_def LINE_LEN_PREFIX_BYTES_def PER_LINE_OVERHEAD_BYTES_def
      unat_saturating_add)

lemma framed_sum_simps [simp]:
  "framed_sum [] = 0" "framed_sum (l # ls) = unat (framed_cost (snd l)) + framed_sum ls"
  by (simp_all add: framed_sum_def)

lemma framed_sum_ge: "36 * length ls \<le> framed_sum ls"
  using framed_cost_ge by (induction ls) (simp_all add: add_mono)

lemma saturating_sum_le:
  fixes a b m :: u64
  assumes "m < - 1"
  shows "saturating_add a b \<le> m \<longleftrightarrow> unat a + unat b \<le> unat m"
proof -
  have "unat m < 18446744073709551615" using assms by (simp add: word_less_nat_alt unat_max_word)
  thus ?thesis by (auto simp: word_le_nat_alt unat_saturating_add)
qed

lemma bounded_prefix_loop_spec:
  assumes "mp < - 1"
  shows "\<exists>k. bounded_prefix_loop mp prev framed len ls = len + k \<and> k \<le> length ls
     \<and> consecutive (prev # map fst (take k ls))
     \<and> (k = 0 \<or> unat framed + framed_sum (take k ls) \<le> unat mp)
     \<and> (k = length ls \<or> \<not> consecutive (prev # map fst (take (Suc k) ls))
        \<or> unat framed + framed_sum (take (Suc k) ls) > unat mp)"
proof (induction ls arbitrary: prev framed len)
  case (Cons l ls)
  obtain n c where l: "l = (n, c)" by (cases l)
  let ?fr = "saturating_add framed (framed_cost c)"
  show ?case
  proof (cases "checked_add prev 1 = Some n \<and> ?fr \<le> mp")
    case False
    hence "bounded_prefix_loop mp prev framed len (l # ls) = len + 0" by (auto simp: l not_le)
    moreover have "unat n \<noteq> unat prev + 1 \<or> unat framed + unat (framed_cost c) > unat mp"
      using False checked_succ [of prev n] saturating_sum_le [OF assms, of framed "framed_cost c"] by auto
    ultimately show ?thesis by (intro exI [of _ 0]) (auto simp: l)
  next
    case True
    hence n: "unat n = unat prev + 1" and le: "unat framed + unat (framed_cost c) \<le> unat mp"
      using checked_succ [of prev n] saturating_sum_le [OF assms, of framed "framed_cost c"] by auto
    have "unat mp < 18446744073709551615" using assms by (simp add: word_less_nat_alt unat_max_word)
    with le have fr: "unat ?fr = unat framed + unat (framed_cost c)" by (simp add: unat_saturating_add)
    from Cons.IH [of n ?fr "len + 1"] obtain k where k:
      "bounded_prefix_loop mp n ?fr (len + 1) ls = len + 1 + k" "k \<le> length ls"
      "consecutive (n # map fst (take k ls))"
      "k = 0 \<or> unat ?fr + framed_sum (take k ls) \<le> unat mp"
      "k = length ls \<or> \<not> consecutive (n # map fst (take (Suc k) ls))
        \<or> unat ?fr + framed_sum (take (Suc k) ls) > unat mp" by blast
    have "bounded_prefix_loop mp prev framed len (l # ls) = len + Suc k"
      using True k(1) by (simp add: l Let_def leD)
    with k(2-) n le fr show ?thesis by (intro exI [of _ "Suc k"]) (auto simp: l)
  qed
qed simp

lemma prefix_loop_ge: "len \<le> prefix_loop prev len ns"
  by (induction ns arbitrary: prev len) (auto intro: le_trans [of _ "Suc _"] Suc_leD)

lemma bounded_prefix_loop_le:
  "bounded_prefix_loop mp prev framed len ls \<le> prefix_loop prev len (map fst ls)"
  by (induction ls arbitrary: prev framed len) (auto simp: Let_def intro: Suc_leD [OF prefix_loop_ge])

text \<open>
  C38. A cut chunk is the longest admissible one. For a non-empty buffer the cut length \<open>k\<close> is at least
  one and at most the contiguous prefix; the \<open>k\<close> lines are consecutive; they fit the payload
  bound unless \<open>k = 1\<close>; and one more line would break contiguity or the bound. At the
  production payload size no cut exceeds \<open>MAX_CHUNK_LINES\<close>.
\<close>

theorem bounded_prefix_maximal:
  assumes "ls \<noteq> []" "mp < - 1"
  shows "let k = bounded_contiguous_prefix_len ls mp in
     1 \<le> k \<and> k \<le> length ls \<and> k \<le> contiguous_prefix_len (map fst ls)
     \<and> consecutive (map fst (take k ls))
     \<and> (k = 1 \<or> framed_sum (take k ls) \<le> unat mp)
     \<and> (k = length ls \<or> \<not> consecutive (map fst (take (k + 1) ls)) \<or> framed_sum (take (k + 1) ls) > unat mp)
     \<and> (mp = MAX_CHUNK_PAYLOAD_BYTES \<longrightarrow> k \<le> unat MAX_CHUNK_LINES)"
proof -
  obtain n c ls' where ls: "ls = (n, c) # ls'" using assms(1) by (cases ls) auto
  obtain k where k: "bounded_contiguous_prefix_len ls mp = Suc k" "k \<le> length ls'"
      "consecutive (n # map fst (take k ls'))"
      "k = 0 \<or> unat (framed_cost c) + framed_sum (take k ls') \<le> unat mp"
      "k = length ls' \<or> \<not> consecutive (n # map fst (take (Suc k) ls'))
        \<or> unat (framed_cost c) + framed_sum (take (Suc k) ls') > unat mp"
    using bounded_prefix_loop_spec [OF assms(2), of n "framed_cost c" 1 ls'] by (auto simp: ls)
  have "Suc k \<le> contiguous_prefix_len (map fst ls)"
    using bounded_prefix_loop_le [of mp n "framed_cost c" 1 ls'] k(1) by (simp add: ls)
  moreover have "Suc k \<le> unat MAX_CHUNK_LINES" if "mp = MAX_CHUNK_PAYLOAD_BYTES"
  proof -
    have "36 * Suc k \<le> 16777216 \<or> k = 0"
      using k(2,4) framed_sum_ge [of "take k ls'"] framed_cost_ge [of c] that
      by (auto simp: MAX_CHUNK_PAYLOAD_BYTES_def)
    moreover have "unat MAX_CHUNK_LINES = 466033"
      by (simp add: MAX_CHUNK_LINES_def MAX_CHUNK_PAYLOAD_BYTES_def PER_LINE_OVERHEAD_BYTES_def
          LINE_LEN_PREFIX_BYTES_def unat_div_distrib)
    ultimately show ?thesis by auto
  qed
  ultimately show ?thesis using k by (auto simp: ls Let_def)
qed

theorem bounded_prefix_maximal_witness:
  "let k = bounded_contiguous_prefix_len [(7, 10), (8, 20), (10, 5)] 150 in k = 2
     \<and> framed_sum (take k [(7, 10), (8, 20), (10, 5)]) \<le> 150"
proof -
  have k: "bounded_contiguous_prefix_len [(7, 10), (8, 20), (10, 5)] 150 = 2"
    by (simp add: framed_cost_def charged_line_cost_def LINE_LEN_PREFIX_BYTES_def
        PER_LINE_OVERHEAD_BYTES_def saturating_add_def checked_add_def word_less_nat_alt word_le_nat_alt)
  have "(150 :: u64) < - 1" by (simp add: word_less_nat_alt unat_max_word)
  from bounded_prefix_maximal [OF _ this, of "[(7, 10), (8, 20), (10, 5)]"] k
  show ?thesis by (simp add: Let_def)
qed

end
