(* ===== verification/Log_Account.thy ===== *)
theory Log_Account
  imports Rio_Prelude
begin

text \<open>
  The account of an execution's stored log bytes (\<open>log_account\<close>): the raw totals of all
  manifest rows, and the merged totals that skip a row covered by another one. The
  quadratic loop is modelled as written; its redundancy test is shown to be a strict order, so
  the merged view never loses a line and a replay of covered rows costs nothing.
\<close>

type_synonym u128 = "128 word"

record AccountRow =
  first_line :: u64
  line_count :: u64
  accounted_bytes :: u64
  key :: "u128 \<times> u32"

definition row_end :: "AccountRow \<Rightarrow> u64" where
  "row_end r = saturating_add (first_line r) (line_count r)"

record LogAccount =
  merged_bytes :: u64
  merged_chunks :: u64
  raw_bytes :: u64
  raw_rows :: u64

text \<open>The derived lexicographic order of the key tuple.\<close>

definition key_greater :: "u128 \<times> u32 \<Rightarrow> u128 \<times> u32 \<Rightarrow> bool" where
  "key_greater a b \<longleftrightarrow> fst a > fst b \<or> (fst a = fst b \<and> snd a > snd b)"

definition covers_row :: "AccountRow \<Rightarrow> AccountRow \<Rightarrow> bool" where
  "covers_row p r \<longleftrightarrow> key p \<noteq> key r \<and> first_line p \<le> first_line r \<and> row_end p \<ge> row_end r
     \<and> (first_line p < first_line r \<or> row_end p > row_end r \<or> key_greater (key p) (key r))"

definition redundant :: "AccountRow list \<Rightarrow> nat \<Rightarrow> AccountRow \<Rightarrow> bool" where
  "redundant rows i r = list_ex (\<lambda>(j, p). j \<noteq> i \<and> covers_row p r) (enumerate 0 rows)"

definition account_step :: "AccountRow list \<Rightarrow> LogAccount \<Rightarrow> nat \<times> AccountRow \<Rightarrow> LogAccount" where
  "account_step rows acct ir =
     (let i = fst ir; r = snd ir;
          acct = acct\<lparr>raw_bytes := saturating_add (raw_bytes acct) (accounted_bytes r)\<rparr>;
          acct = acct\<lparr>raw_rows := saturating_add (raw_rows acct) 1\<rparr>
      in if \<not> redundant rows i r
         then acct\<lparr>merged_bytes := saturating_add (merged_bytes acct) (accounted_bytes r),
                   merged_chunks := saturating_add (merged_chunks acct) 1\<rparr>
         else acct)"

definition log_account :: "AccountRow list \<Rightarrow> LogAccount" where
  "log_account rows =
     foldl (account_step rows)
       \<lparr>merged_bytes = 0, merged_chunks = 0, raw_bytes = 0, raw_rows = 0\<rparr> (enumerate 0 rows)"

section \<open>Closed form\<close>

definition kept_rows :: "AccountRow list \<Rightarrow> AccountRow list" where
  "kept_rows rows = filter (\<lambda>r. \<not> list_ex (\<lambda>p. covers_row p r) rows) rows"

definition bytes_sum :: "AccountRow list \<Rightarrow> nat" where
  "bytes_sum rows = (\<Sum>r\<leftarrow>rows. unat (accounted_bytes r))"

lemma redundant_iff:
  assumes "(i, r) \<in> set (enumerate 0 rows)"
  shows "redundant rows i r \<longleftrightarrow> list_ex (\<lambda>p. covers_row p r) rows"
proof
  assume "list_ex (\<lambda>p. covers_row p r) rows"
  then obtain j where j: "j < length rows" "covers_row (rows ! j) r"
    by (auto simp: list_ex_iff in_set_conv_nth)
  have "r = rows ! i" using assms by (auto simp: in_set_enumerate_eq)
  with j have "j \<noteq> i" by (auto simp: covers_row_def)
  with j show "redundant rows i r"
    unfolding redundant_def list_ex_iff by (auto simp: in_set_enumerate_eq intro!: bexI [of _ "(j, rows ! j)"])
qed (auto simp: redundant_def list_ex_iff in_set_enumerate_eq)

abbreviation sat :: "nat \<Rightarrow> nat" where
  "sat n \<equiv> min n 18446744073709551615"

lemma unat_saturating_add64: "unat (saturating_add a b) = sat (unat a + unat b)" for a b :: u64
  by (simp add: unat_saturating_add)

definition account_of :: "nat \<Rightarrow> nat \<Rightarrow> nat \<Rightarrow> nat \<Rightarrow> LogAccount \<Rightarrow> bool" where
  "account_of mb mc rb rr a \<longleftrightarrow> unat (merged_bytes a) = sat mb \<and> unat (merged_chunks a) = sat mc
     \<and> unat (raw_bytes a) = sat rb \<and> unat (raw_rows a) = sat rr"

lemma account_fold:
  assumes "set es \<subseteq> set (enumerate 0 rows)" "account_of mb mc rb rr a"
  shows "account_of (mb + bytes_sum (filter (\<lambda>r. \<not> list_ex (\<lambda>p. covers_row p r) rows) (map snd es)))
     (mc + length (filter (\<lambda>r. \<not> list_ex (\<lambda>p. covers_row p r) rows) (map snd es)))
     (rb + bytes_sum (map snd es)) (rr + length es) (foldl (account_step rows) a es)"
  using assms
proof (induction es arbitrary: mb mc rb rr a)
  case (Cons e es)
  obtain i r where e: "e = (i, r)" by (cases e)
  have red: "redundant rows i r \<longleftrightarrow> list_ex (\<lambda>p. covers_row p r) rows"
    using redundant_iff Cons.prems(1) by (simp add: e)
  let ?d = "\<lambda>n. if list_ex (\<lambda>p. covers_row p r) rows then 0 else n"
  have "account_of (mb + ?d (unat (accounted_bytes r))) (mc + ?d 1)
      (rb + unat (accounted_bytes r)) (rr + 1) (account_step rows a e)"
    using Cons.prems(2)
    by (auto simp: account_of_def account_step_def Let_def e red unat_saturating_add64)
  from Cons.IH [OF _ this] Cons.prems(1) show ?case
    by (simp add: e bytes_sum_def add.assoc split: if_splits)
qed (simp add: bytes_sum_def)

lemma log_account_eq:
  "account_of (bytes_sum (kept_rows rows)) (length (kept_rows rows)) (bytes_sum rows) (length rows)
     (log_account rows)"
  using account_fold [of "enumerate 0 rows" rows 0 0 0 0
      "\<lparr>merged_bytes = 0, merged_chunks = 0, raw_bytes = 0, raw_rows = 0\<rparr>"]
  by (simp add: log_account_def kept_rows_def account_of_def)

section \<open>The merged view\<close>

definition row_lines :: "AccountRow \<Rightarrow> nat set" where
  "row_lines r = {unat (first_line r) ..< unat (row_end r)}"

lemma covers_row_lines: "covers_row p r \<Longrightarrow> row_lines r \<subseteq> row_lines p"
  by (auto simp: covers_row_def row_lines_def word_le_nat_alt)

lemma covers_row_irrefl [simp]: "\<not> covers_row r r"
  by (simp add: covers_row_def)

lemma key_greater_trans: "key_greater a b \<Longrightarrow> key_greater b c \<Longrightarrow> key_greater a c"
  by (auto simp: key_greater_def)

lemma key_greater_irrefl [simp]: "\<not> key_greater a a"
  by (simp add: key_greater_def)

lemma covers_row_trans:
  assumes pq: "covers_row p q" and qr: "covers_row q r" and keys: "key p \<noteq> key r"
  shows "covers_row p r"
proof -
  note defs = covers_row_def word_le_nat_alt word_less_nat_alt
  have le: "unat (first_line p) \<le> unat (first_line q)" "unat (first_line q) \<le> unat (first_line r)"
    "unat (row_end q) \<le> unat (row_end p)" "unat (row_end r) \<le> unat (row_end q)"
    using pq qr unfolding defs by blast+
  consider "unat (first_line p) < unat (first_line q)" | "unat (first_line q) < unat (first_line r)"
    | "unat (row_end q) < unat (row_end p)" | "unat (row_end r) < unat (row_end q)"
    | "key_greater (key p) (key q)" "key_greater (key q) (key r)"
    using pq qr unfolding defs by blast
  thus ?thesis
    unfolding defs by cases (use le keys in \<open>auto dest: key_greater_trans\<close>)
qed

lemma kept_row_above:
  assumes "r \<in> set rows" "distinct (map key rows)"
  shows "\<exists>p \<in> set (kept_rows rows). row_lines r \<subseteq> row_lines p"
  using assms(1)
proof (induction "card {p \<in> set rows. covers_row p r}" arbitrary: r rule: less_induct)
  case less
  show ?case
  proof (cases "list_ex (\<lambda>p. covers_row p r) rows")
    case False
    with less.prems show ?thesis by (auto simp: kept_rows_def)
  next
    case True
    then obtain p where p: "p \<in> set rows" "covers_row p r" by (auto simp: list_ex_iff)
    have sub: "{q \<in> set rows. covers_row q p} \<subseteq> {q \<in> set rows. covers_row q r}"
    proof clarify
      fix q assume q: "q \<in> set rows" "covers_row q p"
      show "covers_row q r"
      proof (cases "q = r")
        case True
        with q(2) p(2) show ?thesis
          by (auto simp: covers_row_def key_greater_def)
      next
        case False
        with assms(2) q(1) less.prems have "key q \<noteq> key r"
          by (metis distinct_map inj_on_def)
        with covers_row_trans q(2) p(2) show ?thesis by blast
      qed
    qed
    have mem: "p \<in> {q \<in> set rows. covers_row q r}" "p \<notin> {q \<in> set rows. covers_row q p}"
      using p by auto
    have "card {q \<in> set rows. covers_row q p} < card {q \<in> set rows. covers_row q r}"
      by (rule psubset_card_mono) (simp, use sub mem in blast)
    from less.hyps [OF this p(1)] covers_row_lines [OF p(2)] show ?thesis by blast
  qed
qed

lemma bytes_sum_filter: "bytes_sum (filter P rows) \<le> bytes_sum rows"
  by (induction rows) (simp_all add: bytes_sum_def)

text \<open>
  C27. The account is what its fields say. Raw bytes and rows are the saturated totals of all rows,
  merged bytes and chunks the saturated totals of the rows no other row covers, so merged
  never exceeds raw; and with distinct row keys the rows that count hold every line that any row
  holds.
\<close>

theorem log_account_merged_view:
  assumes "distinct (map key rows)"
  shows "let a = log_account rows in
     unat (raw_bytes a) = min (bytes_sum rows) 18446744073709551615
     \<and> unat (raw_rows a) = min (length rows) 18446744073709551615
     \<and> unat (merged_bytes a) = min (bytes_sum (kept_rows rows)) 18446744073709551615
     \<and> unat (merged_chunks a) = min (length (kept_rows rows)) 18446744073709551615
     \<and> merged_bytes a \<le> raw_bytes a \<and> merged_chunks a \<le> raw_rows a
     \<and> (\<Union>r\<in>set (kept_rows rows). row_lines r) = (\<Union>r\<in>set rows. row_lines r)"
proof -
  have "bytes_sum (kept_rows rows) \<le> bytes_sum rows"
    unfolding kept_rows_def by (rule bytes_sum_filter)
  moreover have "length (kept_rows rows) \<le> length rows" by (simp add: kept_rows_def)
  moreover have "(\<Union>r\<in>set (kept_rows rows). row_lines r) = (\<Union>r\<in>set rows. row_lines r)"
    using kept_row_above [OF _ assms] by (fastforce simp: kept_rows_def)
  ultimately show ?thesis
    using log_account_eq [of rows] by (auto simp: account_of_def Let_def word_le_nat_alt)
qed

definition sample_row :: "u64 \<Rightarrow> u64 \<Rightarrow> u32 \<Rightarrow> AccountRow" where
  "sample_row f n k = \<lparr>first_line = f, line_count = n, accounted_bytes = 100, key = (1, k)\<rparr>"

theorem log_account_merged_view_witness:
  "unat (raw_bytes (log_account [sample_row 0 10 1, sample_row 2 3 2])) = 200
   \<and> unat (merged_bytes (log_account [sample_row 0 10 1, sample_row 2 3 2])) = 100"
proof -
  have "kept_rows [sample_row 0 10 1, sample_row 2 3 2] = [sample_row 0 10 1]"
    by (simp add: kept_rows_def covers_row_def row_end_def sample_row_def saturating_add_def
        word_le_nat_alt word_less_nat_alt)
  with log_account_merged_view [of "[sample_row 0 10 1, sample_row 2 3 2]"] show ?thesis
    by (simp add: Let_def bytes_sum_def sample_row_def)
qed

text \<open>
  A covered replay costs nothing: appending a row whose lines another row already covers leaves
  the merged bytes and chunks exactly as they were, even though the raw totals grow.
\<close>

lemma covered_replay_is_free:
  assumes "distinct (map key (rows @ [r]))" "p \<in> set rows" "covers_row p r"
  shows "merged_bytes (log_account (rows @ [r])) = merged_bytes (log_account rows)
    \<and> merged_chunks (log_account (rows @ [r])) = merged_chunks (log_account rows)
    \<and> unat (raw_rows (log_account (rows @ [r]))) = min (length rows + 1) 18446744073709551615"
proof -
  have keys: "key a \<noteq> key c" if "a \<in> set rows" "c \<in> set rows" "a \<noteq> c" for a c
    using that assms(1) by (auto simp: distinct_map inj_on_def)
  have "list_ex (\<lambda>q. covers_row q c) rows" if "c \<in> set rows" "covers_row r c" for c
  proof -
    have "p \<noteq> c" using that(2) assms(3) by (auto simp: covers_row_def key_greater_def)
    hence "covers_row p c" using covers_row_trans [OF assms(3) that(2)] keys [OF assms(2) that(1)] by blast
    thus ?thesis using assms(2) by (auto simp: list_ex_iff)
  qed
  hence "kept_rows (rows @ [r]) = kept_rows rows"
    using assms(2,3) by (auto simp: kept_rows_def list_ex_iff intro!: filter_cong)
  thus ?thesis
    using log_account_eq [of "rows @ [r]"] log_account_eq [of rows]
    by (simp add: account_of_def word_unat_eq_iff)
qed

end
