(* ===== verification/Log_Coverage.thy ===== *)
theory Log_Coverage
  imports Rio_Prelude "HOL-Library.Product_Lexorder"
begin

text \<open>
  \<open>CoverageMap\<close>: the durable line coverage of an execution as a list of spans. The operations are
  translated as written (sort and merge, the partition-point lookup, the rebuild on insert);
  the contract they implement is a set of line numbers, stated as the locale \<open>line_cover\<close> and
  discharged for the span list.
\<close>

section \<open>The map\<close>

record CoverageMap =
  spans :: "(u64 \<times> u64) list"

definition push_span :: "(u64 \<times> u64) list \<Rightarrow> u64 \<times> u64 \<Rightarrow> (u64 \<times> u64) list" where
  "push_span ss se =
     (if ss \<noteq> [] \<and> fst se \<le> snd (last ss)
      then butlast ss @ [(fst (last ss), max (snd (last ss)) (snd se))]
      else ss @ [se])"

definition from_intervals :: "(u64 \<times> u64) list \<Rightarrow> CoverageMap" where
  "from_intervals intervals =
     (let raw = sort (map (\<lambda>(first, cnt). (first, saturating_add first cnt))
                       (filter (\<lambda>(_, cnt). cnt > 0) intervals))
      in \<lparr>spans = foldl push_span [] raw\<rparr>)"

definition cov_is_empty :: "CoverageMap \<Rightarrow> bool" where
  "cov_is_empty m = (spans m = [])"

text \<open>\<open>partition_point\<close>: the length of the leading run that satisfies the predicate.\<close>

definition partition_point :: "('a \<Rightarrow> bool) \<Rightarrow> 'a list \<Rightarrow> nat" where
  "partition_point P xs = length (takeWhile P xs)"

definition covers_range :: "CoverageMap \<Rightarrow> u64 \<Rightarrow> u64 \<Rightarrow> bool" where
  "covers_range m first until =
     (if first \<ge> until then False
      else (case partition_point (\<lambda>(start, _). start \<le> first) (spans m) of
              0 \<Rightarrow> False
            | Suc i \<Rightarrow> snd (spans m ! i) \<ge> until))"

definition contiguous_prefix_end :: "CoverageMap \<Rightarrow> u64" where
  "contiguous_prefix_end m =
     (case spans m of (start, fin) # _ \<Rightarrow> if start = 0 then fin else 0 | [] \<Rightarrow> 0)"

definition contiguous_durable_frontier :: "CoverageMap \<Rightarrow> u64 option" where
  "contiguous_durable_frontier m = checked_sub (contiguous_prefix_end m) 1"

definition cov_insert :: "CoverageMap \<Rightarrow> u64 \<Rightarrow> u64 \<Rightarrow> CoverageMap" where
  "cov_insert m first_line line_count =
     (if line_count = 0 then m
      else from_intervals (map (\<lambda>(start, fin). (start, fin - start)) (spans m) @ [(first_line, line_count)]))"

section \<open>The contract\<close>

text \<open>
  A cover of line numbers, as its clients use it: a set of lines, an insert of an interval, a
  query for a range and the frontier of the prefix that is held without a hole.
\<close>

locale line_cover =
  fixes lines :: "'m \<Rightarrow> nat set"
    and wf :: "'m \<Rightarrow> bool"
    and ins :: "'m \<Rightarrow> u64 \<Rightarrow> u64 \<Rightarrow> 'm"
    and covers :: "'m \<Rightarrow> u64 \<Rightarrow> u64 \<Rightarrow> bool"
    and prefix_end :: "'m \<Rightarrow> u64"
  assumes ins_wf: "wf m \<Longrightarrow> wf (ins m f n)"
    and ins_lines: "wf m \<Longrightarrow> lines (ins m f n) = lines m \<union> {unat f ..< unat (saturating_add f n)}"
    and covers_lines: "wf m \<Longrightarrow> covers m f e \<longleftrightarrow> f < e \<and> {unat f ..< unat e} \<subseteq> lines m"
    and prefix_lines: "wf m \<Longrightarrow> {..< unat (prefix_end m)} \<subseteq> lines m"
    and prefix_next: "wf m \<Longrightarrow> unat (prefix_end m) \<notin> lines m"
begin

text \<open>A stored interval is covered from then on, whatever is inserted later.\<close>

lemma inserted_stays:
  assumes "wf m" "f < saturating_add f n"
  shows "covers (ins (ins m f n) g k) f (saturating_add f n)"
  using assms by (auto simp: covers_lines ins_wf ins_lines)

lemma prefix_end_mono:
  assumes "wf m"
  shows "prefix_end m \<le> prefix_end (ins m f n)"
proof -
  have "unat (prefix_end (ins m f n)) \<notin> lines m"
    using prefix_next [OF ins_wf [OF assms]] ins_lines [OF assms] by blast
  with prefix_lines [OF assms] have "\<not> unat (prefix_end (ins m f n)) < unat (prefix_end m)" by blast
  thus ?thesis by (simp add: word_le_nat_alt)
qed

text \<open>The prefix end is the first line not covered.\<close>

lemma prefix_end_least:
  assumes "wf m" "l \<notin> lines m"
  shows "unat (prefix_end m) \<le> l"
  using prefix_lines [OF assms(1)] assms(2) by (meson lessThan_iff not_le subsetD)

end

section \<open>The span list implements it\<close>

definition span_lines :: "(u64 \<times> u64) list \<Rightarrow> nat set" where
  "span_lines ss = (\<Union>s\<in>set ss. {unat (fst s) ..< unat (snd s)})"

definition cov_lines :: "CoverageMap \<Rightarrow> nat set" where
  "cov_lines m = span_lines (spans m)"

text \<open>Normal form: every span well-formed, successive spans separated by at least one line.\<close>

definition spans_nf :: "(u64 \<times> u64) list \<Rightarrow> bool" where
  "spans_nf ss \<longleftrightarrow> (\<forall>s\<in>set ss. fst s \<le> snd s) \<and> sorted_wrt (\<lambda>s t. snd s < fst t) ss"

definition cov_wf :: "CoverageMap \<Rightarrow> bool" where
  "cov_wf m = spans_nf (spans m)"

lemma span_lines_simps [simp]:
  "span_lines [] = {}"
  "span_lines (s # ss) = {unat (fst s) ..< unat (snd s)} \<union> span_lines ss"
  "span_lines (ss @ ts) = span_lines ss \<union> span_lines ts"
  by (auto simp: span_lines_def)

lemma push_span_nf:
  assumes "spans_nf ss" "fst s \<le> snd s" "\<forall>t\<in>set ss. fst t \<le> fst s"
  shows "spans_nf (push_span ss s)" "span_lines (push_span ss s) = span_lines ss \<union> {unat (fst s) ..< unat (snd s)}"
    "\<forall>t\<in>set (push_span ss s). fst t \<le> fst s"
proof -
  show "spans_nf (push_span ss s)"
  proof (cases ss rule: rev_cases)
    case Nil
    with assms(2) show ?thesis by (simp add: push_span_def spans_nf_def)
  next
    case (snoc ts t)
    with assms show ?thesis
      by (auto simp: push_span_def spans_nf_def sorted_wrt_append not_le max_def)
  qed
  show "span_lines (push_span ss s) = span_lines ss \<union> {unat (fst s) ..< unat (snd s)}"
  proof (cases ss rule: rev_cases)
    case (snoc ts t)
    have "unat (fst t) \<le> unat (fst s)" using assms(3) snoc by (simp add: word_le_nat_alt)
    with snoc show ?thesis
      by (auto simp: push_span_def word_le_nat_alt unat_max)
  qed (simp add: push_span_def)
  show "\<forall>t\<in>set (push_span ss s). fst t \<le> fst s"
    using assms(3) by (cases ss rule: rev_cases) (auto simp: push_span_def)
qed

lemma foldl_push_span:
  assumes "spans_nf ss" "sorted (map fst raw)" "\<forall>s\<in>set raw. fst s \<le> snd s"
    "\<forall>t\<in>set ss. \<forall>s\<in>set raw. fst t \<le> fst s"
  shows "spans_nf (foldl push_span ss raw) \<and> span_lines (foldl push_span ss raw) = span_lines ss \<union> span_lines raw"
  using assms
proof (induction raw arbitrary: ss)
  case (Cons s raw)
  have p: "spans_nf (push_span ss s)" "span_lines (push_span ss s) = span_lines ss \<union> {unat (fst s) ..< unat (snd s)}"
    "\<forall>t\<in>set (push_span ss s). fst t \<le> fst s"
    using push_span_nf [of ss s] Cons.prems by simp_all
  have "spans_nf (foldl push_span (push_span ss s) raw) \<and>
      span_lines (foldl push_span (push_span ss s) raw) = span_lines (push_span ss s) \<union> span_lines raw"
    using Cons.prems p(3) by (intro Cons.IH [OF p(1)]) (auto intro: order_trans)
  with p(2) show ?case by (simp add: Un_assoc)
qed simp

lemma sorted_fst_sort: "sorted (map fst (sort xs))" for xs :: "(u64 \<times> u64) list"
  unfolding sorted_map by (rule sorted_wrt_mono_rel [OF _ sorted_sort]) (auto simp: less_eq_prod_def)

lemma saturating_add_ge: "a \<le> saturating_add a b" for a b :: u64
  using unat_le_max64 [of a] by (simp add: word_le_nat_alt unat_saturating_add)

lemma saturating_add_0 [simp]: "saturating_add f 0 = f" for f :: u64
  by (simp add: word_unat_eq_iff unat_saturating_add)

lemma span_lines_sort: "span_lines (sort xs) = span_lines xs"
  by (simp add: span_lines_def)

lemma span_lines_intervals:
  "span_lines (map (\<lambda>(f, n). (f, saturating_add f n)) (filter (\<lambda>(_, n). n > 0) is))
   = (\<Union>i\<in>set is. {unat (fst i) ..< unat (saturating_add (fst i) (snd i))})"
  by (induction "is") (auto simp: word_gt_0)

lemma from_intervals_spec:
  "spans_nf (spans (from_intervals is))
   \<and> span_lines (spans (from_intervals is)) = (\<Union>i\<in>set is. {unat (fst i) ..< unat (saturating_add (fst i) (snd i))})"
proof -
  let ?raw = "sort (map (\<lambda>(f, n). (f, saturating_add f n)) (filter (\<lambda>(_, n). n > 0) is)) :: (u64 \<times> u64) list"
  have "spans_nf (foldl push_span [] ?raw) \<and> span_lines (foldl push_span [] ?raw) = span_lines [] \<union> span_lines ?raw"
    by (rule foldl_push_span) (auto simp: spans_nf_def sorted_fst_sort saturating_add_ge)
  moreover have "span_lines ?raw = (\<Union>i\<in>set is. {unat (fst i) ..< unat (saturating_add (fst i) (snd i))})"
    by (simp add: span_lines_sort span_lines_intervals)
  ultimately show ?thesis by (simp add: from_intervals_def Let_def)
qed

lemma spans_nf_Cons: "spans_nf (s # ss) \<longleftrightarrow> fst s \<le> snd s \<and> (\<forall>t\<in>set ss. snd s < fst t) \<and> spans_nf ss"
  by (auto simp: spans_nf_def)

lemma span_lines_above:
  assumes "\<forall>t\<in>set ss. x < unat (fst t)"
  shows "x \<notin> span_lines ss"
  using assms by (auto simp: span_lines_def)

lemma within_first_span:
  assumes "unat a \<le> unat f" "unat f < unat e" "\<forall>t\<in>set ss. unat f < unat (fst t)"
    "\<forall>t\<in>set ss. unat b < unat (fst t)"
  shows "{unat f ..< unat e} \<subseteq> span_lines ((a, b) # ss) \<longleftrightarrow> unat e \<le> unat b"
proof
  assume sub: "{unat f ..< unat e} \<subseteq> span_lines ((a, b) # ss)"
  show "unat e \<le> unat b"
  proof (rule ccontr)
    assume "\<not> unat e \<le> unat b"
    hence "max (unat f) (unat b) \<in> {unat f ..< unat e}" using assms(2) by auto
    with sub have "max (unat f) (unat b) \<in> span_lines ((a, b) # ss)" by blast
    moreover have "max (unat f) (unat b) \<notin> span_lines ss"
      using assms(3,4) by (intro span_lines_above) auto
    ultimately show False by auto
  qed
qed (use assms(1) in auto)

text \<open>The lookup: the span found by the partition point is the only one that can hold the line.\<close>

lemma lookup_covers:
  assumes "spans_nf ss" "f < e"
  shows "(case partition_point (\<lambda>(start, _). start \<le> f) ss of 0 \<Rightarrow> False | Suc i \<Rightarrow> snd (ss ! i) \<ge> e)
    \<longleftrightarrow> {unat f ..< unat e} \<subseteq> span_lines ss"
  using assms(1)
proof (induction ss)
  case (Cons s ss)
  obtain a b where s: "s = (a, b)" by (cases s)
  let ?P = "\<lambda>(start, _). start \<le> f"
  note nat = word_less_nat_alt word_le_nat_alt
  have nf: "a \<le> b" "\<forall>t\<in>set ss. b < fst t" "spans_nf ss" using Cons.prems by (simp_all add: spans_nf_Cons s)
  have fe: "unat f < unat e" using assms(2) by (simp add: nat)
  show ?case
  proof (cases "a \<le> f")
    case False
    hence "\<forall>t\<in>set (s # ss). unat f < unat (fst t)" using nf by (auto simp: s nat)
    from span_lines_above [OF this] have "\<not> {unat f ..< unat e} \<subseteq> span_lines (s # ss)" using fe by auto
    with False show ?thesis by (simp add: partition_point_def s)
  next
    case a: True
    show ?thesis
    proof (cases "partition_point ?P ss")
      case 0
      have "\<forall>t\<in>set ss. unat f < unat (fst t)"
        using 0 nf(3) by (cases ss) (auto simp: partition_point_def spans_nf_Cons nat split: if_splits)
      hence "{unat f ..< unat e} \<subseteq> span_lines (s # ss) \<longleftrightarrow> unat e \<le> unat b"
        unfolding s using a fe nf(2) by (intro within_first_span) (simp_all add: nat)
      with 0 a show ?thesis by (simp add: partition_point_def s nat)
    next
      case (Suc i)
      hence "ss \<noteq> []" "fst (hd ss) \<le> f"
        by (cases ss; auto simp: partition_point_def split: if_splits)+
      with nf(2) have "b < f" by (cases ss) auto
      hence "{unat f ..< unat e} \<subseteq> span_lines (s # ss) \<longleftrightarrow> {unat f ..< unat e} \<subseteq> span_lines ss"
        by (auto simp: s nat)
      with Suc a Cons.IH [OF nf(3)] show ?thesis by (simp add: partition_point_def s)
    qed
  qed
qed (use assms(2) in \<open>simp add: partition_point_def word_less_nat_alt\<close>)

lemma covers_range_iff:
  "cov_wf m \<Longrightarrow> covers_range m f e \<longleftrightarrow> f < e \<and> {unat f ..< unat e} \<subseteq> cov_lines m"
  using lookup_covers [of "spans m" f e]
  by (auto simp: covers_range_def cov_wf_def cov_lines_def not_le)

lemma prefix_end_spec:
  assumes "cov_wf m"
  shows "{..< unat (contiguous_prefix_end m)} \<subseteq> cov_lines m"
    and "unat (contiguous_prefix_end m) \<notin> cov_lines m"
proof -
  show "{..< unat (contiguous_prefix_end m)} \<subseteq> cov_lines m"
    by (auto simp: contiguous_prefix_end_def cov_lines_def split: list.split if_splits)
  show "unat (contiguous_prefix_end m) \<notin> cov_lines m"
  proof (cases "spans m")
    case (Cons s ss)
    have "\<forall>t\<in>set ss. unat (snd s) < unat (fst t)" "unat (fst s) \<le> unat (snd s)"
      using assms by (auto simp: cov_wf_def Cons spans_nf_Cons word_less_nat_alt word_le_nat_alt)
    hence "unat (snd s) \<notin> span_lines ss" "0 < unat (fst s) \<Longrightarrow> 0 \<notin> span_lines ss"
      by (auto intro!: span_lines_above)
    thus ?thesis
      by (cases s) (auto simp: contiguous_prefix_end_def cov_lines_def Cons unat_gt_0 unat_eq_0)
  qed (simp add: contiguous_prefix_end_def cov_lines_def)
qed

lemma cov_insert_spec:
  assumes "cov_wf m"
  shows "cov_wf (cov_insert m f n)"
    and "cov_lines (cov_insert m f n) = cov_lines m \<union> {unat f ..< unat (saturating_add f n)}"
proof -
  have refit: "unat (saturating_add a (b - a)) = unat b" if "(a, b) \<in> set (spans m)" for a b
  proof -
    have "a \<le> b" using assms that by (auto simp: cov_wf_def spans_nf_def)
    hence "unat (b - a) = unat b - unat a" "unat a \<le> unat b" by (simp_all add: unat_sub word_le_nat_alt)
    thus ?thesis by (simp add: unat_saturating_add)
  qed
  let ?is = "map (\<lambda>(start, fin). (start, fin - start)) (spans m) @ [(f, n)]"
  have "(\<Union>i\<in>set (map (\<lambda>(start, fin). (start, fin - start)) (spans m)).
      {unat (fst i) ..< unat (saturating_add (fst i) (snd i))}) = cov_lines m"
    using refit by (auto simp: cov_lines_def span_lines_def split: prod.splits)
  with from_intervals_spec [of ?is] assms
  show "cov_wf (cov_insert m f n)"
    and "cov_lines (cov_insert m f n) = cov_lines m \<union> {unat f ..< unat (saturating_add f n)}"
    by (auto simp: cov_insert_def cov_wf_def cov_lines_def)
qed

interpretation coverage_map: line_cover cov_lines cov_wf cov_insert covers_range contiguous_prefix_end
  by unfold_locales (simp_all add: cov_insert_spec covers_range_iff prefix_end_spec)

section \<open>Properties\<close>

text \<open>
  Building the map from raw manifest intervals, in any order and with overlaps and duplicates,
  gives separated spans in ascending order that hold exactly the lines of the intervals;
  so the result depends on the covered lines only.
\<close>

lemma from_intervals_normal_form:
  "spans_nf (spans (from_intervals is))
   \<and> cov_lines (from_intervals is) = (\<Union>(f, n)\<in>set is. {unat f ..< unat (saturating_add f n)})"
  using from_intervals_spec [of "is"] by (auto simp: cov_lines_def)

text \<open>
  C9. The coverage map refines the set of durable lines. On a map in normal form, inserting an interval
  keeps the normal form and adds exactly its lines, and a range query answers true exactly
  for a non-empty range all of whose lines are held; what was inserted stays covered; the
  contiguous prefix ends at the least line that is not held, and never shrinks.
\<close>

theorem coverage_map_refines_set:
  assumes "cov_wf m"
  shows "cov_wf (cov_insert m f n)
    \<and> cov_lines (cov_insert m f n) = cov_lines m \<union> {unat f ..< unat (saturating_add f n)}
    \<and> (covers_range m a e \<longleftrightarrow> a < e \<and> {unat a ..< unat e} \<subseteq> cov_lines m)
    \<and> (f < saturating_add f n \<longrightarrow> covers_range (cov_insert (cov_insert m f n) g k) f (saturating_add f n))
    \<and> {..<unat (contiguous_prefix_end m)} \<subseteq> cov_lines m
    \<and> unat (contiguous_prefix_end m) \<notin> cov_lines m
    \<and> contiguous_prefix_end m \<le> contiguous_prefix_end (cov_insert m f n)"
  using coverage_map.ins_wf [OF assms] coverage_map.ins_lines [OF assms]
    coverage_map.covers_lines [OF assms] coverage_map.inserted_stays [OF assms]
    coverage_map.prefix_lines [OF assms] coverage_map.prefix_next [OF assms]
    coverage_map.prefix_end_mono [OF assms]
  by blast

lemma cov_wf_two: "cov_wf \<lparr>spans = [(0, 4), (9, 12)]\<rparr>"
  by (simp add: cov_wf_def spans_nf_def word_le_nat_alt word_less_nat_alt)

theorem coverage_map_refines_set_witness:
  "covers_range \<lparr>spans = [(0, 4), (9, 12)]\<rparr> 1 3
   \<and> contiguous_prefix_end \<lparr>spans = [(0, 4), (9, 12)]\<rparr> = 4
   \<and> cov_lines (cov_insert \<lparr>spans = [(0, 4), (9, 12)]\<rparr> 4 5)
     = cov_lines \<lparr>spans = [(0, 4), (9, 12)]\<rparr> \<union> {unat (4::u64) ..< unat (saturating_add (4::u64) 5)}"
proof -
  let ?m = "\<lparr>spans = [(0, 4), (9, 12)]\<rparr>"
  have lines: "cov_lines ?m = {0..<4} \<union> {9..<12}" by (auto simp: cov_lines_def)
  note C9 = coverage_map_refines_set [OF cov_wf_two, of 4 5 1 3 0 0]
  have "{..<unat (contiguous_prefix_end ?m)} \<subseteq> {0..<4} \<union> {9..<12}"
    "unat (contiguous_prefix_end ?m) \<notin> {0..<4} \<union> {9..<12}"
    using C9 lines by simp_all
  moreover from this(1) have "\<not> 4 < unat (contiguous_prefix_end ?m)" by force
  ultimately have "unat (contiguous_prefix_end ?m) = 4" by auto
  hence "contiguous_prefix_end ?m = 4" by (simp add: word_unat_eq_iff)
  moreover have "{unat (1::u64) ..< unat (3::u64)} \<subseteq> cov_lines ?m" by (auto simp: lines)
  moreover have "(1::u64) < 3" by (simp add: word_less_nat_alt)
  ultimately show ?thesis using C9 by blast
qed

text \<open>
  The durable frontier is the ack the builder may trim to: it is \<open>None\<close> exactly when line zero is
  not held, and otherwise the highest line such that it and every line below it is held.
\<close>

lemma durable_frontier_is_prefix:
  assumes "cov_wf m"
  shows "case contiguous_durable_frontier m of
     None \<Rightarrow> 0 \<notin> cov_lines m
   | Some v \<Rightarrow> {..unat v} \<subseteq> cov_lines m \<and> unat v + 1 \<notin> cov_lines m"
proof (cases "contiguous_prefix_end m = 0")
  case True
  with prefix_end_spec(2) [OF assms] show ?thesis
    by (simp add: contiguous_durable_frontier_def checked_sub_def)
next
  case False
  hence ge: "1 \<le> contiguous_prefix_end m" by (simp add: word_le_nat_alt Suc_le_eq unat_gt_0)
  hence "unat (contiguous_prefix_end m - 1) + 1 = unat (contiguous_prefix_end m)"
    by (simp add: unat_sub word_le_nat_alt)
  with ge prefix_end_spec [OF assms] show ?thesis
    by (auto simp: contiguous_durable_frontier_def checked_sub_def lessThan_Suc_atMost simp flip: Suc_eq_plus1)
qed

end
