(* ===== verification/Authz_Kernel.thy ===== *)
theory Authz_Kernel
  imports Rio_Prelude
begin

text \<open>
  The store's transport authorisation kernel (\<open>rio-authz-kernel/src/lib.rs\<close>): credential
  classes, the single-knob arms, the layer verdict and the boot coherence check. The locale
  \<open>verifier_arm\<close> is the contract of one keyed arm; each of the three arms interprets it.
\<close>

section \<open>Credentials and configuration\<close>

datatype VerifierFamily = TenantJwt | Service | Assignment

datatype HandlerCheck = IngestToken | SigVisibility | ServiceCaller | EndUserRejected

datatype CredentialClass =
    AssignmentToken
  | TenantJwt
  | Service
  | Public string
  | HandlerEnforced HandlerCheck

fun consumes :: "CredentialClass \<Rightarrow> VerifierFamily option" where
  "consumes AssignmentToken = Some Assignment"
| "consumes CredentialClass.TenantJwt = Some VerifierFamily.TenantJwt"
| "consumes CredentialClass.Service = Some VerifierFamily.Service"
| "consumes (Public _) = None"
| "consumes (HandlerEnforced _) = None"

record VerifierConfig =
  jwt :: bool
  service :: bool
  hmac :: bool

datatype Presented = NoCredential | TenantClaims | ServiceVerified | ServiceGarbage | AssignmentHeader

datatype RejectReason =
    MissingTenantToken
  | MissingAssignmentToken
  | MissingServiceToken
  | ServiceVerificationFailed

datatype LayerVerdict = Admit | Reject RejectReason

datatype TenantJwtKnob = TenantJwtKnob bool
datatype ServiceKnob = ServiceKnob bool
datatype AssignmentKnob = AssignmentKnob bool

section \<open>The layer verdict\<close>

fun arm_assignment :: "AssignmentKnob \<Rightarrow> Presented \<Rightarrow> LayerVerdict" where
  "arm_assignment (AssignmentKnob on) presented =
     (if \<not> on then Admit
      else (case presented of AssignmentHeader \<Rightarrow> Admit | _ \<Rightarrow> Reject MissingAssignmentToken))"

fun arm_tenant_jwt :: "TenantJwtKnob \<Rightarrow> Presented \<Rightarrow> LayerVerdict" where
  "arm_tenant_jwt (TenantJwtKnob on) presented =
     (if \<not> on then Admit
      else (case presented of TenantClaims \<Rightarrow> Admit | _ \<Rightarrow> Reject MissingTenantToken))"

fun arm_service :: "ServiceKnob \<Rightarrow> Presented \<Rightarrow> LayerVerdict" where
  "arm_service (ServiceKnob on) presented =
     (if \<not> on then Admit
      else (case presented of
              ServiceVerified \<Rightarrow> Admit
            | ServiceGarbage \<Rightarrow> Reject ServiceVerificationFailed
            | _ \<Rightarrow> Reject MissingServiceToken))"

fun layer_decide :: "CredentialClass \<Rightarrow> VerifierConfig \<Rightarrow> Presented \<Rightarrow> LayerVerdict" where
  "layer_decide AssignmentToken cfg presented = arm_assignment (AssignmentKnob (hmac cfg)) presented"
| "layer_decide CredentialClass.TenantJwt cfg presented = arm_tenant_jwt (TenantJwtKnob (jwt cfg)) presented"
| "layer_decide CredentialClass.Service cfg presented = arm_service (ServiceKnob (service cfg)) presented"
| "layer_decide (Public _) cfg presented = Admit"
| "layer_decide (HandlerEnforced _) cfg presented = Admit"

datatype KeyCoherence = Coherent | MissingServiceKey | MissingAssignmentKey | MissingBothKeys

definition key_coherence :: "VerifierConfig \<Rightarrow> KeyCoherence" where
  "key_coherence cfg =
     (if \<not> jwt cfg then Coherent
      else (case (service cfg, hmac cfg) of
              (True, True) \<Rightarrow> Coherent
            | (False, True) \<Rightarrow> MissingServiceKey
            | (True, False) \<Rightarrow> MissingAssignmentKey
            | (False, False) \<Rightarrow> MissingBothKeys))"

section \<open>The contract of a keyed arm\<close>

locale verifier_arm =
  fixes arm :: "bool \<Rightarrow> Presented \<Rightarrow> LayerVerdict"
    and own :: Presented
  assumes off_admits: "arm False p = Admit"
    and on_admits_own: "arm True p = Admit \<longleftrightarrow> p = own"
begin

lemma admits_iff: "arm knob p = Admit \<longleftrightarrow> knob \<longrightarrow> p = own"
  using off_admits on_admits_own by (cases knob) auto

end

interpretation assignment_arm: verifier_arm "\<lambda>k. arm_assignment (AssignmentKnob k)" AssignmentHeader
  by unfold_locales (auto split: Presented.splits)

interpretation tenant_arm: verifier_arm "\<lambda>k. arm_tenant_jwt (TenantJwtKnob k)" TenantClaims
  by unfold_locales (auto split: Presented.splits)

interpretation service_arm: verifier_arm "\<lambda>k. arm_service (ServiceKnob k)" ServiceVerified
  by unfold_locales (auto split: Presented.splits)

text \<open>The knob and the credential of a family.\<close>

fun knob :: "VerifierConfig \<Rightarrow> VerifierFamily \<Rightarrow> bool" where
  "knob cfg VerifierFamily.TenantJwt = jwt cfg"
| "knob cfg VerifierFamily.Service = service cfg"
| "knob cfg Assignment = hmac cfg"

fun own_credential :: "VerifierFamily \<Rightarrow> Presented" where
  "own_credential VerifierFamily.TenantJwt = TenantClaims"
| "own_credential VerifierFamily.Service = ServiceVerified"
| "own_credential Assignment = AssignmentHeader"

lemma layer_decide_admits:
  "layer_decide cls cfg p = Admit \<longleftrightarrow>
     (case consumes cls of None \<Rightarrow> True | Some fam \<Rightarrow> knob cfg fam \<longrightarrow> p = own_credential fam)"
  using assignment_arm.admits_iff [of "hmac cfg" p] tenant_arm.admits_iff [of "jwt cfg" p]
    service_arm.admits_iff [of "service cfg" p]
  by (cases cls) auto

text \<open>
  C30. What a store's keys enforce. The boot check passes exactly the configurations in which JWT
  being on implies both HMAC keys. Under a configuration that passes, with JWT on, every keyed
  method is dispatched only with the verified credential of its own family, so a foreign or
  garbage credential never admits. With JWT off the check passes whatever the HMAC keys, and a
  family whose key is absent is not enforced: its methods are dispatched with any credential.
  In every configuration a method is dispatched exactly when it is unkeyed, its family's key is absent
  or the credential is its family's own, and the verdict is unaffected by the knobs of
  the other families.
\<close>

theorem coherent_store_enforces:
  "(key_coherence cfg = Coherent \<longleftrightarrow> \<not> jwt cfg \<or> service cfg \<and> hmac cfg)
   \<and> (key_coherence cfg = Coherent \<and> jwt cfg \<and> consumes cls = Some fam \<longrightarrow>
        (layer_decide cls cfg p = Admit \<longleftrightarrow> p = own_credential fam))
   \<and> (layer_decide cls cfg p = Admit \<longleftrightarrow>
        (case consumes cls of None \<Rightarrow> True | Some f \<Rightarrow> knob cfg f \<longrightarrow> p = own_credential f))
   \<and> (consumes cls = Some fam \<and> knob cfg fam = knob cfg' fam \<longrightarrow>
        layer_decide cls cfg p = layer_decide cls cfg' p)"
proof (intro conjI impI)
  show coh: "key_coherence cfg = Coherent \<longleftrightarrow> \<not> jwt cfg \<or> service cfg \<and> hmac cfg"
    by (auto simp: key_coherence_def split: bool.split)
  assume "key_coherence cfg = Coherent \<and> jwt cfg \<and> consumes cls = Some fam"
  moreover from this coh have "knob cfg fam" by (cases fam) auto
  ultimately show "layer_decide cls cfg p = Admit \<longleftrightarrow> p = own_credential fam"
    by (simp add: layer_decide_admits)
next
  show "layer_decide cls cfg p = Admit \<longleftrightarrow>
      (case consumes cls of None \<Rightarrow> True | Some f \<Rightarrow> knob cfg f \<longrightarrow> p = own_credential f)"
    by (rule layer_decide_admits)
next
  assume "consumes cls = Some fam \<and> knob cfg fam = knob cfg' fam"
  then show "layer_decide cls cfg p = layer_decide cls cfg' p" by (cases cls) auto
qed

theorem coherent_store_enforces_witness:
  "layer_decide CredentialClass.Service \<lparr>jwt = True, service = True, hmac = True\<rparr> TenantClaims \<noteq> Admit
   \<and> layer_decide CredentialClass.Service \<lparr>jwt = True, service = True, hmac = True\<rparr> ServiceVerified = Admit
   \<and> layer_decide CredentialClass.Service \<lparr>jwt = False, service = False, hmac = False\<rparr> TenantClaims = Admit"
  using coherent_store_enforces [of "\<lparr>jwt = True, service = True, hmac = True\<rparr>" CredentialClass.Service
      VerifierFamily.Service TenantClaims "\<lparr>jwt = True, service = True, hmac = True\<rparr>"]
    coherent_store_enforces [of "\<lparr>jwt = True, service = True, hmac = True\<rparr>" CredentialClass.Service
      VerifierFamily.Service ServiceVerified "\<lparr>jwt = True, service = True, hmac = True\<rparr>"]
    coherent_store_enforces [of "\<lparr>jwt = False, service = False, hmac = False\<rparr>" CredentialClass.Service
      VerifierFamily.Service TenantClaims "\<lparr>jwt = False, service = False, hmac = False\<rparr>"]
  by (simp add: key_coherence_def)

end
