(* ===== verification/Evidence_Pull.thy ===== *)
theory Evidence_Pull
  imports Rio_Prelude
begin

text \<open>
  Pull admission (\<open>rio-evidence-kernel/src/pull.rs\<close>): the base table, the kinded table on
  top of it, the re-delivery credential, the confirm-exit fence law and the report fold. The
  identity types stay type variables, as in the code.
\<close>

section \<open>Requests and admissions\<close>

datatype PullNodeStatus =
  Created | Queued | Ready | Assigned | Running | Completed | Failed | Poisoned | DependencyFailed
  | Cancelled | Skipped

datatype 'x PullAdmission =
    DeliverNew
  | DeliverExisting 'x
  | Gone
  | NotYetReady
  | RejectToken
  | RejectStaleGeneration

text \<open>The generation floor is an \<open>i64\<close>: a 64-bit word read with \<open>sint\<close>.\<close>

record ('i, 'e, 'x) PullRequest =
  intent_id :: 'i
  auth_intent :: "'i option"
  serving_generation :: u64
  generation_floor :: "u64 option"
  req_status :: "PullNodeStatus option"
  open_attempt :: "('e \<times> 'x) option"
  pulling_identity :: 'e
  build_backoff_expired :: bool

definition token_mismatch :: "('i, 'e, 'x) PullRequest \<Rightarrow> bool" where
  "token_mismatch r = (case auth_intent r of Some auth \<Rightarrow> auth \<noteq> intent_id r | None \<Rightarrow> False)"

definition stale_generation :: "('i, 'e, 'x) PullRequest \<Rightarrow> bool" where
  "stale_generation r =
     (case generation_floor r of
        Some fl \<Rightarrow> sint fl \<ge> 0 \<and> serving_generation r < fl
      | None \<Rightarrow> False)"

definition status_admission :: "('i, 'e, 'x) PullRequest \<Rightarrow> PullNodeStatus \<Rightarrow> 'x PullAdmission" where
  "status_admission r st =
     (if st \<in> {Completed, Cancelled, Skipped, Poisoned, DependencyFailed} then Gone
      else if st \<in> {Created, Queued, Failed} then NotYetReady
      else if st = Ready then DeliverNew
      else (case open_attempt r of
              Some (ex, exec_id) \<Rightarrow>
                if ex = pulling_identity r then DeliverExisting exec_id else NotYetReady
            | None \<Rightarrow> NotYetReady))"

definition base_admission :: "('i, 'e, 'x) PullRequest \<Rightarrow> 'x PullAdmission" where
  "base_admission r =
     (if token_mismatch r then RejectToken
      else if stale_generation r then RejectStaleGeneration
      else (case req_status r of None \<Rightarrow> Gone | Some st \<Rightarrow> status_admission r st))"

section \<open>The kinded table\<close>

datatype PullKind = Build | Materialization

datatype DisplaySurface = BuildSurface | SubstitutionSurface

fun display_class :: "PullKind \<Rightarrow> DisplaySurface" where
  "display_class Build = BuildSurface"
| "display_class Materialization = SubstitutionSurface"

datatype FenceLaneKind = Keyed | Unfenced | MaterializationLane

datatype FenceObligation = WriteAhead | ScreenRead | NoObligation

definition fence_obligation :: "'x PullAdmission \<Rightarrow> bool \<Rightarrow> FenceLaneKind \<Rightarrow> FenceObligation" where
  "fence_obligation admission confirm_only lane =
     (case lane of
        Unfenced \<Rightarrow> NoObligation
      | MaterializationLane \<Rightarrow> NoObligation
      | Keyed \<Rightarrow>
          (case admission of
             Gone \<Rightarrow> WriteAhead
           | NotYetReady \<Rightarrow> if confirm_only then WriteAhead else NoObligation
           | DeliverNew \<Rightarrow> ScreenRead
           | DeliverExisting _ \<Rightarrow> NoObligation
           | RejectToken \<Rightarrow> NoObligation
           | RejectStaleGeneration \<Rightarrow> NoObligation))"

datatype ReportAdmission = Process | AckIgnore

definition fold_report :: "bool \<Rightarrow> bool \<Rightarrow> ReportAdmission" where
  "fold_report assignment_active attempt_already_classified =
     (if assignment_active \<and> \<not> attempt_already_classified then Process else AckIgnore)"

datatype JobView = NoJob | Pending (job_parked: bool) | Claimed (job_held_by_puller: bool)

record 'x MaterializationInputs =
  mat_kind :: PullKind
  mat_job :: JobView
  resume_exec_id :: "'x option"
  presented_nonce :: "128 word option"
  attempt_nonce :: "128 word option"

definition redelivery_credential_ok ::
  "'x option \<Rightarrow> 'x \<Rightarrow> 128 word option \<Rightarrow> 128 word option \<Rightarrow> bool" where
  "redelivery_credential_ok presented_resume attempt_exec_id presented attempt \<longleftrightarrow>
     presented_resume = Some attempt_exec_id \<or> (presented \<noteq> None \<and> presented = attempt)"

definition admit_pull ::
  "('i, 'e, 'x) PullRequest \<Rightarrow> 'x MaterializationInputs \<Rightarrow> 'x PullAdmission" where
  "admit_pull request mat =
     (let base = base_admission request in
      case (mat_kind mat, mat_job mat) of
        (Build, NoJob) \<Rightarrow>
          (case base of
             DeliverNew \<Rightarrow> if \<not> build_backoff_expired request then NotYetReady else DeliverNew
           | other \<Rightarrow> other)
      | (Build, _) \<Rightarrow>
          (case base of
             RejectToken \<Rightarrow> RejectToken
           | RejectStaleGeneration \<Rightarrow> RejectStaleGeneration
           | Gone \<Rightarrow> Gone
           | _ \<Rightarrow> NotYetReady)
      | (Materialization, NoJob) \<Rightarrow>
          (case base of
             RejectToken \<Rightarrow> RejectToken
           | RejectStaleGeneration \<Rightarrow> RejectStaleGeneration
           | _ \<Rightarrow> Gone)
      | (Materialization, Pending parked) \<Rightarrow>
          (case base of
             RejectToken \<Rightarrow> RejectToken
           | RejectStaleGeneration \<Rightarrow> RejectStaleGeneration
           | Gone \<Rightarrow> Gone
           | DeliverNew \<Rightarrow> if \<not> parked then DeliverNew else NotYetReady
           | NotYetReady \<Rightarrow>
               if \<not> parked \<and> req_status request \<in> {Some Queued, Some Ready} then DeliverNew else NotYetReady
           | DeliverExisting _ \<Rightarrow> NotYetReady)
      | (Materialization, Claimed held_by_puller) \<Rightarrow>
          (case base of
             RejectToken \<Rightarrow> RejectToken
           | RejectStaleGeneration \<Rightarrow> RejectStaleGeneration
           | Gone \<Rightarrow> Gone
           | DeliverExisting exec_id \<Rightarrow>
               if held_by_puller
                  \<and> redelivery_credential_ok (resume_exec_id mat) exec_id (presented_nonce mat) (attempt_nonce mat)
               then DeliverExisting exec_id else NotYetReady
           | _ \<Rightarrow> NotYetReady))"

section \<open>What an admission guarantees\<close>

definition redeliver :: "('i, 'e, 'x) PullRequest \<Rightarrow> 'x PullAdmission" where
  "redeliver r = (case open_attempt r of
     Some (ex, exec_id) \<Rightarrow> if ex = pulling_identity r then DeliverExisting exec_id else NotYetReady
   | None \<Rightarrow> NotYetReady)"

lemma status_admission_simps [simp]:
  "status_admission r Created = NotYetReady" "status_admission r Queued = NotYetReady"
  "status_admission r Ready = DeliverNew" "status_admission r Assigned = redeliver r"
  "status_admission r Running = redeliver r" "status_admission r Completed = Gone"
  "status_admission r Failed = NotYetReady" "status_admission r Poisoned = Gone"
  "status_admission r DependencyFailed = Gone" "status_admission r Cancelled = Gone"
  "status_admission r Skipped = Gone"
  by (simp_all add: status_admission_def redeliver_def)

lemma redeliver_cases [simp]:
  "redeliver r = DeliverExisting x \<longleftrightarrow> open_attempt r = Some (pulling_identity r, x)"
  "redeliver r \<noteq> DeliverNew" "redeliver r \<noteq> RejectToken" "redeliver r \<noteq> RejectStaleGeneration"
  "redeliver r \<noteq> Gone"
  by (auto simp: redeliver_def split: option.split)

lemma base_admission_new:
  "base_admission r = DeliverNew \<longleftrightarrow>
     \<not> token_mismatch r \<and> \<not> stale_generation r \<and> req_status r = Some Ready"
proof (cases "req_status r")
  case (Some st)
  then show ?thesis by (cases st) (simp_all add: base_admission_def)
qed (simp add: base_admission_def)

lemma base_admission_existing:
  "base_admission r = DeliverExisting x \<longleftrightarrow>
     \<not> token_mismatch r \<and> \<not> stale_generation r \<and> (req_status r = Some Assigned \<or> req_status r = Some Running)
     \<and> open_attempt r = Some (pulling_identity r, x)"
proof (cases "req_status r")
  case (Some st)
  then show ?thesis by (cases st) (simp_all add: base_admission_def)
qed (simp add: base_admission_def)

lemma base_admission_gates:
  "base_admission r = RejectToken \<longleftrightarrow> token_mismatch r"
  "base_admission r = RejectStaleGeneration \<longleftrightarrow> \<not> token_mismatch r \<and> stale_generation r"
proof -
  have "status_admission r st \<noteq> RejectToken" "status_admission r st \<noteq> RejectStaleGeneration" for st
    by (cases st; simp)+
  thus "base_admission r = RejectToken \<longleftrightarrow> token_mismatch r"
    "base_admission r = RejectStaleGeneration \<longleftrightarrow> \<not> token_mismatch r \<and> stale_generation r"
    by (simp_all add: base_admission_def split: option.split)
qed

lemma base_admission_queued:
  "req_status r = Some Queued \<Longrightarrow> \<not> token_mismatch r \<Longrightarrow> \<not> stale_generation r \<Longrightarrow>
   base_admission r = NotYetReady"
  by (simp add: base_admission_def)

text \<open>The kinded table over the base answer.\<close>

lemma admit_pull_gates:
  "admit_pull r m = RejectToken \<longleftrightarrow> base_admission r = RejectToken"
  "admit_pull r m = RejectStaleGeneration \<longleftrightarrow> base_admission r = RejectStaleGeneration"
  by (cases "mat_kind m"; cases "mat_job m"; cases "base_admission r"; simp add: admit_pull_def)+

lemma admit_pull_new:
  "admit_pull r m = DeliverNew \<longleftrightarrow>
     (case mat_kind m of
        Build \<Rightarrow> mat_job m = NoJob \<and> base_admission r = DeliverNew \<and> build_backoff_expired r
      | Materialization \<Rightarrow> mat_job m = Pending False
          \<and> (base_admission r = DeliverNew
             \<or> base_admission r = NotYetReady \<and> req_status r \<in> {Some Queued, Some Ready}))"
  by (cases "mat_kind m"; cases "mat_job m"; cases "base_admission r"; simp add: admit_pull_def)

lemma admit_pull_existing:
  "admit_pull r m = DeliverExisting x \<longleftrightarrow>
     base_admission r = DeliverExisting x
     \<and> (case mat_kind m of
          Build \<Rightarrow> mat_job m = NoJob
        | Materialization \<Rightarrow> mat_job m = Claimed True
            \<and> redelivery_credential_ok (resume_exec_id m) x (presented_nonce m) (attempt_nonce m))"
  by (cases "mat_kind m"; cases "mat_job m"; cases "base_admission r"; auto simp: admit_pull_def)

lemma base_not_ready:
  "base_admission r = NotYetReady \<and> req_status r \<in> {Some Queued, Some Ready} \<longleftrightarrow>
     \<not> token_mismatch r \<and> \<not> stale_generation r \<and> req_status r = Some Queued"
  using base_admission_queued [of r] by (auto simp: base_admission_def)

lemma redeliver_wait [simp]:
  "redeliver r = NotYetReady \<longleftrightarrow> (\<forall>x. open_attempt r \<noteq> Some (pulling_identity r, x))"
  by (auto simp: redeliver_def split: option.split)

lemma base_admission_gone:
  "base_admission r = Gone \<longleftrightarrow> \<not> token_mismatch r \<and> \<not> stale_generation r
     \<and> req_status r \<in> {None, Some Completed, Some Poisoned, Some DependencyFailed, Some Cancelled, Some Skipped}"
proof (cases "req_status r")
  case (Some st)
  then show ?thesis by (cases st) (simp_all add: base_admission_def)
qed (simp add: base_admission_def)

lemma base_admission_wait:
  "base_admission r = NotYetReady \<longleftrightarrow> \<not> token_mismatch r \<and> \<not> stale_generation r
     \<and> (req_status r \<in> {Some Created, Some Queued, Some Failed}
        \<or> req_status r \<in> {Some Assigned, Some Running}
          \<and> (\<forall>x. open_attempt r \<noteq> Some (pulling_identity r, x)))"
proof (cases "req_status r")
  case (Some st)
  then show ?thesis by (cases st) (simp_all add: base_admission_def)
qed (simp add: base_admission_def)

lemma admit_pull_gone:
  "admit_pull r m = Gone \<longleftrightarrow> base_admission r = Gone
     \<or> mat_kind m = Materialization \<and> mat_job m = NoJob
       \<and> base_admission r \<noteq> RejectToken \<and> base_admission r \<noteq> RejectStaleGeneration"
  by (cases "mat_kind m"; cases "mat_job m"; cases "base_admission r"; simp add: admit_pull_def)

lemma admit_pull_wait:
  "admit_pull r m = NotYetReady \<longleftrightarrow>
     (case (mat_kind m, mat_job m) of
        (Build, NoJob) \<Rightarrow>
          base_admission r = NotYetReady \<or> base_admission r = DeliverNew \<and> \<not> build_backoff_expired r
      | (Build, _) \<Rightarrow> base_admission r \<in> {NotYetReady, DeliverNew} \<or> (\<exists>x. base_admission r = DeliverExisting x)
      | (Materialization, NoJob) \<Rightarrow> False
      | (Materialization, Pending parked) \<Rightarrow>
          base_admission r = NotYetReady \<and> (parked \<or> req_status r \<notin> {Some Queued, Some Ready})
          \<or> base_admission r = DeliverNew \<and> parked \<or> (\<exists>x. base_admission r = DeliverExisting x)
      | (Materialization, Claimed held) \<Rightarrow>
          base_admission r \<in> {NotYetReady, DeliverNew}
          \<or> (\<exists>x. base_admission r = DeliverExisting x
               \<and> \<not> (held \<and> redelivery_credential_ok (resume_exec_id m) x (presented_nonce m) (attempt_nonce m))))"
  by (cases "mat_kind m"; cases "mat_job m"; cases "base_admission r"; auto simp: admit_pull_def)

lemmas base_admission_status = base_admission_wait base_admission_new base_admission_existing

text \<open>
  C4. Pull admission, exactly: each of the six answers of \<open>admit_pull\<close> is characterised over every
  input. Token and generation rejections dominate every other answer. Fresh work is
  minted only for a request that passed both gates and, on the build side, a ready node with
  no unresolved job and an expired backoff; on the materialization side, an unparked
  pending job of a ready or queued node. An existing attempt is re-delivered only to the
  identity that opened it, on the build side with no unresolved job, on the materialization
  side to the holder of the claim who presents its exec id or its claim nonce. A pull past both
  gates is told the work is gone exactly when the node is absent or settled, or when it asks
  for a materialization that has no job; and it is deferred exactly on the remaining inputs,
  listed by kind and job: on the build side a created, queued or failed node, a ready one in
  its backoff, an assigned or running one without an open attempt of the puller, and every
  unsettled node with an unresolved job; on the materialization side a parked job of a ready or queued
  node, a pending job of a node in any other unsettled status, and a claimed job that is not
  re-delivered.
\<close>

theorem pull_admission_exact:
  "(admit_pull r m = RejectToken \<longleftrightarrow> token_mismatch r)
   \<and> (admit_pull r m = RejectStaleGeneration \<longleftrightarrow> \<not> token_mismatch r \<and> stale_generation r)
   \<and> (admit_pull r m = DeliverNew \<longleftrightarrow>
        \<not> token_mismatch r \<and> \<not> stale_generation r
        \<and> (case mat_kind m of
             Build \<Rightarrow> mat_job m = NoJob \<and> req_status r = Some Ready \<and> build_backoff_expired r
           | Materialization \<Rightarrow> mat_job m = Pending False \<and> req_status r \<in> {Some Ready, Some Queued}))
   \<and> (admit_pull r m = DeliverExisting x \<longleftrightarrow>
        \<not> token_mismatch r \<and> \<not> stale_generation r \<and> req_status r \<in> {Some Assigned, Some Running}
        \<and> open_attempt r = Some (pulling_identity r, x)
        \<and> (case mat_kind m of
             Build \<Rightarrow> mat_job m = NoJob
           | Materialization \<Rightarrow> mat_job m = Claimed True
               \<and> (resume_exec_id m = Some x \<or> (\<exists>k. presented_nonce m = Some k \<and> attempt_nonce m = Some k))))
   \<and> (admit_pull r m = Gone \<longleftrightarrow>
        \<not> token_mismatch r \<and> \<not> stale_generation r
        \<and> (mat_kind m = Materialization \<and> mat_job m = NoJob
           \<or> req_status r \<in> {None, Some Completed, Some Poisoned, Some DependencyFailed, Some Cancelled,
                               Some Skipped}))
   \<and> (admit_pull r m = NotYetReady \<longleftrightarrow>
        \<not> token_mismatch r \<and> \<not> stale_generation r
        \<and> (case (mat_kind m, mat_job m) of
             (Build, NoJob) \<Rightarrow>
               req_status r \<in> {Some Created, Some Queued, Some Failed}
               \<or> req_status r = Some Ready \<and> \<not> build_backoff_expired r
               \<or> req_status r \<in> {Some Assigned, Some Running}
                 \<and> (\<forall>y. open_attempt r \<noteq> Some (pulling_identity r, y))
           | (Build, _) \<Rightarrow>
               req_status r \<in> {Some Created, Some Queued, Some Failed, Some Ready, Some Assigned, Some Running}
           | (Materialization, NoJob) \<Rightarrow> False
           | (Materialization, Pending parked) \<Rightarrow>
               req_status r \<in> {Some Created, Some Failed, Some Assigned, Some Running}
               \<or> parked \<and> req_status r \<in> {Some Ready, Some Queued}
           | (Materialization, Claimed held) \<Rightarrow>
               req_status r \<in> {Some Created, Some Queued, Some Failed, Some Ready}
               \<or> req_status r \<in> {Some Assigned, Some Running}
                 \<and> (\<nexists>y. held \<and> open_attempt r = Some (pulling_identity r, y)
                      \<and> (resume_exec_id m = Some y
                         \<or> (\<exists>k. presented_nonce m = Some k \<and> attempt_nonce m = Some k)))))"
  (is "_ \<and> _ \<and> _ \<and> _ \<and> (_ \<longleftrightarrow> ?gone) \<and> (_ \<longleftrightarrow> ?wait)")
proof (intro conjI)
  show "admit_pull r m = Gone \<longleftrightarrow> ?gone"
    unfolding admit_pull_gone base_admission_gone base_admission_gates by auto
  show "admit_pull r m = NotYetReady \<longleftrightarrow> ?wait"
    unfolding admit_pull_wait
    by (cases "mat_kind m"; cases "mat_job m"; auto simp: base_admission_status redelivery_credential_ok_def)
  show "admit_pull r m = RejectToken \<longleftrightarrow> token_mismatch r"
    by (simp add: admit_pull_gates base_admission_gates)
  show "admit_pull r m = RejectStaleGeneration \<longleftrightarrow> \<not> token_mismatch r \<and> stale_generation r"
    by (simp add: admit_pull_gates base_admission_gates)
  show "admit_pull r m = DeliverNew \<longleftrightarrow>
        \<not> token_mismatch r \<and> \<not> stale_generation r
        \<and> (case mat_kind m of
             Build \<Rightarrow> mat_job m = NoJob \<and> req_status r = Some Ready \<and> build_backoff_expired r
           | Materialization \<Rightarrow> mat_job m = Pending False \<and> req_status r \<in> {Some Ready, Some Queued})"
    unfolding admit_pull_new base_not_ready base_admission_new by (cases "mat_kind m") auto
  show "admit_pull r m = DeliverExisting x \<longleftrightarrow>
        \<not> token_mismatch r \<and> \<not> stale_generation r \<and> req_status r \<in> {Some Assigned, Some Running}
        \<and> open_attempt r = Some (pulling_identity r, x)
        \<and> (case mat_kind m of
             Build \<Rightarrow> mat_job m = NoJob
           | Materialization \<Rightarrow> mat_job m = Claimed True
               \<and> (resume_exec_id m = Some x \<or> (\<exists>k. presented_nonce m = Some k \<and> attempt_nonce m = Some k)))"
    unfolding admit_pull_existing base_admission_existing redelivery_credential_ok_def by (auto split: PullKind.split)
qed

text \<open>
  The confirm-exit fence, on the keyed lane: every answer that tells the builder nothing is or
  will be held is written ahead, every mint is screened, nothing else touches the fence.
\<close>

lemma fence_obligation_exact:
  "(fence_obligation a confirm lane = WriteAhead \<longleftrightarrow>
      lane = Keyed \<and> (a = Gone \<or> a = NotYetReady \<and> confirm))
   \<and> (fence_obligation a confirm lane = ScreenRead \<longleftrightarrow> lane = Keyed \<and> a = DeliverNew)"
  by (cases lane; cases a) (simp_all add: fence_obligation_def)

end
