(* ===== verification/Evidence_Route.thy ===== *)
theory Evidence_Route
  imports Evidence_Pull
begin

text \<open>
  The evidence judgments of \<open>rio-evidence-kernel\<close>: closure evidence (\<open>lib.rs\<close>), content agreement,
  visibility, settlement of writes, the establishment of expired attempts (\<open>establish.rs\<close>)
  and the routing of unobtainable materializations (\<open>routing.rs\<close>). Store paths are strings, a
  missing-path set is a set of strings.
\<close>

section \<open>Closure evidence\<close>

datatype ClosureEvidence = Vouched | Pending | ChildlessLeaf | Holed

fun evidence_loop :: "bool \<Rightarrow> bool list \<Rightarrow> bool \<times> bool" where
  "evidence_loop any_child [] = (any_child, True)"
| "evidence_loop any_child (produced # cs) = (if \<not> produced then (True, False) else evidence_loop True cs)"

definition closure_evidence :: "bool \<Rightarrow> bool list option \<Rightarrow> ClosureEvidence" where
  "closure_evidence present children =
     (if \<not> present then Holed
      else (case children of
              None \<Rightarrow> Holed
            | Some cs \<Rightarrow>
                (let (any_child, all_produced) = evidence_loop False cs
                 in if \<not> any_child then ChildlessLeaf
                    else if all_produced then Vouched else ClosureEvidence.Pending)))"

lemma evidence_loop_eq:
  "evidence_loop a cs = (a \<or> cs \<noteq> [], list_all (\<lambda>p. p) cs)"
  by (induction cs arbitrary: a) auto

lemma closure_evidence_cases:
  "closure_evidence present children = Vouched \<longleftrightarrow>
     present \<and> (\<exists>cs. children = Some cs \<and> cs \<noteq> [] \<and> list_all (\<lambda>p. p) cs)"
  "closure_evidence present children = ClosureEvidence.Pending \<longleftrightarrow>
     present \<and> (\<exists>cs. children = Some cs \<and> \<not> list_all (\<lambda>p. p) cs)"
  by (auto simp: closure_evidence_def evidence_loop_eq split: option.splits)

section \<open>Content, visibility, settlement\<close>

record ('h, 'r) ContentFacts =
  nar_hash :: 'h
  nar_size :: u64
  content_references :: 'r

definition already_complete_agrees :: "('h, 'r) ContentFacts \<Rightarrow> ('h, 'r) ContentFacts \<Rightarrow> bool" where
  "already_complete_agrees stored claimed \<longleftrightarrow>
     nar_hash stored = nar_hash claimed \<and> nar_size stored = nar_size claimed
     \<and> content_references stored = content_references claimed"

datatype VisibilityVerdict = Visible | Hidden

definition visibility_verdict :: "bool \<Rightarrow> bool \<Rightarrow> bool \<Rightarrow> VisibilityVerdict" where
  "visibility_verdict owned any_built sig_trusted =
     (if owned then Visible
      else if any_built then Hidden
      else if sig_trusted then Visible
      else Hidden)"

datatype WriteDisposition = Applied | AlreadyResolved | Fenced | WriteFailed

fun write_settled :: "WriteDisposition \<Rightarrow> bool" where
  "write_settled Applied = True"
| "write_settled AlreadyResolved = True"
| "write_settled Fenced = False"
| "write_settled WriteFailed = False"

datatype ConsumptionAck = Ack | NackRetryable

fun consumption_ack :: "WriteDisposition \<Rightarrow> ConsumptionAck" where
  "consumption_ack Applied = Ack"
| "consumption_ack AlreadyResolved = Ack"
| "consumption_ack Fenced = Ack"
| "consumption_ack WriteFailed = NackRetryable"

datatype CompanionFollowUp = Settled | Inert | ReleaseClaimFallback

fun companion_follow_up :: "WriteDisposition \<Rightarrow> CompanionFollowUp" where
  "companion_follow_up Applied = Settled"
| "companion_follow_up AlreadyResolved = Settled"
| "companion_follow_up Fenced = Inert"
| "companion_follow_up WriteFailed = ReleaseClaimFallback"

section \<open>Establishment of expired attempts\<close>

datatype NodeDisposition = WantedLive | NodeCancelled | TerminalSettled | Absent

datatype NodeStatusClass = LiveStatus | CancelledStatus | SettledStatus

datatype NodeProjection = Node NodeDisposition | NoAuthority

definition project_node :: "NodeStatusClass option \<Rightarrow> bool \<Rightarrow> NodeProjection" where
  "project_node status dag_authoritative =
     (if \<not> dag_authoritative then NoAuthority
      else Node (case status of
                   None \<Rightarrow> Absent
                 | Some LiveStatus \<Rightarrow> WantedLive
                 | Some CancelledStatus \<Rightarrow> NodeCancelled
                 | Some SettledStatus \<Rightarrow> TerminalSettled))"

record VerifiedPresent =
  verified_present_paths :: "string list"

datatype EstablishmentAction =
    AdoptCompletedAction VerifiedPresent
  | ChargeExecutorCrashAction
  | ChargeMaterializationInfraAction
  | DeferAction
  | CloseChargeFreeAction

datatype ProbeEvidence = Verified "string set" | ProbeUnavailable | ProbeNoStoreConfigured

datatype EstablishmentDisposition =
    AdoptCompleted
  | ChargeExecutorCrash
  | ChargeMaterializationInfra
  | Defer
  | CloseChargeFree

datatype ProbeClass =
    VerifiedAllWantedPresent
  | VerifiedMissingWanted
  | VerifiedNothingVerifiable
  | Unavailable
  | NoStoreConfigured

definition classify_probe :: "ProbeEvidence \<Rightarrow> string list option \<Rightarrow> ProbeClass" where
  "classify_probe probe verifiable_wanted =
     (case probe of
        ProbeUnavailable \<Rightarrow> Unavailable
      | ProbeNoStoreConfigured \<Rightarrow> NoStoreConfigured
      | Verified missing \<Rightarrow>
          (case verifiable_wanted of
             Some wanted \<Rightarrow>
               if wanted \<noteq> []
               then (if list_all (\<lambda>p. p \<notin> missing) wanted then VerifiedAllWantedPresent
                     else VerifiedMissingWanted)
               else VerifiedNothingVerifiable
           | None \<Rightarrow> VerifiedNothingVerifiable))"

definition establish_from_classes ::
  "PullKind \<Rightarrow> NodeDisposition \<Rightarrow> ProbeClass \<Rightarrow> EstablishmentDisposition" where
  "establish_from_classes k node probe =
     (case node of
        NodeCancelled \<Rightarrow> CloseChargeFree
      | Absent \<Rightarrow> CloseChargeFree
      | TerminalSettled \<Rightarrow> CloseChargeFree
      | WantedLive \<Rightarrow>
          (case k of
             Materialization \<Rightarrow> ChargeMaterializationInfra
           | Build \<Rightarrow>
               (case probe of
                  Unavailable \<Rightarrow> Defer
                | NoStoreConfigured \<Rightarrow> ChargeExecutorCrash
                | VerifiedAllWantedPresent \<Rightarrow> AdoptCompleted
                | VerifiedMissingWanted \<Rightarrow> ChargeExecutorCrash
                | VerifiedNothingVerifiable \<Rightarrow> ChargeExecutorCrash)))"

text \<open>\<open>None\<close> is the panic of the \<open>expect\<close> on the wanted set.\<close>

definition establish_expired_attempt ::
  "PullKind \<Rightarrow> NodeDisposition \<Rightarrow> ProbeEvidence \<Rightarrow> string list option \<Rightarrow> EstablishmentAction option" where
  "establish_expired_attempt k node probe verifiable_wanted =
     (case establish_from_classes k node (classify_probe probe verifiable_wanted) of
        AdoptCompleted \<Rightarrow>
          (case verifiable_wanted of
             Some wanted \<Rightarrow> Some (AdoptCompletedAction \<lparr>verified_present_paths = wanted\<rparr>)
           | None \<Rightarrow> None)
      | ChargeExecutorCrash \<Rightarrow> Some ChargeExecutorCrashAction
      | ChargeMaterializationInfra \<Rightarrow> Some ChargeMaterializationInfraAction
      | Defer \<Rightarrow> Some DeferAction
      | CloseChargeFree \<Rightarrow> Some CloseChargeFreeAction)"

lemma classify_probe_present:
  "classify_probe probe wanted = VerifiedAllWantedPresent \<longleftrightarrow>
     (\<exists>missing ws. probe = Verified missing \<and> wanted = Some ws \<and> ws \<noteq> [] \<and> set ws \<inter> missing = {})"
  by (auto simp: classify_probe_def list_all_iff split: ProbeEvidence.splits option.splits)

lemma classify_probe_unavailable:
  "classify_probe probe wanted = Unavailable \<longleftrightarrow> probe = ProbeUnavailable"
  by (auto simp: classify_probe_def split: ProbeEvidence.splits option.splits)

lemma establish_adopt:
  "establish_from_classes k node pc = AdoptCompleted \<longleftrightarrow>
     k = Build \<and> node = WantedLive \<and> pc = VerifiedAllWantedPresent"
  by (cases k; cases node; cases pc) (simp_all add: establish_from_classes_def)

lemma establish_defer:
  "establish_from_classes k node pc = Defer \<longleftrightarrow> k = Build \<and> node = WantedLive \<and> pc = Unavailable"
  by (cases k; cases node; cases pc) (simp_all add: establish_from_classes_def)

lemma establish_close:
  "establish_from_classes k node pc = CloseChargeFree \<longleftrightarrow> node \<noteq> WantedLive"
  by (cases k; cases node; cases pc) (simp_all add: establish_from_classes_def)

lemma establish_crash:
  "establish_from_classes k node pc = ChargeExecutorCrash \<longleftrightarrow>
     k = Build \<and> node = WantedLive \<and> pc \<notin> {Unavailable, VerifiedAllWantedPresent}"
  by (cases k; cases node; cases pc) (simp_all add: establish_from_classes_def)

lemma establish_infra:
  "establish_from_classes k node pc = ChargeMaterializationInfra \<longleftrightarrow> k = Materialization \<and> node = WantedLive"
  by (cases k; cases node; cases pc) (simp_all add: establish_from_classes_def)

text \<open>The crash charge, in terms of what the probe answered.\<close>

lemma classify_probe_charged:
  "classify_probe probe wanted \<notin> {Unavailable, VerifiedAllWantedPresent} \<longleftrightarrow>
     probe = ProbeNoStoreConfigured
     \<or> (\<exists>missing. probe = Verified missing
          \<and> (wanted = None \<or> wanted = Some [] \<or> (\<exists>ws. wanted = Some ws \<and> set ws \<inter> missing \<noteq> {})))"
  by (auto simp: classify_probe_def list_all_iff split: ProbeEvidence.splits option.splits)

text \<open>
  C29. Establishing an expired attempt never panics, and each of its five answers is given exactly on
  the evidence it names. The attempt of a node that is no longer live is closed without a charge,
  whatever the probe said. On a live node an expired materialization is charged as
  infrastructure; an expired build is adopted when the probe verified its non-empty wanted
  set present (and then exactly that set is adopted), deferred while the probe is unavailable,
  and charged as an executor crash otherwise: with no store configured, with nothing
  verifiable, or with a wanted path missing.
\<close>

theorem establishment_sound:
  "establish_expired_attempt k node probe wanted \<noteq> None
   \<and> (establish_expired_attempt k node probe wanted = Some (AdoptCompletedAction vp) \<longleftrightarrow>
        k = Build \<and> node = WantedLive
        \<and> (\<exists>missing. probe = Verified missing \<and> wanted = Some (verified_present_paths vp)
             \<and> verified_present_paths vp \<noteq> [] \<and> set (verified_present_paths vp) \<inter> missing = {}))
   \<and> (establish_expired_attempt k node probe wanted = Some DeferAction \<longleftrightarrow>
        k = Build \<and> node = WantedLive \<and> probe = ProbeUnavailable)
   \<and> (establish_expired_attempt k node probe wanted = Some ChargeExecutorCrashAction \<longleftrightarrow>
        k = Build \<and> node = WantedLive
        \<and> (probe = ProbeNoStoreConfigured
           \<or> (\<exists>missing. probe = Verified missing
                \<and> (wanted = None \<or> wanted = Some [] \<or> (\<exists>ws. wanted = Some ws \<and> set ws \<inter> missing \<noteq> {})))))
   \<and> (establish_expired_attempt k node probe wanted = Some ChargeMaterializationInfraAction \<longleftrightarrow>
        k = Materialization \<and> node = WantedLive)
   \<and> (establish_expired_attempt k node probe wanted = Some CloseChargeFreeAction \<longleftrightarrow> node \<noteq> WantedLive)"
proof -
  let ?d = "establish_from_classes k node (classify_probe probe wanted)"
  note facts = establish_adopt [of k node "classify_probe probe wanted"]
    establish_defer [of k node "classify_probe probe wanted"]
    establish_close [of k node "classify_probe probe wanted"]
    establish_crash [of k node "classify_probe probe wanted"]
    establish_infra [of k node "classify_probe probe wanted"]
    classify_probe_charged [of probe wanted]
    classify_probe_present [of probe wanted] classify_probe_unavailable [of probe wanted]
  show ?thesis
  proof (cases "?d = AdoptCompleted")
    case True
    then obtain missing ws where "k = Build" "node = WantedLive" "probe = Verified missing"
        "wanted = Some ws" "ws \<noteq> []" "set ws \<inter> missing = {}"
      using facts by auto
    with True show ?thesis by (cases vp) (auto simp: establish_expired_attempt_def)
  next
    case False
    with facts show ?thesis
      by (cases ?d) (auto simp: establish_expired_attempt_def)
  qed
qed

section \<open>Routing unobtainable materializations\<close>

datatype UnobtainableRouting = CompleteForLiveInterest | ReArm | ResolveFromSource | FailFast

datatype ReprobeAnswer = Obtainable | ConfirmedMissing

datatype Refusal = NoRefusal | Trust | Content | TrustAndContent | Unrecognized

fun is_refused :: "Refusal \<Rightarrow> bool" where
  "is_refused NoRefusal = False"
| "is_refused Trust = True"
| "is_refused Content = True"
| "is_refused TrustAndContent = True"
| "is_refused Unrecognized = True"

datatype LiveWanted = LiveWanted (wanted_paths: "string list")

definition live_wanted_new :: "string list \<Rightarrow> LiveWanted option" where
  "live_wanted_new paths =
     (if paths = [] \<or> list_ex (\<lambda>p. p = []) paths then None else Some (LiveWanted paths))"

definition live_wanted_contains :: "LiveWanted \<Rightarrow> string \<Rightarrow> bool" where
  "live_wanted_contains lw path = list_ex (\<lambda>p. p = path) (wanted_paths lw)"

record RoutingInputs =
  missing_paths :: "string list"
  missing_references :: "string list"
  verified_paths :: "string list"
  live_wanted_paths :: LiveWanted
  durable_evidence :: ClosureEvidence
  prior_unobtainable_count :: u32
  reprobe :: "ReprobeAnswer option"
  pruned_origin :: bool
  refusal :: Refusal

definition route_from_classes ::
  "bool \<Rightarrow> bool \<Rightarrow> bool \<Rightarrow> ClosureEvidence \<Rightarrow> bool \<Rightarrow> ReprobeAnswer option \<Rightarrow> bool \<Rightarrow> Refusal \<Rightarrow> UnobtainableRouting" where
  "route_from_classes missing_live refs_missing covered evidence one_shot_spent answer pruned refused =
     (if \<not> missing_live \<and> \<not> refs_missing then (if covered then CompleteForLiveInterest else ReArm)
      else if evidence = Vouched \<or> evidence = ClosureEvidence.Pending then ResolveFromSource
      else if refused \<noteq> NoRefusal then ResolveFromSource
      else if answer = Some Obtainable \<and> \<not> one_shot_spent then ReArm
      else if pruned then FailFast
      else ResolveFromSource)"

definition route_unobtainable :: "RoutingInputs \<Rightarrow> UnobtainableRouting" where
  "route_unobtainable inputs =
     (let missing_live = list_ex (\<lambda>p. live_wanted_contains (live_wanted_paths inputs) p) (missing_paths inputs);
          covered = list_all (\<lambda>w. w \<in> set (verified_paths inputs)) (wanted_paths (live_wanted_paths inputs))
      in route_from_classes missing_live (missing_references inputs \<noteq> []) covered
           (durable_evidence inputs) (prior_unobtainable_count inputs > 0) (reprobe inputs)
           (pruned_origin inputs) (refusal inputs))"

definition success_covers_live_wanted :: "string list \<Rightarrow> string list \<Rightarrow> LiveWanted \<Rightarrow> bool" where
  "success_covers_live_wanted ingested verified lw =
     list_all (\<lambda>w. w \<in> set ingested \<or> w \<in> set verified) (wanted_paths lw)"

text \<open>
  C17. Routing an unobtainable materialization: each of the four routes is taken exactly on the
  evidence it names. Where neither a live-wanted path nor a reference is missing, the job
  completes when every live-wanted path was verified and re-arms otherwise. Where something is
  missing, it resolves from source when the durable closure vouches for a build (produced or
  pending children) or anything was refused; otherwise it re-arms when the re-probe found
  the path obtainable and the one re-arm is unspent; otherwise it fails fast when the origin
  is pruned and resolves from source when it is not. So a node with a vouched or pending
  closure never fails fast.
\<close>

theorem routing_sound:
  "(route_unobtainable i = CompleteForLiveInterest \<longleftrightarrow>
      set (missing_paths i) \<inter> set (wanted_paths (live_wanted_paths i)) = {} \<and> missing_references i = []
      \<and> set (wanted_paths (live_wanted_paths i)) \<subseteq> set (verified_paths i))
   \<and> (route_unobtainable i = FailFast \<longleftrightarrow>
      (set (missing_paths i) \<inter> set (wanted_paths (live_wanted_paths i)) \<noteq> {} \<or> missing_references i \<noteq> [])
      \<and> durable_evidence i \<in> {ChildlessLeaf, Holed} \<and> \<not> is_refused (refusal i) \<and> pruned_origin i
      \<and> (reprobe i = Some Obtainable \<longrightarrow> prior_unobtainable_count i > 0))
   \<and> (route_unobtainable i = ReArm \<longleftrightarrow>
      (if set (missing_paths i) \<inter> set (wanted_paths (live_wanted_paths i)) = {} \<and> missing_references i = []
       then \<not> set (wanted_paths (live_wanted_paths i)) \<subseteq> set (verified_paths i)
       else durable_evidence i \<in> {ChildlessLeaf, Holed} \<and> \<not> is_refused (refusal i)
            \<and> reprobe i = Some Obtainable \<and> prior_unobtainable_count i = 0))
   \<and> (route_unobtainable i = ResolveFromSource \<longleftrightarrow>
      (set (missing_paths i) \<inter> set (wanted_paths (live_wanted_paths i)) \<noteq> {} \<or> missing_references i \<noteq> [])
      \<and> (durable_evidence i \<in> {Vouched, ClosureEvidence.Pending} \<or> is_refused (refusal i)
         \<or> (\<not> pruned_origin i \<and> (reprobe i = Some Obtainable \<longrightarrow> prior_unobtainable_count i > 0))))"
proof -
  have live: "list_ex (\<lambda>p. live_wanted_contains (live_wanted_paths i) p) (missing_paths i) \<longleftrightarrow>
      set (missing_paths i) \<inter> set (wanted_paths (live_wanted_paths i)) \<noteq> {}"
    by (auto simp: list_ex_iff live_wanted_contains_def)
  have refused: "is_refused (refusal i) \<longleftrightarrow> refusal i \<noteq> NoRefusal" by (cases "refusal i") simp_all
  show ?thesis
    unfolding route_unobtainable_def Let_def live refused
    by (cases "durable_evidence i"; intro conjI; force simp: route_from_classes_def list_all_iff word_gt_0)
qed

theorem routing_sound_witness:
  "route_unobtainable \<lparr>missing_paths = [''a''], missing_references = [], verified_paths = [],
     live_wanted_paths = LiveWanted [''a''], durable_evidence = Holed, prior_unobtainable_count = 0,
     reprobe = Some ConfirmedMissing, pruned_origin = True, refusal = NoRefusal\<rparr> = FailFast"
  using routing_sound [of "\<lparr>missing_paths = [''a''], missing_references = [], verified_paths = [],
     live_wanted_paths = LiveWanted [''a''], durable_evidence = Holed, prior_unobtainable_count = 0,
     reprobe = Some ConfirmedMissing, pruned_origin = True, refusal = NoRefusal\<rparr>"]
  by simp

end
