(* ===== verification/Evidence_Outcome.thy ===== *)
theory Evidence_Outcome
  imports Evidence_Route "HOL-Library.Multiset"
begin

text \<open>
  Outcomes of substitution attempts (\<open>rio-evidence-kernel/src/outcome.rs\<close>): failure classes, the
  per-upstream loop cells and their fold, the per-tenant attempts and their fold, the re-probe
  fold over tenants, and the generation-stamped verdict cells. A \<open>Duration\<close> is its nanosecond
  count; index loops are recursions over the list with the running index.
\<close>

section \<open>Failure classes\<close>

type_synonym Duration = nat

datatype SubstituteFailureClass =
    Raced | RateLimited | Stalled | AdmissionSaturated | Fetch | Integrity | Ingest | Untrusted
  | ContentMismatch

datatype FailureDisposition = RetryUncharged | ChargeInfra | TrustRefusal | ContentRefusal

fun classify_substitute_failure :: "SubstituteFailureClass \<Rightarrow> FailureDisposition" where
  "classify_substitute_failure Raced = RetryUncharged"
| "classify_substitute_failure RateLimited = RetryUncharged"
| "classify_substitute_failure Stalled = ChargeInfra"
| "classify_substitute_failure AdmissionSaturated = ChargeInfra"
| "classify_substitute_failure Fetch = ChargeInfra"
| "classify_substitute_failure Integrity = ChargeInfra"
| "classify_substitute_failure Ingest = ChargeInfra"
| "classify_substitute_failure Untrusted = TrustRefusal"
| "classify_substitute_failure ContentMismatch = ContentRefusal"

fun disposition_tier :: "FailureDisposition \<Rightarrow> 8 word" where
  "disposition_tier ChargeInfra = 0"
| "disposition_tier RetryUncharged = 1"
| "disposition_tier TrustRefusal = 2"
| "disposition_tier ContentRefusal = 3"

definition SUBSTITUTE_FAILURE_CLASS_COUNT :: "8 word" where
  "SUBSTITUTE_FAILURE_CLASS_COUNT = 9"

fun class_index :: "SubstituteFailureClass \<Rightarrow> 8 word" where
  "class_index Raced = 0"
| "class_index RateLimited = 1"
| "class_index Stalled = 2"
| "class_index AdmissionSaturated = 3"
| "class_index Fetch = 4"
| "class_index Integrity = 5"
| "class_index Ingest = 6"
| "class_index Untrusted = 7"
| "class_index ContentMismatch = 8"

definition class_of_index :: "8 word \<Rightarrow> SubstituteFailureClass" where
  "class_of_index sel =
     (let k = sel mod SUBSTITUTE_FAILURE_CLASS_COUNT in
      if k = 0 then Raced else if k = 1 then RateLimited else if k = 2 then Stalled
      else if k = 3 then AdmissionSaturated else if k = 4 then Fetch else if k = 5 then Integrity
      else if k = 6 then Ingest else if k = 7 then Untrusted else ContentMismatch)"

lemma class_index_roundtrip: "class_of_index (class_index c) = c"
  by (cases c) (simp_all add: class_of_index_def SUBSTITUTE_FAILURE_CLASS_COUNT_def)

section \<open>Re-probing over tenants\<close>

datatype PathProbeCell = Present | Substitutable | Indeterminate | Missing

record TenantPathAnswers =
  cells :: "PathProbeCell list"
  can_confirm :: bool

text \<open>The first \<open>while\<close>: every tenant can confirm and answers for the same number of paths.\<close>

fun confirmable_loop :: "nat \<Rightarrow> TenantPathAnswers list \<Rightarrow> bool" where
  "confirmable_loop n [] = True"
| "confirmable_loop n (t # ts) =
     (if \<not> can_confirm t \<or> length (cells t) \<noteq> n then False else confirmable_loop n ts)"

fun missing_everywhere_loop :: "nat \<Rightarrow> TenantPathAnswers list \<Rightarrow> bool" where
  "missing_everywhere_loop p [] = True"
| "missing_everywhere_loop p (t # ts) =
     (if cells t ! p \<noteq> Missing then False else missing_everywhere_loop p ts)"

fun path_loop :: "TenantPathAnswers list \<Rightarrow> nat \<Rightarrow> nat \<Rightarrow> ReprobeAnswer" where
  "path_loop tenants p 0 = Obtainable"
| "path_loop tenants p (Suc left) =
     (if missing_everywhere_loop p tenants then ConfirmedMissing else path_loop tenants (p + 1) left)"

fun fold_path_reprobes :: "TenantPathAnswers list \<Rightarrow> ReprobeAnswer" where
  "fold_path_reprobes [] = Obtainable"
| "fold_path_reprobes (t # ts) =
     (if \<not> confirmable_loop (length (cells t)) (t # ts) then Obtainable
      else path_loop (t # ts) 0 (length (cells t)))"

lemma confirmable_loop_iff:
  "confirmable_loop n ts \<longleftrightarrow> (\<forall>t\<in>set ts. can_confirm t \<and> length (cells t) = n)"
  by (induction ts) auto

lemma missing_everywhere_iff:
  "missing_everywhere_loop p ts \<longleftrightarrow> (\<forall>t\<in>set ts. cells t ! p = Missing)"
  by (induction ts) auto

lemma path_loop_iff:
  "path_loop ts p left = ConfirmedMissing \<longleftrightarrow> (\<exists>q. p \<le> q \<and> q < p + left \<and> missing_everywhere_loop q ts)"
proof (induction left arbitrary: p)
  case (Suc left)
  show ?case
  proof (cases "missing_everywhere_loop p ts")
    case True
    then show ?thesis by (auto intro: exI [of _ p])
  next
    case False
    hence "path_loop ts p (Suc left) = ConfirmedMissing \<longleftrightarrow> path_loop ts (p + 1) left = ConfirmedMissing" by simp
    also have "\<dots> \<longleftrightarrow> (\<exists>q. p + 1 \<le> q \<and> q < p + 1 + left \<and> missing_everywhere_loop q ts)" by (rule Suc.IH)
    also have "\<dots> \<longleftrightarrow> (\<exists>q. p \<le> q \<and> q < p + Suc left \<and> missing_everywhere_loop q ts)"
      using False by (metis Suc_eq_plus1 Suc_leD Suc_leI add_Suc add_Suc_right le_neq_implies_less)
    finally show ?thesis .
  qed
qed simp

text \<open>
  The re-probe confirms a loss only on unanimous evidence: the answer is \<open>ConfirmedMissing\<close> if and
  only if there is a tenant, every tenant can confirm and answered for the same number of
  paths, and some one path is missing for all of them. Anything less, an indeterminate or
  unconfirmable answer included, keeps the paths obtainable.
\<close>

lemma reprobe_confirms_unanimously:
  "fold_path_reprobes ts = ConfirmedMissing \<longleftrightarrow>
     ts \<noteq> [] \<and> list_all (\<lambda>t. can_confirm t \<and> length (cells t) = length (cells (hd ts))) ts
     \<and> (\<exists>p < length (cells (hd ts)). list_all (\<lambda>t. cells t ! p = Missing) ts)"
proof (cases ts)
  case (Cons t us)
  have "fold_path_reprobes ts = ConfirmedMissing \<longleftrightarrow>
      confirmable_loop (length (cells t)) ts \<and> path_loop ts 0 (length (cells t)) = ConfirmedMissing"
    unfolding Cons by (simp del: confirmable_loop.simps path_loop.simps)
  thus ?thesis
    unfolding confirmable_loop_iff path_loop_iff missing_everywhere_iff by (auto simp: Cons list_all_iff)
qed simp

section \<open>The upstream loop\<close>

datatype LoopControl = Continue | AbortRaced

record SubstituteLoopCells =
  any_stall :: "Duration option"
  any_429 :: "Duration option option"
  any_errored :: bool
  any_untrusted :: bool
  any_content_mismatch :: bool

definition loop_cells_new :: SubstituteLoopCells where
  "loop_cells_new = \<lparr>any_stall = None, any_429 = None, any_errored = False, any_untrusted = False,
     any_content_mismatch = False\<rparr>"

fun loop_record ::
  "SubstituteLoopCells \<Rightarrow> SubstituteFailureClass \<Rightarrow> Duration option \<Rightarrow> SubstituteLoopCells \<times> LoopControl" where
  "loop_record c Raced advice = (c, AbortRaced)"
| "loop_record c Stalled advice =
     (let window = (case advice of Some w \<Rightarrow> w | None \<Rightarrow> 0)
      in (c\<lparr>any_stall := Some (case any_stall c of Some prev \<Rightarrow> max prev window | None \<Rightarrow> window)\<rparr>, Continue))"
| "loop_record c RateLimited advice =
     (c\<lparr>any_429 := Some (case (Option.bind (any_429 c) id, advice) of
                            (Some prev, Some ra) \<Rightarrow> Some (max prev ra)
                          | (Some prev, None) \<Rightarrow> Some prev
                          | (None, ra) \<Rightarrow> ra)\<rparr>, Continue)"
| "loop_record c Untrusted advice = (c\<lparr>any_untrusted := True\<rparr>, Continue)"
| "loop_record c ContentMismatch advice = (c\<lparr>any_content_mismatch := True\<rparr>, Continue)"
| "loop_record c _ advice = (c\<lparr>any_errored := True\<rparr>, Continue)"

datatype SubstituteLoopVerdict =
    CleanMissVerdict
  | StalledVerdict Duration
  | RateLimitedVerdict "Duration option"
  | Errored
  | UntrustedPresentVerdict
  | ContentMismatchVerdict

definition fold_substitute_loop :: "SubstituteLoopCells \<Rightarrow> SubstituteLoopVerdict" where
  "fold_substitute_loop c =
     (case any_stall c of
        Some window \<Rightarrow> StalledVerdict window
      | None \<Rightarrow>
          if any_errored c then Errored
          else (case any_429 c of
                  Some retry_after \<Rightarrow> RateLimitedVerdict retry_after
                | None \<Rightarrow>
                    if any_untrusted c then UntrustedPresentVerdict
                    else if any_content_mismatch c then ContentMismatchVerdict
                    else CleanMissVerdict))"

section \<open>The tenant attempts\<close>

datatype TenantAttemptEvidence =
    Charge SubstituteFailureClass
  | TransientAttempt "Duration option"
  | CleanMiss
  | UntrustedPresent
  | ContentMismatchAttempt

record TenantAttemptCells =
  attempt_cells :: "TenantAttemptEvidence list"

definition record_clean_miss :: "TenantAttemptCells \<Rightarrow> TenantAttemptCells" where
  "record_clean_miss c = c\<lparr>attempt_cells := attempt_cells c @ [CleanMiss]\<rparr>"

definition record_failure ::
  "TenantAttemptCells \<Rightarrow> SubstituteFailureClass \<Rightarrow> Duration option \<Rightarrow> TenantAttemptCells \<times> LoopControl" where
  "record_failure c cls retry_after =
     (let push = (\<lambda>e. c\<lparr>attempt_cells := attempt_cells c @ [e]\<rparr>)
      in case classify_substitute_failure cls of
           RetryUncharged \<Rightarrow> (push (TransientAttempt retry_after), if cls = Raced then AbortRaced else Continue)
         | ChargeInfra \<Rightarrow> (push (Charge cls), Continue)
         | TrustRefusal \<Rightarrow> (push UntrustedPresent, Continue)
         | ContentRefusal \<Rightarrow> (push ContentMismatchAttempt, Continue))"

datatype TenantAttemptsVerdict =
    ChargeInfraAt nat
  | RetryTransientAt nat "Duration option"
  | UntrustedPresentAt nat
  | ContentMismatchAt nat
  | AllCleanMiss

record AttemptFold =
  first_charge :: "nat option"
  best_transient :: "(nat \<times> Duration option) option"
  first_untrusted :: "nat option"
  first_content :: "nat option"

definition or_first :: "nat option \<Rightarrow> nat \<Rightarrow> nat option" where
  "or_first x i = (if x = None then Some i else x)"

definition better_transient ::
  "(nat \<times> Duration option) option \<Rightarrow> nat \<Rightarrow> Duration option \<Rightarrow> nat \<times> Duration option" where
  "better_transient best i retry_after =
     (case best of
        Some (pi, prev) \<Rightarrow>
          (case (prev, retry_after) of
             (None, Some _) \<Rightarrow> (i, retry_after)
           | (Some p, Some r) \<Rightarrow> if r > p then (i, retry_after) else (pi, prev)
           | _ \<Rightarrow> (pi, prev))
      | None \<Rightarrow> (i, retry_after))"

definition attempt_step :: "AttemptFold \<Rightarrow> nat \<Rightarrow> TenantAttemptEvidence \<Rightarrow> AttemptFold" where
  "attempt_step f i c =
     (case c of
        Charge _ \<Rightarrow> f\<lparr>first_charge := or_first (first_charge f) i\<rparr>
      | TransientAttempt ra \<Rightarrow> f\<lparr>best_transient := Some (better_transient (best_transient f) i ra)\<rparr>
      | UntrustedPresent \<Rightarrow> f\<lparr>first_untrusted := or_first (first_untrusted f) i\<rparr>
      | ContentMismatchAttempt \<Rightarrow> f\<lparr>first_content := or_first (first_content f) i\<rparr>
      | CleanMiss \<Rightarrow> f)"

fun attempts_loop :: "AttemptFold \<Rightarrow> nat \<Rightarrow> TenantAttemptEvidence list \<Rightarrow> AttemptFold" where
  "attempts_loop f i [] = f"
| "attempts_loop f i (c # cs) = attempts_loop (attempt_step f i c) (i + 1) cs"

definition fold_tenant_attempts :: "TenantAttemptEvidence list \<Rightarrow> TenantAttemptsVerdict" where
  "fold_tenant_attempts cs =
     (let f = attempts_loop \<lparr>first_charge = None, best_transient = None, first_untrusted = None,
                             first_content = None\<rparr> 0 cs
      in case first_charge f of
           Some idx \<Rightarrow> ChargeInfraAt idx
         | None \<Rightarrow>
             (case best_transient f of
                Some (idx, mx) \<Rightarrow> RetryTransientAt idx mx
              | None \<Rightarrow>
                  (case first_untrusted f of
                     Some idx \<Rightarrow> UntrustedPresentAt idx
                   | None \<Rightarrow>
                       (case first_content f of
                          Some idx \<Rightarrow> ContentMismatchAt idx
                        | None \<Rightarrow> AllCleanMiss))))"

definition attempts_fold :: "TenantAttemptCells \<Rightarrow> TenantAttemptsVerdict" where
  "attempts_fold c = fold_tenant_attempts (attempt_cells c)"

section \<open>Generation-stamped cells\<close>

record StaleVerdictCell =
  cell_generation :: u64
  final_generation :: u64

record GenStampedCells =
  stamped :: "(string \<times> u64) list"

definition gen_record :: "GenStampedCells \<Rightarrow> string \<Rightarrow> u64 \<Rightarrow> GenStampedCells" where
  "gen_record g path generation = g\<lparr>stamped := stamped g @ [(path, generation)]\<rparr>"

fun retain_loop :: "u64 \<Rightarrow> (string \<times> u64) list \<Rightarrow> string list \<times> (string \<times> u64) list" where
  "retain_loop current [] = ([], [])"
| "retain_loop current ((path, generation) # cs) =
     (let (stale, kept) = retain_loop current cs
      in if generation < current then (path # stale, kept) else (stale, (path, generation) # kept))"

definition drain_stale :: "GenStampedCells \<Rightarrow> u64 \<Rightarrow> string list \<times> GenStampedCells" where
  "drain_stale g current_generation =
     (let (stale, kept) = retain_loop current_generation (stamped g)
      in (stale, g\<lparr>stamped := kept\<rparr>))"

fun guard_loop :: "u64 \<Rightarrow> (string \<times> u64) list \<Rightarrow> StaleVerdictCell option" where
  "guard_loop final [] = None"
| "guard_loop final ((path, generation) # cs) =
     (if generation \<noteq> final then Some \<lparr>cell_generation = generation, final_generation = final\<rparr>
      else guard_loop final cs)"

definition fold_guard :: "GenStampedCells \<Rightarrow> u64 \<Rightarrow> StaleVerdictCell + unit" where
  "fold_guard g final =
     (case guard_loop final (stamped g) of Some err \<Rightarrow> Inl err | None \<Rightarrow> Inr ())"

definition gen_contains :: "GenStampedCells \<Rightarrow> string \<Rightarrow> bool" where
  "gen_contains g path = list_ex (\<lambda>(p, _). p = path) (stamped g)"

lemma retain_loop_eq:
  "retain_loop current cs =
     (map fst (filter (\<lambda>c. snd c < current) cs), filter (\<lambda>c. \<not> snd c < current) cs)"
  by (induction cs) auto

lemma guard_loop_None: "guard_loop final cs = None \<longleftrightarrow> list_all (\<lambda>c. snd c = final) cs"
  by (induction cs) (auto split: if_splits)

text \<open>
  Draining hands back exactly the paths stamped before the current generation, in order, and
  keeps the rest; the guard passes exactly when every cell carries the final generation.
\<close>

lemma generation_cells:
  "drain_stale g current =
     (map fst (filter (\<lambda>c. snd c < current) (stamped g)),
      g\<lparr>stamped := filter (\<lambda>c. \<not> snd c < current) (stamped g)\<rparr>)
   \<and> (fold_guard g final = Inr () \<longleftrightarrow> list_all (\<lambda>c. snd c = final) (stamped g))"
  using guard_loop_None [of final "stamped g"]
  by (auto simp: drain_stale_def retain_loop_eq fold_guard_def split: option.split)

section \<open>The tenant fold answers by precedence\<close>

fun first_index :: "('a \<Rightarrow> bool) \<Rightarrow> 'a list \<Rightarrow> nat option" where
  "first_index P [] = None"
| "first_index P (x # xs) = (if P x then Some 0 else map_option Suc (first_index P xs))"

lemma first_index_snoc:
  "first_index P (xs @ [x]) =
     (case first_index P xs of Some i \<Rightarrow> Some i | None \<Rightarrow> if P x then Some (length xs) else None)"
  by (induction xs) (auto split: option.splits)

lemma first_index_None: "first_index P xs = None \<longleftrightarrow> list_all (\<lambda>x. \<not> P x) xs"
  by (induction xs) auto

lemma first_index_Some:
  "first_index P xs = Some i \<longleftrightarrow> i < length xs \<and> P (xs ! i) \<and> list_all (\<lambda>x. \<not> P x) (take i xs)"
proof (induction xs arbitrary: i)
  case (Cons x xs)
  then show ?case by (cases i) auto
qed simp

fun is_charge :: "TenantAttemptEvidence \<Rightarrow> bool" where
  "is_charge (Charge _) = True" | "is_charge _ = False"

fun is_transient :: "TenantAttemptEvidence \<Rightarrow> bool" where
  "is_transient (TransientAttempt _) = True" | "is_transient _ = False"

fun advice_le :: "Duration option \<Rightarrow> Duration option \<Rightarrow> bool" where
  "advice_le None _ = True"
| "advice_le (Some a) None = False"
| "advice_le (Some a) (Some b) = (a \<le> b)"

lemma attempts_loop_snoc:
  "attempts_loop f i (cs @ [c]) = attempt_step (attempts_loop f i cs) (i + length cs) c"
  by (induction cs arbitrary: f i) simp_all

abbreviation attempt_fold0 :: AttemptFold where
  "attempt_fold0 \<equiv> \<lparr>first_charge = None, best_transient = None, first_untrusted = None, first_content = None\<rparr>"

lemma attempts_loop_firsts:
  "first_charge (attempts_loop attempt_fold0 0 cs) = first_index is_charge cs"
  "first_untrusted (attempts_loop attempt_fold0 0 cs) = first_index (\<lambda>c. c = UntrustedPresent) cs"
  "first_content (attempts_loop attempt_fold0 0 cs) = first_index (\<lambda>c. c = ContentMismatchAttempt) cs"
  by (induction cs rule: rev_induct)
    (simp_all add: attempts_loop_snoc attempt_step_def first_index_snoc or_first_def
      split: TenantAttemptEvidence.split option.split)

text \<open>The best transient so far: none seen, or the index of one with the largest advice.\<close>

definition best_ok :: "TenantAttemptEvidence list \<Rightarrow> (nat \<times> Duration option) option \<Rightarrow> bool" where
  "best_ok cs best = (case best of
     None \<Rightarrow> list_all (\<lambda>c. \<not> is_transient c) cs
   | Some (i, mx) \<Rightarrow> i < length cs \<and> cs ! i = TransientAttempt mx
       \<and> (\<forall>ra. TransientAttempt ra \<in> set cs \<longrightarrow> advice_le ra mx))"

lemma advice_le_refl [simp]: "advice_le a a" by (cases a) simp_all

lemma better_transient_ok:
  assumes "best_ok cs best"
  shows "best_ok (cs @ [TransientAttempt ra]) (Some (better_transient best (length cs) ra))"
proof (cases best)
  case None
  with assms show ?thesis
    by (auto simp: best_ok_def better_transient_def list_all_iff)
next
  case (Some b)
  obtain i mx where b: "b = (i, mx)" by (cases b)
  have ok: "i < length cs" "cs ! i = TransientAttempt mx"
    "\<And>r. TransientAttempt r \<in> set cs \<Longrightarrow> advice_le r mx"
    using assms by (auto simp: best_ok_def Some b)
  have trans: "advice_le r mx \<Longrightarrow> advice_le mx s \<Longrightarrow> advice_le r s" for r s
    by (cases r; cases mx; cases s) auto
  show ?thesis
  proof (cases "advice_le ra mx")
    case True
    hence "better_transient best (length cs) ra = (i, mx)"
      by (cases ra; cases mx) (auto simp: better_transient_def Some b)
    with ok True show ?thesis by (auto simp: best_ok_def nth_append)
  next
    case False
    hence "better_transient best (length cs) ra = (length cs, ra)" "advice_le mx ra"
      by (cases ra; cases mx; auto simp: better_transient_def Some b)+
    with ok trans show ?thesis by (auto simp: best_ok_def nth_append)
  qed
qed

lemma attempts_loop_best: "best_ok cs (best_transient (attempts_loop attempt_fold0 0 cs))"
proof (induction cs rule: rev_induct)
  case (snoc c cs)
  show ?case
  proof (cases "is_transient c")
    case True
    then obtain ra where "c = TransientAttempt ra" by (cases c) auto
    with better_transient_ok [OF snoc] show ?thesis by (simp add: attempts_loop_snoc attempt_step_def)
  next
    case False
    hence "best_transient (attempts_loop attempt_fold0 0 (cs @ [c])) = best_transient (attempts_loop attempt_fold0 0 cs)"
      by (cases c) (simp_all add: attempts_loop_snoc attempt_step_def)
    with snoc False show ?thesis
      by (auto simp: best_ok_def nth_append split: option.splits)
  qed
qed (simp add: best_ok_def)

text \<open>
  C37. The tenant fold answers by precedence, and its index points at the evidence. A charge wins and the
  answer is the first one; without a charge, a transient wins and the answer carries the
  largest retry advice of any tenant; then the first trust refusal; then the first content
  refusal; and all-clean-miss is answered only when every tenant cleanly missed.
\<close>

theorem tenant_fold_precedence:
  "case fold_tenant_attempts cs of
     ChargeInfraAt i \<Rightarrow> i < length cs \<and> is_charge (cs ! i) \<and> list_all (\<lambda>c. \<not> is_charge c) (take i cs)
   | RetryTransientAt i mx \<Rightarrow>
       list_all (\<lambda>c. \<not> is_charge c) cs \<and> i < length cs \<and> cs ! i = TransientAttempt mx
       \<and> (\<forall>ra. TransientAttempt ra \<in> set cs \<longrightarrow> advice_le ra mx)
   | UntrustedPresentAt i \<Rightarrow>
       list_all (\<lambda>c. \<not> is_charge c \<and> \<not> is_transient c) cs \<and> i < length cs \<and> cs ! i = UntrustedPresent
       \<and> list_all (\<lambda>c. c \<noteq> UntrustedPresent) (take i cs)
   | ContentMismatchAt i \<Rightarrow>
       list_all (\<lambda>c. \<not> is_charge c \<and> \<not> is_transient c \<and> c \<noteq> UntrustedPresent) cs
       \<and> i < length cs \<and> cs ! i = ContentMismatchAttempt
       \<and> list_all (\<lambda>c. c \<noteq> ContentMismatchAttempt) (take i cs)
   | AllCleanMiss \<Rightarrow> list_all (\<lambda>c. c = CleanMiss) cs"
proof -
  have clean: "\<not> is_charge c \<Longrightarrow> \<not> is_transient c \<Longrightarrow> c \<noteq> UntrustedPresent \<Longrightarrow>
      c \<noteq> ContentMismatchAttempt \<Longrightarrow> c = CleanMiss" for c
    by (cases c) auto
  show ?thesis
    using attempts_loop_best [of cs] clean
    by (auto simp: fold_tenant_attempts_def Let_def attempts_loop_firsts first_index_Some first_index_None
        best_ok_def list_all_iff split: option.splits)
qed

theorem tenant_fold_precedence_witness:
  "fold_tenant_attempts [CleanMiss, TransientAttempt (Some 4), TransientAttempt (Some 9)]
     = RetryTransientAt 2 (Some 9)
   \<and> advice_le (Some 4) (Some 9) \<and> advice_le (Some 9) (Some 9)"
proof -
  have "fold_tenant_attempts [CleanMiss, TransientAttempt (Some 4), TransientAttempt (Some 9)]
      = RetryTransientAt 2 (Some 9)"
    by (simp add: fold_tenant_attempts_def attempt_step_def better_transient_def Let_def)
  with tenant_fold_precedence [of "[CleanMiss, TransientAttempt (Some 4), TransientAttempt (Some 9)]"]
  show ?thesis by simp
qed

section \<open>The upstream loop does not depend on the order of upstreams\<close>

definition record_all ::
  "(SubstituteFailureClass \<times> Duration option) list \<Rightarrow> SubstituteLoopCells \<Rightarrow> SubstituteLoopCells" where
  "record_all = fold (\<lambda>(cls, advice) c. fst (loop_record c cls advice))"

lemma loop_record_commute:
  "fst (loop_record (fst (loop_record c x a)) y b) = fst (loop_record (fst (loop_record c y b)) x a)"
  by (cases x; cases y)
    (auto simp: Let_def max.assoc max.left_commute max.commute split: option.splits)

text \<open>
  The verdict over the upstreams does not depend on the order in which they were tried: any two runs of
  the loop that recorded the same failures, with the same advice, give the same verdict.
\<close>

lemma loop_verdict_order_independent:
  assumes "mset failures = mset failures'"
  shows "fold_substitute_loop (record_all failures c) = fold_substitute_loop (record_all failures' c)"
proof -
  have "record_all failures = record_all failures'"
    unfolding record_all_def
    by (rule fold_multiset_equiv) (auto simp: comp_def loop_record_commute assms fun_eq_iff)
  thus ?thesis by simp
qed

end
