(* ===== verification/Sched_State.thy ===== *)
theory Sched_State
  imports Rio_Prelude
begin

text \<open>
  The scheduler's two state machines (\<open>rio-scheduler/src/state\<close>): the derivation status with the
  bookkeeping of an attempt (\<open>derivation.rs\<close>) and the build lifecycle (\<open>build.rs\<close>). A method on
  \<open>&mut self\<close> returns the new state with its result, so what an early \<open>?\<close> leaves behind
  is part of the model; \<open>Instant::now()\<close> is an argument. Of the state records only the fields
  these methods read or write are kept.
\<close>

section \<open>Derivation status\<close>

datatype DerivationStatus =
  Created | Queued | Ready | Assigned | Running | Completed | Failed | Poisoned | DependencyFailed
  | Cancelled | Skipped

datatype AttemptKind = Build | Materialization

datatype BuildState = BUnspecified | BPending | BActive | BSucceeded | BFailed | BCancelled

datatype TransitionError =
    Invalid DerivationStatus DerivationStatus string
  | TerminalToNonTerminal DerivationStatus DerivationStatus
  | UnknownStatus string
  | InvalidBuild BuildState BuildState
  | TerminalBuild BuildState BuildState
  | UnknownBuildState string

fun status_as_str :: "DerivationStatus \<Rightarrow> string" where
  "status_as_str Created = ''created''"
| "status_as_str Queued = ''queued''"
| "status_as_str Ready = ''ready''"
| "status_as_str Assigned = ''assigned''"
| "status_as_str Running = ''running''"
| "status_as_str Completed = ''completed''"
| "status_as_str Failed = ''failed''"
| "status_as_str Poisoned = ''poisoned''"
| "status_as_str DependencyFailed = ''dependency_failed''"
| "status_as_str Cancelled = ''cancelled''"
| "status_as_str Skipped = ''skipped''"

definition status_from_str :: "string \<Rightarrow> TransitionError + DerivationStatus" where
  "status_from_str s =
     (if s = ''created'' then Inr Created
      else if s = ''queued'' then Inr Queued
      else if s = ''ready'' then Inr Ready
      else if s = ''assigned'' then Inr Assigned
      else if s = ''running'' then Inr Running
      else if s = ''completed'' then Inr Completed
      else if s = ''failed'' then Inr Failed
      else if s = ''poisoned'' then Inr Poisoned
      else if s = ''dependency_failed'' then Inr DependencyFailed
      else if s = ''cancelled'' then Inr Cancelled
      else if s = ''skipped'' then Inr Skipped
      else Inl (UnknownStatus s))"

lemma status_str_roundtrip: "status_from_str (status_as_str st) = Inr st"
  by (cases st) (simp_all add: status_from_str_def)

definition status_is_terminal :: "DerivationStatus \<Rightarrow> bool" where
  "status_is_terminal st \<longleftrightarrow> st \<in> {Completed, Poisoned, DependencyFailed, Cancelled, Skipped}"

definition status_is_retriable_on_resubmit :: "DerivationStatus \<Rightarrow> bool" where
  "status_is_retriable_on_resubmit st \<longleftrightarrow> st \<in> {Cancelled, Failed, DependencyFailed}"

fun is_giveup_abandoned :: "DerivationStatus \<Rightarrow> bool" where
  "is_giveup_abandoned Created = True"
| "is_giveup_abandoned Queued = True"
| "is_giveup_abandoned Ready = True"
| "is_giveup_abandoned Assigned = False"
| "is_giveup_abandoned Running = False"
| "is_giveup_abandoned Cancelled = False"
| "is_giveup_abandoned Failed = False"
| "is_giveup_abandoned DependencyFailed = False"
| "is_giveup_abandoned Poisoned = False"
| "is_giveup_abandoned Completed = False"
| "is_giveup_abandoned Skipped = False"

text \<open>The table of the last \<open>match\<close> of \<open>validate_transition\<close>, in source order.\<close>

definition valid_edges :: "(DerivationStatus \<times> DerivationStatus) list" where
  "valid_edges =
     [(Created, Completed), (Ready, Completed), (Queued, Completed), (Poisoned, Completed),
      (DependencyFailed, Completed), (Failed, Completed), (Created, Queued), (Queued, Ready),
      (Ready, Queued), (Queued, DependencyFailed), (Ready, DependencyFailed),
      (Created, DependencyFailed), (Completed, DependencyFailed), (Skipped, DependencyFailed),
      (Ready, Assigned), (Assigned, Running), (Assigned, Ready), (Running, Completed),
      (Running, Failed), (Running, Poisoned), (Ready, Poisoned), (Failed, Ready), (Failed, Queued),
      (Assigned, Cancelled), (Running, Cancelled), (Ready, Cancelled), (Queued, Skipped),
      (Ready, Skipped)]"

definition validate_transition :: "DerivationStatus \<Rightarrow> DerivationStatus \<Rightarrow> TransitionError + unit" where
  "validate_transition from to =
     (if from = to then
        (if from \<in> {Completed, Poisoned, DependencyFailed, Cancelled, Skipped} then Inr ()
         else Inl (Invalid from to ''non-terminal self-transition is not allowed''))
      else if status_is_terminal from \<and> \<not> status_is_terminal to then
        (if from = Poisoned \<and> to = Created then Inr ()
         else if from \<in> {Completed, Skipped} \<and> to \<in> {Ready, Queued} then Inr ()
         else if from \<in> {Poisoned, DependencyFailed} \<and> to = Queued then Inr ()
         else Inl (TerminalToNonTerminal from to))
      else if (from, to) \<in> set valid_edges then Inr ()
      else Inl (Invalid from to ''transition not in state machine''))"

definition validate_transition_for_mint ::
  "DerivationStatus \<Rightarrow> DerivationStatus \<Rightarrow> AttemptKind \<Rightarrow> TransitionError + unit" where
  "validate_transition_for_mint from to k =
     (if k = Materialization \<and> from = Queued \<and> to = Assigned then Inr () else validate_transition from to)"

definition validate_transition_for_release ::
  "DerivationStatus \<Rightarrow> DerivationStatus \<Rightarrow> AttemptKind \<Rightarrow> TransitionError + unit" where
  "validate_transition_for_release from to k =
     (if k = Materialization \<and> from = Assigned \<and> to = Queued then Inr () else validate_transition from to)"

section \<open>Derivation state\<close>

type_synonym Instant = nat

record ('e, 'u) DerivationState =
  status :: DerivationStatus
  assigned_executor :: "'e option"
  exec_id :: "'u option"
  open_attempt_kind :: "AttemptKind option"
  claim_nonce :: "'u option"
  ready_at :: "Instant option"
  running_since :: "Instant option"
  resubmit_cycles :: u32

datatype ReleaseOutcome = Released DerivationStatus | AlreadyReleased DerivationStatus

datatype EpochMintBand = Retriable | VerdictFree

datatype ResubmitDisposition =
  MintsEpoch EpochMintBand | InFlightVerdictPending | ServedTerminal | BoundedRefusal

definition POISON_RESUBMIT_RETRY_LIMIT :: u32 where
  "POISON_RESUBMIT_RETRY_LIMIT = 2"

definition clear_exec :: "('e, 'u) DerivationState \<Rightarrow> ('e, 'u) DerivationState" where
  "clear_exec s = s\<lparr>exec_id := None, open_attempt_kind := None, claim_nonce := None\<rparr>"

definition apply_validated_transition ::
  "Instant \<Rightarrow> ('e, 'u) DerivationState \<Rightarrow> DerivationStatus \<Rightarrow> DerivationStatus \<Rightarrow> ('e, 'u) DerivationState" where
  "apply_validated_transition now s from to =
     (if from = to then s
      else (let s = s\<lparr>status := to\<rparr>;
                s = (if to = Ready then s\<lparr>ready_at := Some now\<rparr> else s);
                s = (if to = Running then s\<lparr>running_since := Some now\<rparr>
                     else if from = Running then s\<lparr>running_since := None\<rparr> else s)
            in if status_is_terminal from \<and> \<not> status_is_terminal to then clear_exec s else s))"

definition transition ::
  "Instant \<Rightarrow> ('e, 'u) DerivationState \<Rightarrow> DerivationStatus \<Rightarrow>
   ('e, 'u) DerivationState \<times> (TransitionError + DerivationStatus)" where
  "transition now s to =
     (let from = status s in
      case validate_transition from to of
        Inl e \<Rightarrow> (s, Inl e)
      | Inr _ \<Rightarrow> (apply_validated_transition now s from to, Inr from))"

definition transition_for_mint ::
  "Instant \<Rightarrow> ('e, 'u) DerivationState \<Rightarrow> DerivationStatus \<Rightarrow> AttemptKind \<Rightarrow>
   ('e, 'u) DerivationState \<times> (TransitionError + DerivationStatus)" where
  "transition_for_mint now s to k =
     (let from = status s in
      case validate_transition_for_mint from to k of
        Inl e \<Rightarrow> (s, Inl e)
      | Inr _ \<Rightarrow> (apply_validated_transition now s from to, Inr from))"

definition reset_to_ready ::
  "Instant \<Rightarrow> ('e, 'u) DerivationState \<Rightarrow> ('e, 'u) DerivationState \<times> (TransitionError + unit)" where
  "reset_to_ready now s =
     (let finish = (\<lambda>s'. (clear_exec (s'\<lparr>assigned_executor := None\<rparr>), Inr ())) in
      case status s of
        Assigned \<Rightarrow>
          (case transition now s Ready of (s1, Inl e) \<Rightarrow> (s1, Inl e) | (s1, Inr _) \<Rightarrow> finish s1)
      | Running \<Rightarrow>
          (case transition now s Failed of
             (s1, Inl e) \<Rightarrow> (s1, Inl e)
           | (s1, Inr _) \<Rightarrow>
               (case transition now s1 Ready of (s2, Inl e) \<Rightarrow> (s2, Inl e) | (s2, Inr _) \<Rightarrow> finish s2))
      | st \<Rightarrow> (s, Inl (Invalid st Ready ''reset_to_ready only valid from Assigned or Running'')))"

definition release_step ::
  "Instant \<Rightarrow> ('e, 'u) DerivationState \<Rightarrow> DerivationStatus \<Rightarrow> AttemptKind \<Rightarrow>
   ('e, 'u) DerivationState \<times> (TransitionError + unit)" where
  "release_step now s to k =
     (case validate_transition_for_release (status s) to k of
        Inl e \<Rightarrow> (s, Inl e)
      | Inr _ \<Rightarrow> (apply_validated_transition now s (status s) to, Inr ()))"

definition reset_after_attempt ::
  "Instant \<Rightarrow> ('e, 'u) DerivationState \<Rightarrow> AttemptKind \<Rightarrow> bool \<Rightarrow>
   ('e, 'u) DerivationState \<times> (TransitionError + ReleaseOutcome)" where
  "reset_after_attempt now s k deps_completed =
     (let already = (case k of Build \<Rightarrow> status s = Ready
                             | Materialization \<Rightarrow> status s \<in> {Ready, Queued})
      in if already then (s, Inr (AlreadyReleased (status s)))
         else if k = Build then
           (case reset_to_ready now s of
              (s1, Inl e) \<Rightarrow> (s1, Inl e)
            | (s1, Inr _) \<Rightarrow> (s1, Inr (Released Ready)))
         else
           (let target = (if deps_completed then Ready else Queued);
                finish = (\<lambda>s'. (clear_exec (s'\<lparr>assigned_executor := None\<rparr>), Inr (Released target)))
            in case status s of
                 Assigned \<Rightarrow>
                   (case release_step now s target k of
                      (s1, Inl e) \<Rightarrow> (s1, Inl e) | (s1, Inr _) \<Rightarrow> finish s1)
               | Running \<Rightarrow>
                   (case release_step now s Failed k of
                      (s1, Inl e) \<Rightarrow> (s1, Inl e)
                    | (s1, Inr _) \<Rightarrow>
                        (case release_step now s1 target k of
                           (s2, Inl e) \<Rightarrow> (s2, Inl e) | (s2, Inr _) \<Rightarrow> finish s2))
               | st \<Rightarrow> (s, Inl (Invalid st target ''reset_after_attempt only valid from Assigned or Running''))))"

definition ensure_running ::
  "Instant \<Rightarrow> ('e, 'u) DerivationState \<Rightarrow> ('e, 'u) DerivationState \<times> bool" where
  "ensure_running now s =
     (if status s = Assigned
      then (case transition now s Running of (s1, r) \<Rightarrow> (s1, case r of Inr _ \<Rightarrow> True | Inl _ \<Rightarrow> False))
      else (s, True))"

definition is_retriable_on_resubmit :: "('e, 'u) DerivationState \<Rightarrow> bool" where
  "is_retriable_on_resubmit s \<longleftrightarrow> status_is_retriable_on_resubmit (status s)
     \<or> (status s = Poisoned \<and> resubmit_cycles s < POISON_RESUBMIT_RETRY_LIMIT)"

definition resubmit_disposition :: "('e, 'u) DerivationState \<Rightarrow> ResubmitDisposition" where
  "resubmit_disposition s =
     (case status s of
        Created \<Rightarrow> MintsEpoch VerdictFree
      | Queued \<Rightarrow> MintsEpoch VerdictFree
      | Ready \<Rightarrow> MintsEpoch VerdictFree
      | Cancelled \<Rightarrow> MintsEpoch Retriable
      | Failed \<Rightarrow> MintsEpoch Retriable
      | DependencyFailed \<Rightarrow> MintsEpoch Retriable
      | Poisoned \<Rightarrow> if resubmit_cycles s < POISON_RESUBMIT_RETRY_LIMIT then MintsEpoch Retriable
                    else BoundedRefusal
      | Assigned \<Rightarrow> InFlightVerdictPending
      | Running \<Rightarrow> InFlightVerdictPending
      | Completed \<Rightarrow> ServedTerminal
      | Skipped \<Rightarrow> ServedTerminal)"

definition is_resubmit_epoch_mintable :: "('e, 'u) DerivationState \<Rightarrow> bool" where
  "is_resubmit_epoch_mintable s = (case resubmit_disposition s of MintsEpoch _ \<Rightarrow> True | _ \<Rightarrow> False)"

definition mints_epoch_on_resubmit :: "('e, 'u) DerivationState \<Rightarrow> bool \<Rightarrow> bool" where
  "mints_epoch_on_resubmit s explicit_root =
     (case resubmit_disposition s of
        MintsEpoch Retriable \<Rightarrow> True
      | MintsEpoch VerdictFree \<Rightarrow> explicit_root
      | InFlightVerdictPending \<Rightarrow> False
      | ServedTerminal \<Rightarrow> False
      | BoundedRefusal \<Rightarrow> False)"

section \<open>The derivation machine\<close>

text \<open>Every call that changes the status, successful or not.\<close>

inductive drv_step :: "('e, 'u) DerivationState \<Rightarrow> ('e, 'u) DerivationState \<Rightarrow> bool" where
  step_transition: "drv_step s (fst (transition now s to))"
| step_mint: "drv_step s (fst (transition_for_mint now s to k))"
| step_reset: "drv_step s (fst (reset_to_ready now s))"
| step_release: "drv_step s (fst (reset_after_attempt now s k deps))"
| step_running: "drv_step s (fst (ensure_running now s))"
| step_bind: "status s \<in> {Assigned, Running} \<Longrightarrow>
    drv_step s (s\<lparr>assigned_executor := ex, exec_id := x, open_attempt_kind := k, claim_nonce := n\<rparr>)"

definition clock_inv :: "('e, 'u) DerivationState \<Rightarrow> bool" where
  "clock_inv s \<longleftrightarrow> (running_since s \<noteq> None \<longleftrightarrow> status s = Running)"

lemma apply_validated_status [simp]:
  "status s = from \<Longrightarrow> status (apply_validated_transition now s from to) = to"
  by (auto simp add: apply_validated_transition_def clear_exec_def Let_def)

lemma clear_exec_simps [simp]:
  "status (clear_exec s) = status s" "running_since (clear_exec s) = running_since s"
  "assigned_executor (clear_exec s) = assigned_executor s" "exec_id (clear_exec s) = None"
  "open_attempt_kind (clear_exec s) = None" "claim_nonce (clear_exec s) = None"
  by (simp_all add: clear_exec_def)

lemma apply_validated_clock:
  "clock_inv s \<Longrightarrow> clock_inv (apply_validated_transition now s (status s) to)"
  by (auto simp: clock_inv_def apply_validated_transition_def Let_def)

lemma transition_clock: "clock_inv s \<Longrightarrow> clock_inv (fst (transition now s to))"
  using apply_validated_clock [of s] by (simp add: transition_def Let_def split: sum.split)

lemma transition_for_mint_clock: "clock_inv s \<Longrightarrow> clock_inv (fst (transition_for_mint now s to k))"
  using apply_validated_clock [of s] by (simp add: transition_for_mint_def Let_def split: sum.split)

lemma release_step_clock: "clock_inv s \<Longrightarrow> clock_inv (fst (release_step now s to k))"
  using apply_validated_clock [of s] by (simp add: release_step_def split: sum.split)

lemma transition_ok:
  assumes "validate_transition (status s) to = Inr ()"
  shows "transition now s to = (apply_validated_transition now s (status s) to, Inr (status s))"
  using assms by (simp add: transition_def Let_def)

lemma release_step_ok:
  assumes "validate_transition_for_release (status s) to k = Inr ()"
  shows "release_step now s to k = (apply_validated_transition now s (status s) to, Inr ())"
  using assms by (simp add: release_step_def)

lemmas valid_simps = validate_transition_def status_is_terminal_def valid_edges_def

text \<open>The reset from an attempt in flight always succeeds and ends Ready with the binding cleared.\<close>

lemma reset_to_ready_ok:
  assumes "status s \<in> {Assigned, Running}"
  obtains s' where "reset_to_ready now s = (clear_exec (s'\<lparr>assigned_executor := None\<rparr>), Inr ())"
    "status s' = Ready" "clock_inv s \<Longrightarrow> clock_inv s'"
proof (cases "status s = Assigned")
  case True
  hence t: "transition now s Ready = (apply_validated_transition now s (status s) Ready, Inr Assigned)"
    using transition_ok [of s Ready now] by (simp add: valid_simps)
  show thesis
    by (rule that [of "apply_validated_transition now s (status s) Ready"])
      (use True t apply_validated_clock [of s now Ready] in \<open>auto simp: reset_to_ready_def\<close>)
next
  case False
  with assms have r: "status s = Running" by simp
  let ?s1 = "apply_validated_transition now s (status s) Failed"
  let ?s2 = "apply_validated_transition now ?s1 (status ?s1) Ready"
  have "transition now s Failed = (?s1, Inr Running)" "transition now ?s1 Ready = (?s2, Inr Failed)"
    using transition_ok [of s Failed now] transition_ok [of ?s1 Ready now] r by (simp_all add: valid_simps)
  thus thesis
    using r apply_validated_clock [of s now Failed] apply_validated_clock [of ?s1 now Ready]
    by (intro that [of ?s2]) (auto simp: reset_to_ready_def)
qed

lemma reset_to_ready_refused:
  "status s \<notin> {Assigned, Running} \<Longrightarrow>
   reset_to_ready now s = (s, Inl (Invalid (status s) Ready ''reset_to_ready only valid from Assigned or Running''))"
  by (cases "status s") (simp_all add: reset_to_ready_def)

lemma release_materialization_ok:
  assumes "status s \<in> {Assigned, Running}" "target = (if deps then Ready else Queued)"
  obtains s' where "reset_after_attempt now s Materialization deps =
      (clear_exec (s'\<lparr>assigned_executor := None\<rparr>), Inr (Released target))"
    "status s' = target" "clock_inv s \<Longrightarrow> clock_inv s'"
proof (cases "status s = Assigned")
  case True
  hence t: "release_step now s target Materialization = (apply_validated_transition now s (status s) target, Inr ())"
    using release_step_ok [of s target Materialization now] assms(2)
    by (simp add: validate_transition_for_release_def valid_simps)
  show thesis
    by (rule that [of "apply_validated_transition now s (status s) target"])
      (use True t assms(2) apply_validated_clock [of s now target] in
        \<open>auto simp: reset_after_attempt_def Let_def\<close>)
next
  case False
  with assms have r: "status s = Running" by simp
  let ?s1 = "apply_validated_transition now s (status s) Failed"
  let ?s2 = "apply_validated_transition now ?s1 (status ?s1) target"
  have "release_step now s Failed Materialization = (?s1, Inr ())"
    "release_step now ?s1 target Materialization = (?s2, Inr ())"
    using release_step_ok [of s Failed Materialization now] release_step_ok [of ?s1 target Materialization now]
      r assms(2)
    by (simp_all add: validate_transition_for_release_def valid_simps)
  thus thesis
    using r assms(2) apply_validated_clock [of s now Failed] apply_validated_clock [of ?s1 now target]
    by (intro that [of ?s2]) (auto simp: reset_after_attempt_def Let_def)
qed

lemma reset_after_attempt_build:
  "status s \<noteq> Ready \<Longrightarrow> reset_after_attempt now s Build deps =
     (case reset_to_ready now s of (s1, Inl e) \<Rightarrow> (s1, Inl e) | (s1, Inr _) \<Rightarrow> (s1, Inr (Released Ready)))"
  by (simp add: reset_after_attempt_def)

lemma already_released:
  "status s = Ready \<or> k = Materialization \<and> status s = Queued \<Longrightarrow>
   reset_after_attempt now s k deps = (s, Inr (AlreadyReleased (status s)))"
  by (cases k) (auto simp: reset_after_attempt_def)

lemma release_materialization_refused:
  "status s \<notin> {Ready, Queued, Assigned, Running} \<Longrightarrow>
   \<exists>e. reset_after_attempt now s Materialization deps = (s, Inl e)"
  by (cases "status s") (simp_all add: reset_after_attempt_def Let_def)

text \<open>
  The release of an attempt, on every branch. A node already released for the kind is left as it is;
  an attempt in flight is always released, to Ready for a build and to the dependency-derived
  status for a materialization, with executor, exec id, attempt kind and claim nonce
  cleared; from any other status the call fails and changes nothing.
\<close>

lemma reset_after_attempt_table:
  "let target = (if k = Build \<or> deps then Ready else Queued);
       (s', r) = reset_after_attempt now s k deps
   in if status s = Ready \<or> k = Materialization \<and> status s = Queued
      then s' = s \<and> r = Inr (AlreadyReleased (status s))
      else if status s \<in> {Assigned, Running}
      then r = Inr (Released target) \<and> status s' = target \<and> assigned_executor s' = None
           \<and> exec_id s' = None \<and> open_attempt_kind s' = None \<and> claim_nonce s' = None
      else s' = s \<and> (\<exists>e. r = Inl e)"
proof (cases k)
  case Build
  show ?thesis
  proof (cases "status s \<in> {Assigned, Running}")
    case True
    then obtain s' where "reset_to_ready now s = (clear_exec (s'\<lparr>assigned_executor := None\<rparr>), Inr ())"
        "status s' = Ready" by (rule reset_to_ready_ok)
    with True Build show ?thesis by (auto simp: reset_after_attempt_build)
  next
    case False
    with Build show ?thesis
      by (cases "status s = Ready")
        (simp_all add: already_released reset_after_attempt_build reset_to_ready_refused)
  qed
next
  case Materialization
  show ?thesis
  proof (cases "status s \<in> {Assigned, Running}")
    case True
    then obtain s' where "reset_after_attempt now s Materialization deps =
        (clear_exec (s'\<lparr>assigned_executor := None\<rparr>), Inr (Released (if deps then Ready else Queued)))"
        "status s' = (if deps then Ready else Queued)"
      by (rule release_materialization_ok) simp
    with True Materialization show ?thesis by auto
  next
    case False
    with Materialization release_materialization_refused [of s now deps] show ?thesis
      by (cases "status s \<in> {Ready, Queued}") (auto simp: already_released)
  qed
qed

lemma reset_to_ready_clock: "clock_inv s \<Longrightarrow> clock_inv (fst (reset_to_ready now s))"
proof (cases "status s \<in> {Assigned, Running}")
  case True
  assume "clock_inv s"
  with True show ?thesis by (rule_tac reset_to_ready_ok [of s now]) (simp_all add: clock_inv_def)
qed (simp add: reset_to_ready_refused)

lemma reset_after_attempt_clock:
  assumes "clock_inv s"
  shows "clock_inv (fst (reset_after_attempt now s k deps))"
proof (cases "status s = Ready \<or> k = Materialization \<and> status s = Queued")
  case True
  with assms show ?thesis by (simp add: already_released)
next
  case released: False
  show ?thesis
  proof (cases k)
    case Build
    with released reset_to_ready_clock [OF assms, of now] show ?thesis
      by (auto simp: reset_after_attempt_build split: prod.split sum.split)
  next
    case Materialization
    show ?thesis
    proof (cases "status s \<in> {Assigned, Running}")
      case True
      then obtain s' where "reset_after_attempt now s Materialization deps =
          (clear_exec (s'\<lparr>assigned_executor := None\<rparr>), Inr (Released (if deps then Ready else Queued)))"
          "clock_inv s \<Longrightarrow> clock_inv s'"
        by (rule release_materialization_ok) auto
      with Materialization assms show ?thesis by (simp add: clock_inv_def)
    next
      case False
      with Materialization released release_materialization_refused [of s now deps] assms
      show ?thesis by auto
    qed
  qed
qed

lemma drv_step_clock: "drv_step s s' \<Longrightarrow> clock_inv s \<Longrightarrow> clock_inv s'"
proof (induction rule: drv_step.induct)
  case (step_running s now)
  then show ?case
    using transition_clock [of s now Running] by (simp add: ensure_running_def case_prod_beta)
next
  case (step_bind s ex x k n)
  then show ?case by (simp add: clock_inv_def)
qed (simp_all add: transition_clock transition_for_mint_clock reset_to_ready_clock reset_after_attempt_clock)

text \<open>A cancelled derivation is final: no call changes anything about it.\<close>

lemma cancelled_validate:
  "validate_transition Cancelled to = Inr () \<longleftrightarrow> to = Cancelled"
  by (cases to) (simp_all add: valid_simps)

lemma cancelled_transition:
  assumes "status s = Cancelled"
  shows "fst (transition now s to) = s" "fst (transition_for_mint now s to k) = s"
  using assms cancelled_validate [of to]
  by (auto simp: transition_def transition_for_mint_def validate_transition_for_mint_def Let_def
      apply_validated_transition_def split: sum.split)

lemma drv_step_cancelled: "drv_step s s' \<Longrightarrow> status s = Cancelled \<Longrightarrow> s' = s"
proof (induction rule: drv_step.induct)
  case (step_release s now k deps)
  then show ?case
    using release_materialization_refused [of s now deps]
    by (cases k) (auto simp: reset_after_attempt_build reset_to_ready_refused)
qed (simp_all add: cancelled_transition reset_to_ready_refused ensure_running_def)

text \<open>
  C8. The derivation machine is safe over every sequence of calls, failed ones included: the running clock
  is set exactly while the status is Running, and a cancelled derivation is never changed
  again. A node that leaves a terminal status carries no exec id, attempt kind or claim nonce of
  its previous life.
\<close>

theorem derivation_machine_safe:
  assumes "drv_step\<^sup>*\<^sup>* s s'"
  shows "((running_since s \<noteq> None \<longleftrightarrow> status s = Running) \<longrightarrow> (running_since s' \<noteq> None \<longleftrightarrow> status s' = Running))
    \<and> (status s = Cancelled \<longrightarrow> s' = s)
    \<and> (status_is_terminal (status s') \<and> \<not> status_is_terminal (status (fst (transition now s' to))) \<longrightarrow>
         exec_id (fst (transition now s' to)) = None
         \<and> open_attempt_kind (fst (transition now s' to)) = None
         \<and> claim_nonce (fst (transition now s' to)) = None)"
proof (intro conjI)
  from assms have "clock_inv s \<Longrightarrow> clock_inv s'"
    by (induction rule: rtranclp_induct) (auto dest: drv_step_clock)
  thus "(running_since s \<noteq> None \<longleftrightarrow> status s = Running) \<longrightarrow> (running_since s' \<noteq> None \<longleftrightarrow> status s' = Running)"
    by (simp add: clock_inv_def)
  from assms show "status s = Cancelled \<longrightarrow> s' = s"
    by (induction rule: rtranclp_induct) (auto dest: drv_step_cancelled)
qed (auto simp: transition_def apply_validated_transition_def Let_def split: sum.splits if_splits)

definition fresh_drv :: "(nat, nat) DerivationState" where
  "fresh_drv = \<lparr>status = Assigned, assigned_executor = Some 1, exec_id = Some 7, open_attempt_kind = Some Build,
     claim_nonce = None, ready_at = None, running_since = None, resubmit_cycles = 0\<rparr>"

theorem derivation_machine_safe_witness:
  "drv_step\<^sup>*\<^sup>* fresh_drv (fst (ensure_running 5 fresh_drv))
   \<and> running_since (fst (ensure_running 5 fresh_drv)) \<noteq> None"
proof -
  have r: "drv_step\<^sup>*\<^sup>* fresh_drv (fst (ensure_running 5 fresh_drv))"
    by (rule r_into_rtranclp) (rule step_running)
  have "status (fst (ensure_running 5 fresh_drv)) = Running"
    by (simp add: ensure_running_def transition_def valid_simps apply_validated_transition_def fresh_drv_def Let_def)
  with derivation_machine_safe [OF r, of 0 Ready] r show ?thesis by (simp add: fresh_drv_def)
qed

text \<open>The resubmission classes agree: mintable is retriable or given up, and the poison bound holds.\<close>

lemma resubmit_mintable_iff:
  "is_resubmit_epoch_mintable s \<longleftrightarrow> is_retriable_on_resubmit s \<or> is_giveup_abandoned (status s)"
  "mints_epoch_on_resubmit s root \<longleftrightarrow>
     is_retriable_on_resubmit s \<or> root \<and> is_giveup_abandoned (status s)"
  by (cases "status s"; simp add: is_resubmit_epoch_mintable_def mints_epoch_on_resubmit_def
      is_retriable_on_resubmit_def status_is_retriable_on_resubmit_def resubmit_disposition_def)+

section \<open>The build lifecycle\<close>

definition build_is_terminal :: "BuildState \<Rightarrow> bool" where
  "build_is_terminal b \<longleftrightarrow> b \<in> {BSucceeded, BFailed, BCancelled}"

definition build_validate_transition :: "BuildState \<Rightarrow> BuildState \<Rightarrow> TransitionError + unit" where
  "build_validate_transition from to =
     (if from = to then Inl (InvalidBuild from to)
      else if build_is_terminal from then Inl (TerminalBuild from to)
      else if (from, to) \<in> {(BPending, BActive), (BActive, BSucceeded), (BActive, BFailed),
                             (BActive, BCancelled), (BPending, BCancelled)}
      then Inr ()
      else Inl (InvalidBuild from to))"

fun build_as_str :: "BuildState \<Rightarrow> string" where
  "build_as_str BPending = ''pending''"
| "build_as_str BActive = ''active''"
| "build_as_str BSucceeded = ''succeeded''"
| "build_as_str BFailed = ''failed''"
| "build_as_str BCancelled = ''cancelled''"
| "build_as_str BUnspecified = ''unspecified''"

definition build_parse_db :: "string \<Rightarrow> TransitionError + BuildState" where
  "build_parse_db s =
     (if s = ''pending'' then Inr BPending
      else if s = ''active'' then Inr BActive
      else if s = ''succeeded'' then Inr BSucceeded
      else if s = ''failed'' then Inr BFailed
      else if s = ''cancelled'' then Inr BCancelled
      else Inl (UnknownBuildState s))"

lemma build_str_roundtrip:
  "build_parse_db (build_as_str b) = (if b = BUnspecified then Inl (UnknownBuildState ''unspecified'') else Inr b)"
  by (cases b) (simp_all add: build_parse_db_def)

text \<open>The result status of a failure is a message enum of the wire schema: a type variable here.\<close>

record 'r FirstFailure =
  summary :: string
  failed_drv :: "string option"
  failure_status :: "'r option"

datatype 'r TerminalOutcome = Succeeded "string list" | FailedOutcome "'r FirstFailure" | CancelledOutcome string

fun outcome_build_state :: "'r TerminalOutcome \<Rightarrow> BuildState" where
  "outcome_build_state (Succeeded _) = BSucceeded"
| "outcome_build_state (FailedOutcome _) = BFailed"
| "outcome_build_state (CancelledOutcome _) = BCancelled"

record SettledCounts =
  total :: u32
  completed :: u32
  cached :: u32
  failed :: u32

record 'r SettledBuild =
  counts :: SettledCounts
  outcome :: "'r TerminalOutcome"

datatype 'r Lifecycle = LPending | LActive | LTerminal "'r SettledBuild"

record 'r BuildInfo =
  lifecycle :: "'r Lifecycle"
  first_failure :: "'r FirstFailure option"

definition build_new_pending :: "'r BuildInfo" where
  "build_new_pending = \<lparr>lifecycle = LPending, first_failure = None\<rparr>"

definition build_state :: "'r BuildInfo \<Rightarrow> BuildState" where
  "build_state b = (case lifecycle b of
     LPending \<Rightarrow> BPending | LActive \<Rightarrow> BActive | LTerminal s \<Rightarrow> outcome_build_state (outcome s))"

definition build_settled :: "'r BuildInfo \<Rightarrow> 'r SettledBuild option" where
  "build_settled b = (case lifecycle b of LTerminal s \<Rightarrow> Some s | _ \<Rightarrow> None)"

definition build_transition :: "'r BuildInfo \<Rightarrow> BuildState \<Rightarrow> 'r BuildInfo \<times> (TransitionError + BuildState)" where
  "build_transition b to =
     (let from = build_state b in
      case build_validate_transition from to of
        Inl e \<Rightarrow> (b, Inl e)
      | Inr _ \<Rightarrow>
          if build_is_terminal to then (b, Inl (InvalidBuild from to))
          else if to = BActive then (b\<lparr>lifecycle := LActive\<rparr>, Inr from)
          else (b, Inl (InvalidBuild from to)))"

definition build_transition_terminal ::
  "'r BuildInfo \<Rightarrow> 'r SettledBuild \<Rightarrow> 'r BuildInfo \<times> (TransitionError + BuildState)" where
  "build_transition_terminal b s =
     (let from = build_state b in
      case build_validate_transition from (outcome_build_state (outcome s)) of
        Inl e \<Rightarrow> (b, Inl e)
      | Inr _ \<Rightarrow> (b\<lparr>lifecycle := LTerminal s\<rparr>, Inr from))"

definition note_first_failure :: "'r BuildInfo \<Rightarrow> 'r FirstFailure \<Rightarrow> 'r BuildInfo" where
  "note_first_failure b f =
     b\<lparr>first_failure := (case first_failure b of Some g \<Rightarrow> Some g | None \<Rightarrow> Some f)\<rparr>"

definition override_failure_build_level :: "'r BuildInfo \<Rightarrow> string \<Rightarrow> 'r \<Rightarrow> 'r BuildInfo" where
  "override_failure_build_level b text st =
     b\<lparr>first_failure := Some \<lparr>summary = text, failed_drv = None, failure_status = Some st\<rparr>\<rparr>"

inductive build_step :: "'r BuildInfo \<Rightarrow> 'r BuildInfo \<Rightarrow> bool" where
  build_step_transition: "build_step b (fst (build_transition b to))"
| build_step_terminal: "build_step b (fst (build_transition_terminal b s))"
| build_step_note: "build_step b (note_first_failure b f)"
| build_step_override: "build_step b (override_failure_build_level b text st)"

lemma build_terminal_settled: "build_is_terminal (build_state b) \<longleftrightarrow> build_settled b \<noteq> None"
proof (cases "lifecycle b")
  case (LTerminal s)
  then show ?thesis
    by (cases "outcome s") (simp_all add: build_state_def build_settled_def build_is_terminal_def)
qed (simp_all add: build_state_def build_settled_def build_is_terminal_def)

lemma build_terminal_refuses:
  "build_is_terminal from \<Longrightarrow> \<exists>e. build_validate_transition from to = Inl e"
  by (simp add: build_validate_transition_def)

lemma build_step_settled:
  assumes "build_step b b'" "build_settled b = Some x"
  shows "build_settled b' = Some x"
proof -
  have t: "build_is_terminal (build_state b)" using assms(2) by (simp add: build_terminal_settled)
  from assms(1) show ?thesis
  proof cases
    case (build_step_transition to)
    with build_terminal_refuses [OF t, of to] assms(2) show ?thesis by (auto simp: build_transition_def Let_def)
  next
    case (build_step_terminal s)
    with build_terminal_refuses [OF t, of "outcome_build_state (outcome s)"] assms(2) show ?thesis
      by (auto simp: build_transition_terminal_def Let_def)
  qed (use assms(2) in \<open>simp_all add: build_settled_def note_first_failure_def override_failure_build_level_def\<close>)
qed

text \<open>
  C18. A build settles once. Over every sequence of calls, a build is in a terminal state exactly when it
  carries its settled record, and from then on that record, outcome and counts included, is
  never replaced, whatever transitions or failures are reported later.
\<close>

theorem build_settles_once:
  assumes "build_step\<^sup>*\<^sup>* b b'"
  shows "(build_is_terminal (build_state b') \<longleftrightarrow> build_settled b' \<noteq> None)
    \<and> (build_settled b = Some x \<longrightarrow> build_settled b' = Some x \<and> build_state b' = outcome_build_state (outcome x))"
proof -
  from assms have "build_settled b = Some x \<Longrightarrow> build_settled b' = Some x"
    by (induction rule: rtranclp_induct) (auto dest: build_step_settled)
  moreover have "build_settled b' = Some x \<Longrightarrow> build_state b' = outcome_build_state (outcome x)"
    by (auto simp: build_settled_def build_state_def split: Lifecycle.splits)
  ultimately show ?thesis by (simp add: build_terminal_settled)
qed

theorem build_settles_once_witness:
  "let b = \<lparr>lifecycle = LTerminal \<lparr>counts = \<lparr>total = 1, completed = 1, cached = 0, failed = 0\<rparr>,
              outcome = Succeeded []\<rparr>, first_failure = None\<rparr> :: nat BuildInfo
   in build_state (fst (build_transition b BActive)) = BSucceeded"
proof -
  let ?s = "\<lparr>counts = \<lparr>total = 1, completed = 1, cached = 0, failed = 0\<rparr>, outcome = Succeeded []\<rparr> :: nat SettledBuild"
  let ?b = "\<lparr>lifecycle = LTerminal ?s, first_failure = None\<rparr> :: nat BuildInfo"
  have "build_step\<^sup>*\<^sup>* ?b (fst (build_transition ?b BActive))"
    by (rule r_into_rtranclp) (rule build_step_transition)
  from build_settles_once [OF this, of ?s] show ?thesis by (simp add: build_settled_def)
qed

end
