(* ===== verification/Sched_Cycle.thy ===== *)
theory Sched_Cycle
  imports Rio_Prelude
begin

text \<open>
  The cycle check of the scheduler's graph (\<open>has_cycle_from\<close> in \<open>rio-scheduler/src/dag/mod.rs\<close>): a
  depth-first search with an explicit stack and three colours, no entry for white, 1 for a node
  on the stack and 2 for a node done with. A frame holds the children still to be visited. The
  loop may run forever on an infinite graph, so it is partial; on a finite graph it
  returns. Children are given by a function to lists, in whatever order the hash set yields them.
\<close>

partial_function (option) cycle_loop ::
  "('n \<Rightarrow> 'n list) \<Rightarrow> ('n \<times> 'n list) list \<Rightarrow> ('n \<rightharpoonup> nat) \<Rightarrow> (bool \<times> ('n \<rightharpoonup> nat)) option" where
  "cycle_loop children_of stack color =
     (case stack of
        [] \<Rightarrow> Some (False, color)
      | (n, []) # st \<Rightarrow> cycle_loop children_of st (color(n \<mapsto> 2))
      | (n, c # cs) # st \<Rightarrow>
          if color c = Some 1 then Some (True, color)
          else if color c = Some 2 then cycle_loop children_of ((n, cs) # st) color
          else cycle_loop children_of ((c, children_of c) # (n, cs) # st) (color(c \<mapsto> 1)))"

definition has_cycle_from ::
  "('n \<Rightarrow> 'n list) \<Rightarrow> 'n \<Rightarrow> ('n \<rightharpoonup> nat) \<Rightarrow> (bool \<times> ('n \<rightharpoonup> nat)) option" where
  "has_cycle_from children_of start color =
     (if color start = Some 1 then Some (True, color)
      else if color start = Some 2 then Some (False, color)
      else cycle_loop children_of [(start, children_of start)] (color(start \<mapsto> 1)))"

fun any_cycle_from :: "('n \<Rightarrow> 'n list) \<Rightarrow> 'n list \<Rightarrow> ('n \<rightharpoonup> nat) \<Rightarrow> bool option" where
  "any_cycle_from children_of [] color = Some False"
| "any_cycle_from children_of (s # ss) color =
     (case has_cycle_from children_of s color of
        None \<Rightarrow> None
      | Some (b, color) \<Rightarrow> if b then Some True else any_cycle_from children_of ss color)"

section \<open>The search invariant\<close>

definition arcs :: "('n \<Rightarrow> 'n list) \<Rightarrow> ('n \<times> 'n) set" where
  "arcs adj = {(p, c). c \<in> set (adj p)}"

definition coloured :: "nat \<Rightarrow> ('n \<rightharpoonup> nat) \<Rightarrow> 'n set" where
  "coloured k color = {n. color n = Some k}"

text \<open>Done nodes lead only to done nodes, and none of them is on a cycle.\<close>

definition done_ok :: "('n \<Rightarrow> 'n list) \<Rightarrow> ('n \<rightharpoonup> nat) \<Rightarrow> bool" where
  "done_ok adj color \<longleftrightarrow> (\<forall>b\<in>coloured 2 color. set (adj b) \<subseteq> coloured 2 color \<and> (b, b) \<notin> (arcs adj)\<^sup>+)"

text \<open>Each frame's children are done, still to be visited, or the node of the frame above.\<close>

fun stack_ok :: "('n \<Rightarrow> 'n list) \<Rightarrow> ('n \<rightharpoonup> nat) \<Rightarrow> 'n set \<Rightarrow> ('n \<times> 'n list) list \<Rightarrow> bool" where
  "stack_ok adj color up [] = True"
| "stack_ok adj color up ((n, cs) # st) =
     (set cs \<subseteq> set (adj n) \<and> up \<subseteq> set (adj n) \<and> set (adj n) \<subseteq> coloured 2 color \<union> set cs \<union> up
      \<and> stack_ok adj color {n} st)"

definition search_inv :: "('n \<Rightarrow> 'n list) \<Rightarrow> ('n \<times> 'n list) list \<Rightarrow> ('n \<rightharpoonup> nat) \<Rightarrow> bool" where
  "search_inv adj stack color \<longleftrightarrow>
     done_ok adj color \<and> stack_ok adj color {} stack \<and> distinct (map fst stack)
     \<and> coloured 1 color = fst ` set stack \<and> ran color \<subseteq> {1, 2}"

lemma stack_ok_mono: "coloured 2 color \<subseteq> coloured 2 color' \<Longrightarrow> stack_ok adj color A st \<Longrightarrow> stack_ok adj color' A st"
  by (induction adj color A st rule: stack_ok.induct) auto

lemma stack_reaches:
  "stack_ok adj color A st \<Longrightarrow> m \<in> fst ` set st \<Longrightarrow> a \<in> A \<Longrightarrow> (m, a) \<in> (arcs adj)\<^sup>+"
proof (induction adj color A st arbitrary: a rule: stack_ok.induct)
  case (2 adj color A n cs st)
  have na: "(n, a) \<in> (arcs adj)\<^sup>+" using 2(2,4) by (auto simp: arcs_def)
  show ?case
  proof (cases "m = n")
    case False
    hence "(m, n) \<in> (arcs adj)\<^sup>+" using 2 by auto
    from this na show ?thesis by (rule trancl_trans)
  qed (use na in simp)
qed simp

lemma closed_trancl:
  assumes "\<And>b. b \<in> B \<Longrightarrow> set (adj b) \<subseteq> B" "(x, y) \<in> (arcs adj)\<^sup>+" "x \<in> B"
  shows "y \<in> B"
  using assms(2,3) by (induction rule: trancl_induct) (use assms(1) in \<open>auto simp: arcs_def\<close>)

lemma finish_ok:
  assumes "search_inv adj ((n, []) # st) color"
  shows "search_inv adj st (color(n \<mapsto> 2))"
proof -
  have inv: "done_ok adj color" "set (adj n) \<subseteq> coloured 2 color" "stack_ok adj color {n} st"
    "distinct (n # map fst st)" "coloured 1 color = insert n (fst ` set st)"
    using assms by (simp_all add: search_inv_def)
  have two: "coloured 2 (color(n \<mapsto> 2)) = insert n (coloured 2 color)" by (auto simp: coloured_def)
  have one: "coloured 1 (color(n \<mapsto> 2)) = coloured 1 color - {n}" by (auto simp: coloured_def)
  have "n \<in> coloured 1 color" using inv(5) by simp
  hence n: "n \<notin> coloured 2 color" by (simp add: coloured_def)
  have "(n, n) \<notin> (arcs adj)\<^sup>+"
  proof
    assume "(n, n) \<in> (arcs adj)\<^sup>+"
    then obtain c where c: "(n, c) \<in> arcs adj" "(c, n) \<in> (arcs adj)\<^sup>*" by (meson tranclD)
    hence "c \<in> coloured 2 color" using inv(2) by (auto simp: arcs_def)
    with c(2) inv(1) have "n \<in> coloured 2 color"
      using closed_trancl [of "coloured 2 color" adj c n] by (auto simp: done_ok_def rtrancl_eq_or_trancl)
    with n show False by simp
  qed
  hence "done_ok adj (color(n \<mapsto> 2))" using inv(1,2) by (auto simp: done_ok_def two)
  moreover have "stack_ok adj (color(n \<mapsto> 2)) {} st"
  proof (cases st)
    case (Cons f fs)
    obtain m ms where f: "f = (m, ms)" by (cases f)
    have "stack_ok adj (color(n \<mapsto> 2)) {m} fs"
      using inv(3) Cons f two by (auto intro: stack_ok_mono [of color])
    with inv(3) Cons f two show ?thesis by auto
  qed simp
  moreover have "ran (color(n \<mapsto> 2)) \<subseteq> {1, 2}" using assms by (auto simp: search_inv_def ran_def)
  ultimately show ?thesis using inv(4,5) one by (auto simp: search_inv_def)
qed

lemma push_ok:
  assumes "search_inv adj ((n, c # cs) # st) color" "color c \<noteq> Some 1" "color c \<noteq> Some 2"
  shows "search_inv adj ((c, adj c) # (n, cs) # st) (color(c \<mapsto> 1))"
proof -
  have two: "coloured 2 (color(c \<mapsto> 1)) = coloured 2 color" using assms(3) by (auto simp: coloured_def)
  have one: "coloured 1 (color(c \<mapsto> 1)) = insert c (coloured 1 color)" by (auto simp: coloured_def)
  have c: "c \<notin> fst ` set ((n, c # cs) # st)" using assms(1,2) by (auto simp: search_inv_def coloured_def)
  have "stack_ok adj (color(c \<mapsto> 1)) {n} st"
    using assms(1) two by (auto simp: search_inv_def intro: stack_ok_mono [of color])
  moreover have "ran (color(c \<mapsto> 1)) \<subseteq> {1, 2}" using assms(1) by (auto simp: search_inv_def ran_def)
  ultimately show ?thesis using assms(1) two one c by (auto simp: search_inv_def done_ok_def)
qed

lemma skip_ok:
  assumes "search_inv adj ((n, c # cs) # st) color" "color c = Some 2"
  shows "search_inv adj ((n, cs) # st) color"
  using assms by (auto simp: search_inv_def coloured_def)

section \<open>The search returns, and its answer is exact\<close>

definition search_size :: "'n set \<Rightarrow> ('n \<times> 'n list) list \<Rightarrow> ('n \<rightharpoonup> nat) \<Rightarrow> nat \<times> nat" where
  "search_size U stack color = (card (U - dom color), sum_list (map (\<lambda>(_, cs). Suc (length cs)) stack))"

lemma cycle_loop_exact:
  assumes "finite U" "\<And>n. n \<in> U \<Longrightarrow> set (adj n) \<subseteq> U"
  shows "search_inv adj stack color \<Longrightarrow> fst ` set stack \<subseteq> U \<Longrightarrow>
    \<exists>b color'. cycle_loop adj stack color = Some (b, color')
      \<and> (if b then \<exists>x. (\<exists>n\<in>fst ` set stack. (n, x) \<in> (arcs adj)\<^sup>*) \<and> (x, x) \<in> (arcs adj)\<^sup>+
         else search_inv adj [] color' \<and> fst ` set stack \<union> coloured 2 color \<subseteq> coloured 2 color')"
proof (induction "search_size U stack color" arbitrary: stack color
    rule: wf_induct_rule [OF wf_lex_prod [OF wf_less_than wf_less_than]])
  case 1
  note IH = 1(1) and inv = 1(2) and U = 1(3)
  consider (empty) "stack = []" | (pop) n st where "stack = (n, []) # st"
    | (child) n c cs st where "stack = (n, c # cs) # st"
    by (metis list.exhaust surj_pair)
  thus ?case
  proof cases
    case empty
    thus ?thesis using inv by (subst cycle_loop.simps) auto
  next
    case pop
    have "search_inv adj st (color(n \<mapsto> 2))" using inv pop by (auto intro: finish_ok)
    moreover have "(search_size U st (color(n \<mapsto> 2)), search_size U stack color) \<in> less_than <*lex*> less_than"
    proof -
      have "n \<in> dom color" using inv pop by (auto simp: search_inv_def coloured_def)
      thus ?thesis by (simp add: search_size_def pop insert_absorb)
    qed
    moreover have "fst ` set st \<subseteq> U" using U pop by auto
    ultimately obtain b color' where r: "cycle_loop adj st (color(n \<mapsto> 2)) = Some (b, color')"
      "if b then \<exists>x. (\<exists>n\<in>fst ` set st. (n, x) \<in> (arcs adj)\<^sup>*) \<and> (x, x) \<in> (arcs adj)\<^sup>+
       else search_inv adj [] color' \<and> fst ` set st \<union> coloured 2 (color(n \<mapsto> 2)) \<subseteq> coloured 2 color'"
      using IH by blast
    have "coloured 2 (color(n \<mapsto> 2)) = insert n (coloured 2 color)" by (auto simp: coloured_def)
    with r show ?thesis by (subst cycle_loop.simps) (cases b; auto simp: pop)
  next
    case (child n c cs st)
    have c: "c \<in> set (adj n)" "c \<in> U" using inv U assms(2) child by (auto simp: search_inv_def)
    consider (grey) "color c = Some 1" | (black) "color c = Some 2" | (white) "color c \<noteq> Some 1" "color c \<noteq> Some 2"
      by blast
    thus ?thesis
    proof cases
      case grey
      hence "c \<in> fst ` set stack" using inv by (auto simp: search_inv_def coloured_def)
      moreover have "(c, c) \<in> (arcs adj)\<^sup>+"
      proof (cases "c = n")
        case False
        hence "c \<in> fst ` set st" using \<open>c \<in> fst ` set stack\<close> child by auto
        hence "(c, n) \<in> (arcs adj)\<^sup>+" using stack_reaches [of adj color "{n}" st c n] inv child by (simp add: search_inv_def)
        thus ?thesis using c(1) by (auto simp: arcs_def intro: trancl_into_trancl)
      qed (use c(1) in \<open>auto simp: arcs_def\<close>)
      ultimately show ?thesis using grey by (subst cycle_loop.simps) (auto simp: child)
    next
      case black
      have "search_inv adj ((n, cs) # st) color" using inv child black by (auto intro: skip_ok)
      moreover have "(search_size U ((n, cs) # st) color, search_size U stack color) \<in> less_than <*lex*> less_than"
        by (simp add: search_size_def child)
      moreover have "fst ` set ((n, cs) # st) \<subseteq> U" using U child by auto
      ultimately obtain b color' where r: "cycle_loop adj ((n, cs) # st) color = Some (b, color')"
        "if b then \<exists>x. (\<exists>n\<in>fst ` set ((n, cs) # st). (n, x) \<in> (arcs adj)\<^sup>*) \<and> (x, x) \<in> (arcs adj)\<^sup>+
         else search_inv adj [] color' \<and> fst ` set ((n, cs) # st) \<union> coloured 2 color \<subseteq> coloured 2 color'"
        using IH by blast
      with black show ?thesis by (subst cycle_loop.simps) (cases b; auto simp: child)
    next
      case white
      have none: "color c = None" using inv white by (cases "color c") (auto simp: search_inv_def ran_def)
      let ?st = "(c, adj c) # (n, cs) # st"
      have "search_inv adj ?st (color(c \<mapsto> 1))" by (rule push_ok [OF inv [unfolded child] white])
      moreover have "fst ` set ?st \<subseteq> U" using U child c(2) by auto
      moreover have "card (U - dom (color(c \<mapsto> 1))) < card (U - dom color)"
        using assms(1) c(2) none by (intro psubset_card_mono) auto
      ultimately obtain b color' where r: "cycle_loop adj ?st (color(c \<mapsto> 1)) = Some (b, color')"
        "if b then \<exists>x. (\<exists>n\<in>fst ` set ?st. (n, x) \<in> (arcs adj)\<^sup>*) \<and> (x, x) \<in> (arcs adj)\<^sup>+
         else search_inv adj [] color' \<and> fst ` set ?st \<union> coloured 2 (color(c \<mapsto> 1)) \<subseteq> coloured 2 color'"
        using IH [of ?st "color(c \<mapsto> 1)"] by (auto simp: search_size_def)
      have "(n, x) \<in> (arcs adj)\<^sup>*" if "(c, x) \<in> (arcs adj)\<^sup>*" for x
        using that c(1) by (auto simp: arcs_def intro: converse_rtrancl_into_rtrancl)
      moreover have "coloured 2 (color(c \<mapsto> 1)) = coloured 2 color" using white(2) by (auto simp: coloured_def)
      ultimately show ?thesis using r white by (subst cycle_loop.simps) (cases b; auto simp: child)
    qed
  qed
qed

lemma has_cycle_from_exact:
  assumes "finite U" "\<And>n. n \<in> U \<Longrightarrow> set (adj n) \<subseteq> U" "search_inv adj [] color" "s \<in> U"
  shows "\<exists>b color'. has_cycle_from adj s color = Some (b, color')
      \<and> (if b then \<exists>x. (s, x) \<in> (arcs adj)\<^sup>* \<and> (x, x) \<in> (arcs adj)\<^sup>+
         else search_inv adj [] color' \<and> insert s (coloured 2 color) \<subseteq> coloured 2 color')"
proof (cases "color s")
  case None
  have two: "coloured 2 (color(s \<mapsto> 1)) = coloured 2 color" using None by (auto simp: coloured_def)
  have one: "coloured 1 (color(s \<mapsto> 1)) = insert s (coloured 1 color)" by (auto simp: coloured_def)
  have "search_inv adj [(s, adj s)] (color(s \<mapsto> 1))"
    using assms(3) None one two by (auto simp: search_inv_def done_ok_def ran_def)
  then obtain b color' where "cycle_loop adj [(s, adj s)] (color(s \<mapsto> 1)) = Some (b, color')"
    "if b then \<exists>x. (\<exists>n\<in>fst ` set [(s, adj s)]. (n, x) \<in> (arcs adj)\<^sup>*) \<and> (x, x) \<in> (arcs adj)\<^sup>+
     else search_inv adj [] color' \<and> fst ` set [(s, adj s)] \<union> coloured 2 (color(s \<mapsto> 1)) \<subseteq> coloured 2 color'"
    using cycle_loop_exact [where U = U and adj = adj and stack = "[(s, adj s)]" and color = "color(s \<mapsto> 1)"]
      assms(1,2,4) by auto
  with two None show ?thesis by (cases b) (auto simp: has_cycle_from_def)
next
  case (Some k)
  with assms(3) have "k = 2" by (auto simp: search_inv_def coloured_def ran_def)
  with Some assms(3) show ?thesis by (auto simp: has_cycle_from_def coloured_def)
qed

definition cycle_below :: "('n \<Rightarrow> 'n list) \<Rightarrow> 'n \<Rightarrow> bool" where
  "cycle_below adj s \<longleftrightarrow> (\<exists>x. (s, x) \<in> (arcs adj)\<^sup>* \<and> (x, x) \<in> (arcs adj)\<^sup>+)"

lemma done_no_cycle:
  assumes "done_ok adj color" "s \<in> coloured 2 color"
  shows "\<not> cycle_below adj s"
proof
  assume "cycle_below adj s"
  then obtain x where x: "(s, x) \<in> (arcs adj)\<^sup>*" "(x, x) \<in> (arcs adj)\<^sup>+" by (auto simp: cycle_below_def)
  have "x \<in> coloured 2 color"
    using closed_trancl [of "coloured 2 color" adj s x] assms x(1) by (auto simp: done_ok_def rtrancl_eq_or_trancl)
  with x(2) assms(1) show False by (auto simp: done_ok_def)
qed

lemma any_cycle_from_inv:
  assumes "finite U" "\<And>n. n \<in> U \<Longrightarrow> set (adj n) \<subseteq> U"
  shows "search_inv adj [] color \<Longrightarrow> set ss \<subseteq> U \<Longrightarrow>
    any_cycle_from adj ss color = Some (\<exists>s\<in>set ss. cycle_below adj s)"
proof (induction ss arbitrary: color)
  case (Cons s ss)
  obtain b color' where r: "has_cycle_from adj s color = Some (b, color')"
    "if b then \<exists>x. (s, x) \<in> (arcs adj)\<^sup>* \<and> (x, x) \<in> (arcs adj)\<^sup>+
     else search_inv adj [] color' \<and> insert s (coloured 2 color) \<subseteq> coloured 2 color'"
    using has_cycle_from_exact [where U = U and adj = adj and s = s, OF assms(1) _ Cons.prems(1)] assms(2) Cons.prems(2)
    by auto
  show ?case
  proof (cases b)
    case True
    with r show ?thesis by (auto simp: cycle_below_def)
  next
    case False
    hence "\<not> cycle_below adj s" using r(2) done_no_cycle [of adj color' s] by (simp add: search_inv_def)
    with False r Cons.IH [of color'] Cons.prems(2) show ?thesis by auto
  qed
qed simp

lemma any_cycle_from_exact:
  assumes "finite U" "\<And>n. n \<in> U \<Longrightarrow> set (adj n) \<subseteq> U" "set ss \<subseteq> U"
  shows "any_cycle_from adj ss Map.empty = Some (\<exists>s\<in>set ss. cycle_below adj s)"
  by (rule any_cycle_from_inv [OF assms(1,2) _ assms(3)])
     (auto simp: search_inv_def done_ok_def coloured_def)

end
