(* ===== verification/Rio_Wanted.thy ===== *)
theory Rio_Wanted
  imports Rio_Prelude "HOL-Library.Char_ord" "HOL-Library.List_Lexorder"
begin

text \<open>
  Wanted outputs (\<open>rio-common/src/wanted_outputs.rs\<close>): which of a derivation's outputs its consumers
  ask for. The empty list stands for all declared outputs, so the union of two contributions
  saturates.
\<close>

definition wanted_subset :: "string list \<Rightarrow> string list \<Rightarrow> string list \<Rightarrow> string list" where
  "wanted_subset output_names expected_output_paths wanted =
     map snd (filter (\<lambda>(nm, _). wanted = [] \<or> nm \<in> set wanted) (zip output_names expected_output_paths))"

definition verifiable_wanted_paths :: "string list \<Rightarrow> string list \<Rightarrow> string list \<Rightarrow> string list option" where
  "verifiable_wanted_paths output_names expected_output_paths wanted_output_names =
     (if length output_names \<noteq> length expected_output_paths then None
      else let paths = wanted_subset output_names expected_output_paths wanted_output_names
           in if paths \<noteq> [] \<and> list_all (\<lambda>p. p \<noteq> []) paths then Some paths else None)"

definition union_wanted_saturating :: "string list \<Rightarrow> string list \<Rightarrow> string list" where
  "union_wanted_saturating dst src =
     (if dst = [] \<or> src = [] then []
      else sort (fold (\<lambda>n dst. if n \<in> set dst then dst else dst @ [n]) src dst))"

fun wanted_union_loop :: "string list option \<Rightarrow> string list list \<Rightarrow> string list option" where
  "wanted_union_loop acc [] = acc"
| "wanted_union_loop acc (c # cs) =
     (let acc = (case acc of None \<Rightarrow> Some c | Some dst \<Rightarrow> Some (union_wanted_saturating dst c))
      in if acc = Some [] then Some [] else wanted_union_loop acc cs)"

definition saturating_wanted_union :: "string list list \<Rightarrow> string list option" where
  "saturating_wanted_union contributions = wanted_union_loop None contributions"

text \<open>What a contribution asks for among the declared names.\<close>

definition wants :: "string list \<Rightarrow> string \<Rightarrow> bool" where
  "wants w nm \<longleftrightarrow> w = [] \<or> nm \<in> set w"

lemma push_all: "set (fold (\<lambda>n dst. if n \<in> set dst then dst else dst @ [n]) src dst) = set dst \<union> set src"
  by (induction src arbitrary: dst) auto

lemma union_wanted_nonempty:
  "dst \<noteq> [] \<Longrightarrow> src \<noteq> [] \<Longrightarrow> set (union_wanted_saturating dst src) = set dst \<union> set src"
  by (simp add: union_wanted_saturating_def push_all)

lemma union_wanted_eq_Nil: "union_wanted_saturating dst src = [] \<longleftrightarrow> dst = [] \<or> src = []"
proof (cases "dst = [] \<or> src = []")
  case False
  hence "set (union_wanted_saturating dst src) \<noteq> {}" by (simp add: union_wanted_nonempty)
  thus ?thesis using False by auto
qed (simp add: union_wanted_saturating_def)

lemma wants_union: "wants (union_wanted_saturating dst src) nm \<longleftrightarrow> wants dst nm \<or> wants src nm"
proof (cases "dst = [] \<or> src = []")
  case False
  thus ?thesis using union_wanted_eq_Nil [of dst src] by (simp add: wants_def union_wanted_nonempty)
next
  case True
  thus ?thesis by (auto simp: wants_def union_wanted_saturating_def)
qed

lemma wanted_union_loop_Some:
  "acc \<noteq> [] \<Longrightarrow> \<exists>w. wanted_union_loop (Some acc) cs = Some w \<and> (w = [] \<longleftrightarrow> [] \<in> set cs)
     \<and> (\<forall>nm. wants w nm \<longleftrightarrow> wants acc nm \<or> (\<exists>c\<in>set cs. wants c nm))"
proof (induction cs arbitrary: acc)
  case (Cons c cs)
  show ?case
  proof (cases "c = []")
    case True
    thus ?thesis by (simp add: union_wanted_saturating_def wants_def)
  next
    case False
    hence ne: "union_wanted_saturating acc c \<noteq> []" using Cons.prems by (simp add: union_wanted_eq_Nil)
    from Cons.IH [OF this] False ne show ?thesis by (auto simp: wants_union)
  qed
qed auto

text \<open>
  The effective wanted set. Folding any contributions gives no answer exactly when there are none;
  otherwise a name is wanted exactly when some contribution wants it, and the answer is the
  sentinel for all outputs exactly when some contribution is. A list of paths to verify is
  never empty and never holds a placeholder, and it is given exactly when the arrays are
  parallel and every wanted path is known.
\<close>

lemma wanted_union_exact:
  "(saturating_wanted_union cs = None \<longleftrightarrow> cs = [])
   \<and> (cs = [] \<or> (\<exists>w. saturating_wanted_union cs = Some w \<and> (w = [] \<longleftrightarrow> [] \<in> set cs)
        \<and> (\<forall>nm. wants w nm \<longleftrightarrow> (\<exists>c\<in>set cs. wants c nm))))
   \<and> (verifiable_wanted_paths ns ps ws = Some qs \<longleftrightarrow>
        length ns = length ps \<and> qs \<noteq> [] \<and> [] \<notin> set qs
        \<and> qs = map snd (filter (\<lambda>(nm, _). wants ws nm) (zip ns ps)))"
proof -
  have "cs = [] \<or> (\<exists>w. saturating_wanted_union cs = Some w \<and> (w = [] \<longleftrightarrow> [] \<in> set cs)
        \<and> (\<forall>nm. wants w nm \<longleftrightarrow> (\<exists>c\<in>set cs. wants c nm)))"
  proof (cases cs)
    case (Cons c cs')
    show ?thesis
    proof (cases "c = []")
      case False
      from wanted_union_loop_Some [OF this, of cs'] show ?thesis
        using Cons False by (auto simp: saturating_wanted_union_def)
    qed (auto simp: Cons saturating_wanted_union_def wants_def)
  qed simp
  moreover have "verifiable_wanted_paths ns ps ws = Some qs \<longleftrightarrow>
        length ns = length ps \<and> qs \<noteq> [] \<and> [] \<notin> set qs
        \<and> qs = map snd (filter (\<lambda>(nm, _). wants ws nm) (zip ns ps))"
  proof -
    have "wanted_subset ns ps ws = map snd (filter (\<lambda>(nm, _). wants ws nm) (zip ns ps))"
      by (simp only: wanted_subset_def wants_def)
    thus ?thesis unfolding verifiable_wanted_paths_def Let_def by (metis (mono_tags, lifting) list_all_iff option.inject option.simps(3))
  qed
  moreover have "saturating_wanted_union [] = None" by (simp add: saturating_wanted_union_def)
  ultimately show ?thesis by auto
qed

end
