(* ===== verification/Rio_BTree.thy ===== *)
theory Rio_BTree
  imports Rio_Prelude
begin

text \<open>
  Ordered maps and sets of the standard library as strictly ascending lists: what \<open>insert\<close> and
  \<open>collect\<close> do to them, and iteration in order.
\<close>

fun btree_put :: "'k::linorder \<Rightarrow> 'v \<Rightarrow> ('k \<times> 'v) list \<Rightarrow> ('k \<times> 'v) list" where
  "btree_put k v [] = [(k, v)]"
| "btree_put k v ((k', v') # m) =
     (if k < k' then (k, v) # (k', v') # m
      else if k = k' then (k, v) # m
      else (k', v') # btree_put k v m)"

definition btree_collect :: "('k::linorder \<times> 'v) list \<Rightarrow> ('k \<times> 'v) list" where
  "btree_collect kvs = fold (\<lambda>(k, v). btree_put k v) kvs []"

definition btree_set :: "'a::linorder list \<Rightarrow> 'a list" where
  "btree_set xs = remdups_adj (sort xs)"

abbreviation ascending :: "'a::linorder list \<Rightarrow> bool" where
  "ascending xs \<equiv> sorted_wrt (<) xs"

lemma set_btree_put: "fst ` set (btree_put k v m) = insert k (fst ` set m)"
  by (induction k v m rule: btree_put.induct) auto

lemma btree_put_ascending: "ascending (map fst m) \<Longrightarrow> ascending (map fst (btree_put k v m))"
proof (induction k v m rule: btree_put.induct)
  case (2 k v k' v' m)
  have "\<forall>x\<in>fst ` set (btree_put k v m). k' < x" if "\<not> k < k'" "k \<noteq> k'"
    using that 2(2) unfolding set_btree_put by auto
  with 2 show ?case by auto
qed simp

lemma map_of_btree_put: "ascending (map fst m) \<Longrightarrow> map_of (btree_put k v m) = (map_of m)(k \<mapsto> v)"
  by (induction k v m rule: btree_put.induct) (auto simp: fun_eq_iff)

lemma length_btree_put: "length (btree_put k v m) \<le> Suc (length m)"
  by (induction k v m rule: btree_put.induct) auto

lemma set_btree_put_subset: "set (btree_put k v m) \<subseteq> insert (k, v) (set m)"
  by (induction k v m rule: btree_put.induct) auto

lemma btree_put_last: "\<forall>x\<in>fst ` set m. x < k \<Longrightarrow> btree_put k v m = m @ [(k, v)]"
  by (induction k v m rule: btree_put.induct) auto

lemma btree_collect_snoc: "btree_collect (kvs @ [(k, v)]) = btree_put k v (btree_collect kvs)"
  by (simp add: btree_collect_def)

lemma btree_collect_Nil [simp]: "btree_collect [] = []"
  by (simp add: btree_collect_def)

lemma btree_collect_ascending [simp]: "ascending (map fst (btree_collect kvs))"
proof (induction kvs rule: rev_induct)
  case (snoc x kvs)
  thus ?case by (cases x) (simp add: btree_collect_snoc btree_put_ascending)
qed simp

lemma map_of_btree_collect: "map_of (btree_collect kvs) = map_of (rev kvs)"
proof (induction kvs rule: rev_induct)
  case (snoc x kvs)
  thus ?case by (cases x) (simp add: btree_collect_snoc map_of_btree_put)
qed simp

lemma length_btree_collect: "length (btree_collect kvs) \<le> length kvs"
proof (induction kvs rule: rev_induct)
  case (snoc x kvs)
  thus ?case using length_btree_put [of "fst x" "snd x" "btree_collect kvs"]
    by (cases x) (simp add: btree_collect_snoc)
qed simp

lemma set_btree_collect: "set (btree_collect kvs) \<subseteq> set kvs"
proof (induction kvs rule: rev_induct)
  case (snoc x kvs)
  thus ?case using set_btree_put_subset [of "fst x" "snd x" "btree_collect kvs"]
    by (cases x) (auto simp: btree_collect_snoc)
qed simp

lemma btree_collect_id: "ascending (map fst kvs) \<Longrightarrow> btree_collect kvs = kvs"
proof (induction kvs rule: rev_induct)
  case (snoc x kvs)
  thus ?case by (cases x) (auto simp: btree_collect_snoc sorted_wrt_append intro: btree_put_last)
qed simp

lemma map_of_ascending_unique:
  assumes "ascending (map fst m)" "ascending (map fst m')" "map_of m = map_of m'"
  shows "m = m'"
proof -
  have d: "distinct (map fst m)" "distinct (map fst m')"
    using assms(1,2) by (simp_all add: strict_sorted_iff)
  hence "set m = set m'" using assms(3) by (simp add: map_of_inject_set [symmetric])
  moreover from this have "map fst m = map fst m'"
    using assms(1,2) by (intro strict_sorted_equal) simp_all
  moreover have "map (\<lambda>k. (k, the (map_of xs k))) (map fst xs) = xs" if "distinct (map fst xs)" for xs :: "('a \<times> 'b) list"
    unfolding map_map by (rule map_idI) (use that in auto)
  ultimately show ?thesis using d assms(3) by metis
qed

lemma ascending_btree_set [simp]: "ascending (btree_set xs)"
proof -
  have "sorted ys \<Longrightarrow> distinct (remdups_adj ys)" for ys :: "'a list"
    by (induction ys rule: remdups_adj.induct) auto
  thus ?thesis by (simp add: btree_set_def strict_sorted_iff)
qed

lemma set_btree_set [simp]: "set (btree_set xs) = set xs"
  by (simp add: btree_set_def)

lemma length_btree_set: "length (btree_set xs) \<le> length xs"
  using remdups_adj_length [of "sort xs"] by (simp add: btree_set_def)

lemma btree_set_id: "ascending xs \<Longrightarrow> btree_set xs = xs"
  by (simp add: btree_set_def strict_sorted_iff sort_key_id_if_sorted remdups_adj_distinct)

end
