(* ===== verification/Nix_Base32.thy ===== *)
theory Nix_Base32
  imports Rio_Prelude
begin

text \<open>
  Nix's base-32 text encoding (\<open>nixbase32\<close> in \<open>rio-nix/src/store_path.rs\<close>), with the error type of
  that module. Bytes are 8-bit words, a \<open>str\<close> is its UTF-8 bytes as a list of characters.
  The bit manipulations of \<open>encode\<close> and \<open>decode\<close> are translated as written; the lemmas read both
  as functions on the stream of bits, from which the round trips follow.
\<close>

unbundle bit_operations_syntax

section \<open>Definitions\<close>

type_synonym u8 = "8 word"
type_synonym u16 = "16 word"

datatype StorePathError =
    InvalidPrefix
  | TooShort
  | MissingDash
  | EmptyName
  | NameStartsWithDot
  | NameTooLong nat
  | InvalidNameChar char
  | InvalidBase32Char char
  | InvalidBase32Length nat nat
  | InvalidBase32Padding
  | FixedOutputRefsNotAllowed string bool
  | TextHashMustBeSha256 string

definition CHARS :: string where
  "CHARS = ''0123456789abcdfghijklmnpqrsvwxyz''"

definition encode_digit :: "u8 list \<Rightarrow> nat \<Rightarrow> u16" where
  "encode_digit input i =
     (let bit_pos = i * 5;
          byte_idx = bit_pos div 8;
          bit_offset = bit_pos mod 8;
          lo = (if byte_idx < length input then drop_bit bit_offset (ucast (input ! byte_idx) :: u16) else 0);
          val = (if bit_offset > 3 \<and> byte_idx + 1 < length input
                 then lo OR push_bit (8 - bit_offset) (ucast (input ! (byte_idx + 1))) else lo)
      in val AND 0x1f)"

definition encoded_len :: "nat \<Rightarrow> nat" where
  "encoded_len n = (n * 8 + 4) div 5"

definition encode :: "u8 list \<Rightarrow> string" where
  "encode input =
     (if input = [] then ''''
      else rev (map (\<lambda>i. CHARS ! unat (encode_digit input i)) [0..<encoded_len (length input)]))"

definition char_to_digit :: "char \<Rightarrow> StorePathError + u8" where
  "char_to_digit ch =
     (let c = (of_char ch :: u8) in
      if 48 \<le> c \<and> c \<le> 57 then Inr (c - 48)
      else if 97 \<le> c \<and> c \<le> 100 then Inr (c - 97 + 10)
      else if 102 \<le> c \<and> c \<le> 110 then Inr (c - 102 + 14)
      else if 112 \<le> c \<and> c \<le> 115 then Inr (c - 112 + 23)
      else if 118 \<le> c \<and> c \<le> 122 then Inr (c - 118 + 27)
      else Inl (InvalidBase32Char ch))"

definition place_digit :: "u8 list \<Rightarrow> nat \<Rightarrow> u8 \<Rightarrow> StorePathError + u8 list" where
  "place_digit out i digit =
     (let bit_pos = i * 5;
          byte_idx = bit_pos div 8;
          bit_offset = bit_pos mod 8;
          lo = push_bit bit_offset digit
      in if byte_idx < length out \<or> lo = 0
         then
           (let out = (if byte_idx < length out then out[byte_idx := out ! byte_idx OR lo] else out) in
            if bit_offset > 3
            then (let hi = drop_bit (8 - bit_offset) digit in
                  if byte_idx + 1 < length out then Inr (out[byte_idx + 1 := out ! (byte_idx + 1) OR hi])
                  else if hi \<noteq> 0 then Inl InvalidBase32Padding
                  else Inr out)
            else Inr out)
         else Inl InvalidBase32Padding)"

text \<open>The loop, over the characters from the last to the first.\<close>

fun decode_loop :: "nat \<Rightarrow> u8 list \<Rightarrow> string \<Rightarrow> StorePathError + u8 list" where
  "decode_loop i out [] = Inr out"
| "decode_loop i out (c # cs) =
     (case char_to_digit c of
        Inl e \<Rightarrow> Inl e
      | Inr digit \<Rightarrow>
          (case place_digit out i digit of
             Inl e \<Rightarrow> Inl e
           | Inr out' \<Rightarrow> decode_loop (i + 1) out' cs))"

definition decode :: "string \<Rightarrow> StorePathError + u8 list" where
  "decode input = decode_loop 0 (replicate (length input * 5 div 8) 0) (rev input)"

section \<open>Bits\<close>

definition bit_at :: "u8 list \<Rightarrow> nat \<Rightarrow> bool" where
  "bit_at bs p \<longleftrightarrow> p div 8 < length bs \<and> bit (bs ! (p div 8)) (p mod 8)"

lemma bit_at_less: "bit_at bs p \<Longrightarrow> p < 8 * length bs"
  by (auto simp: bit_at_def)

lemma bytes_eqI:
  assumes "length xs = length ys" "\<And>p. bit_at xs p \<longleftrightarrow> bit_at ys p"
  shows "xs = ys"
proof (rule nth_equalityI)
  fix j assume j: "j < length xs"
  show "xs ! j = ys ! j"
  proof (rule bit_word_eqI)
    fix n assume "n < LENGTH(8)"
    with assms(2) [of "8 * j + n"] j assms(1) show "bit (xs ! j) n \<longleftrightarrow> bit (ys ! j) n"
      by (simp add: bit_at_def)
  qed
qed (rule assms(1))

lemma and_mask5: "v AND 0x1f = take_bit 5 v" for v :: u16
  by (simp add: take_bit_eq_mask mask_eq_exp_minus_1)

lemma encode_digit_bits: "bit (encode_digit bs i) k \<longleftrightarrow> k < 5 \<and> bit_at bs (5 * i + k)"
proof (cases "k < 5")
  case True
  define b r where "b = i * 5 div 8" and "r = i * 5 mod 8"
  have p: "5 * i + k = 8 * b + (r + k)" and r: "r < 8" by (simp_all add: b_def r_def)
  show ?thesis
  proof (cases "r + k < 8")
    case lo: True
    hence "(5 * i + k) div 8 = b" "(5 * i + k) mod 8 = r + k" unfolding p by simp_all
    moreover have "r > 3 \<Longrightarrow> \<not> 8 - r \<le> k" using lo by simp
    ultimately show ?thesis using True lo r
      by (auto simp: encode_digit_def Let_def b_def [symmetric] r_def [symmetric] bit_at_def bit_simps and_mask5)
  next
    case False
    hence hi: "r > 3" "8 - r \<le> k" "k - (8 - r) < 8" using True r by simp_all
    have "5 * i + k = 8 * (b + 1) + (k - (8 - r))" using hi(2) r p by simp
    hence "(5 * i + k) div 8 = b + 1" "(5 * i + k) mod 8 = k - (8 - r)"
      using hi(3) by (simp_all only: div_mult_self4 mod_mult_self4) simp_all
    moreover have "\<not> bit (bs ! b) (r + k)" using False bit_imp_le_length [of "bs ! b" "r + k"] by auto
    ultimately show ?thesis using True False hi r
      by (auto simp: encode_digit_def Let_def b_def [symmetric] r_def [symmetric] bit_at_def bit_simps and_mask5)
  qed
qed (simp add: encode_digit_def Let_def bit_simps and_mask5)

lemma bit_at_update:
  assumes "j < length bs"
  shows "bit_at (bs[j := bs ! j OR w]) p \<longleftrightarrow> bit_at bs p \<or> p div 8 = j \<and> bit w (p mod 8)"
  using assms by (auto simp: bit_at_def nth_list_update bit_simps)

text \<open>The two halves of a digit shifted to offset \<open>r\<close>: which of its bits each holds, and where.\<close>

lemma digit_lo_zero:
  fixes d :: u8
  assumes "r < 8"
  shows "push_bit r d = 0 \<longleftrightarrow> (\<forall>k. bit d k \<longrightarrow> 8 \<le> r + k)"
proof
  assume "push_bit r d = 0"
  hence "\<not> bit (push_bit r d) (r + k)" for k by simp
  thus "\<forall>k. bit d k \<longrightarrow> 8 \<le> r + k" by (simp add: bit_simps) (meson not_le)
next
  assume *: "\<forall>k. bit d k \<longrightarrow> 8 \<le> r + k"
  show "push_bit r d = 0" by (rule bit_word_eqI) (use * in \<open>fastforce simp: bit_simps\<close>)
qed

lemma digit_hi_zero:
  fixes d :: u8
  assumes "r < 8"
  shows "drop_bit (8 - r) d = 0 \<longleftrightarrow> (\<forall>k. bit d k \<longrightarrow> r + k < 8)"
proof
  assume *: "drop_bit (8 - r) d = 0"
  show "\<forall>k. bit d k \<longrightarrow> r + k < 8"
  proof (intro allI impI, rule ccontr)
    fix k assume "bit d k" "\<not> r + k < 8"
    hence "bit (drop_bit (8 - r) d) (k - (8 - r))" using assms by (simp add: bit_simps)
    with * show False by simp
  qed
next
  assume *: "\<forall>k. bit d k \<longrightarrow> r + k < 8"
  show "drop_bit (8 - r) d = 0"
    by (rule bit_word_eqI) (use * assms in \<open>fastforce simp: bit_simps\<close>)
qed

lemma digit_positions:
  fixes d :: u8
  assumes "r < 8" "\<And>k. bit d k \<Longrightarrow> k < 5"
  shows "(\<exists>k<5. p = 8 * b + r + k \<and> bit d k) \<longleftrightarrow>
      p div 8 = b \<and> bit (push_bit r d) (p mod 8)
      \<or> r > 3 \<and> p div 8 = b + 1 \<and> bit (drop_bit (8 - r) d) (p mod 8)" (is "?L \<longleftrightarrow> ?R")
proof
  assume ?L
  then obtain k where k: "k < 5" "p = 8 * b + (r + k)" "bit d k" by auto
  show ?R
  proof (cases "r + k < 8")
    case True
    thus ?thesis using k by (simp add: bit_simps)
  next
    case False
    hence "p = 8 * (b + 1) + (r + k - 8)" "r + k - 8 < 8" using k(1,2) assms(1) by simp_all
    hence "p div 8 = b + 1" "p mod 8 = r + k - 8" by (simp_all only: div_mult_self4 mod_mult_self4) simp_all
    thus ?thesis using k False assms(1) by (simp add: bit_simps)
  qed
next
  have p: "p = 8 * (p div 8) + p mod 8" by simp
  assume ?R
  thus ?L
  proof
    assume *: "p div 8 = b \<and> bit (push_bit r d) (p mod 8)"
    hence "r \<le> p mod 8" "bit d (p mod 8 - r)" by (auto simp: bit_simps)
    moreover have "p = 8 * b + r + (p mod 8 - r)" using * p calculation(1) by linarith
    ultimately show ?L using assms(2) by blast
  next
    assume *: "r > 3 \<and> p div 8 = b + 1 \<and> bit (drop_bit (8 - r) d) (p mod 8)"
    hence "bit d (8 - r + p mod 8)" by (simp add: bit_simps)
    moreover have "p = 8 * b + r + (8 - r + p mod 8)" using * p assms(1) by linarith
    ultimately show ?L using assms(2) by blast
  qed
qed

text \<open>Placing a digit sets its bits, and fails exactly when one of them has no place.\<close>

lemma place_digit_bits:
  assumes "take_bit 5 d = d"
  shows "case place_digit out i d of
      Inl e \<Rightarrow> e = InvalidBase32Padding \<and> (\<exists>k<5. bit d k \<and> 8 * length out \<le> 5 * i + k)
    | Inr out' \<Rightarrow> length out' = length out
        \<and> (\<forall>k<5. bit d k \<longrightarrow> 5 * i + k < 8 * length out)
        \<and> (\<forall>p. bit_at out' p \<longleftrightarrow> bit_at out p \<or> (\<exists>k<5. p = 5 * i + k \<and> bit d k))"
proof -
  define b r where "b = i * 5 div 8" and "r = i * 5 mod 8"
  have i: "5 * i = 8 * b + r" and r: "r < 8" by (simp_all add: b_def r_def)
  have d5: "bit d k \<Longrightarrow> k < 5" for k using assms bit_take_bit_iff [of 5 d k] by simp
  have pos: "(\<exists>k<5. p = 8 * b + r + k \<and> bit d k) \<longleftrightarrow> p div 8 = b \<and> bit (push_bit r d) (p mod 8)
      \<or> r > 3 \<and> p div 8 = b + 1 \<and> bit (drop_bit (8 - r) d) (p mod 8)" for p
    by (rule digit_positions [OF r d5])
  note zeros = digit_lo_zero [OF r, of d] digit_hi_zero [OF r, of d]
  let ?lo = "push_bit r d" and ?hi = "drop_bit (8 - r) d"
  let ?out1 = "out[b := out ! b OR ?lo]"
  note def = place_digit_def Let_def b_def [symmetric] r_def [symmetric]
  have room: "8 * b + r + k < 8 * length out \<longleftrightarrow> (if r + k < 8 then b < length out else b + 1 < length out)"
    if "k < 5" for k
    using that r by auto
  consider "b + 1 < length out" | "b < length out" "\<not> b + 1 < length out" | "\<not> b < length out" by blast
  then show ?thesis
  proof cases
    case 1
    hence "place_digit out i d =
        Inr (if r > 3 then ?out1[b + 1 := ?out1 ! (b + 1) OR ?hi] else ?out1)"
      by (simp add: def)
    moreover have "bit_at (if r > 3 then ?out1[b + 1 := ?out1 ! (b + 1) OR ?hi] else ?out1) p \<longleftrightarrow>
        bit_at out p \<or> (\<exists>k<5. p = 8 * b + r + k \<and> bit d k)" for p
      unfolding pos
      using bit_at_update [of "b + 1" ?out1 ?hi p] bit_at_update [of b out ?lo p] 1
      by (cases "r > 3") (simp_all only: length_list_update if_True if_False, blast+)
    ultimately show ?thesis using 1 room by (simp add: i)
  next
    case 2
    hence eq: "place_digit out i d = (if r > 3 \<and> ?hi \<noteq> 0 then Inl InvalidBase32Padding else Inr ?out1)"
      by (simp add: def)
    have "bit_at ?out1 p \<longleftrightarrow> bit_at out p \<or> (\<exists>k<5. p = 8 * b + r + k \<and> bit d k)" if "\<not> (r > 3 \<and> ?hi \<noteq> 0)" for p
      unfolding pos using 2 that bit_at_update [of b out ?lo p] by auto
    moreover have "r + k < 8" if "bit d k" "\<not> (r > 3 \<and> ?hi \<noteq> 0)" for k
      using that d5 [OF that(1)] by (auto simp: zeros)
    moreover have "\<exists>k. bit d k \<and> 8 \<le> r + k" if "?hi \<noteq> 0" using that by (auto simp: zeros not_less)
    ultimately show ?thesis
      unfolding eq i using 2 room d5 by (cases "r > 3 \<and> ?hi \<noteq> 0") (simp, force, auto)
  next
    case 3
    hence eq: "place_digit out i d =
        (if ?lo \<noteq> 0 \<or> r > 3 \<and> ?hi \<noteq> 0 then Inl InvalidBase32Padding else Inr out)"
      by (simp add: def)
    have "\<exists>k. bit d k" if "?lo \<noteq> 0 \<or> ?hi \<noteq> 0" using that by (auto simp: zeros)
    moreover have "\<not> bit d k" if "\<not> (?lo \<noteq> 0 \<or> r > 3 \<and> ?hi \<noteq> 0)" for k
      using that d5 [of k] by (auto simp: zeros not_le)
    moreover have "8 * length out \<le> 8 * b + r + k" for k using 3 by simp
    ultimately show ?thesis
      unfolding eq i using d5 by (cases "?lo \<noteq> 0 \<or> r > 3 \<and> ?hi \<noteq> 0") (simp_all, blast)
  qed
qed

section \<open>Digits\<close>

lemma char_to_digit_nat:
  "char_to_digit ch =
     (let n = (of_char ch :: nat) in
      if 48 \<le> n \<and> n \<le> 57 then Inr (of_nat (n - 48))
      else if 97 \<le> n \<and> n \<le> 100 then Inr (of_nat (n - 87))
      else if 102 \<le> n \<and> n \<le> 110 then Inr (of_nat (n - 88))
      else if 112 \<le> n \<and> n \<le> 115 then Inr (of_nat (n - 89))
      else if 118 \<le> n \<and> n \<le> 122 then Inr (of_nat (n - 91))
      else Inl (InvalidBase32Char ch))"
proof -
  define n where "n = (of_char ch :: nat)"
  have n: "n < 256" unfolding n_def by simp
  have c: "(of_char ch :: u8) = of_nat n" unfolding n_def by (simp only: of_nat_of_char)
  have unat: "unat (of_nat n :: u8) = n" using n by (simp add: unat_of_nat)
  show ?thesis
    unfolding char_to_digit_def Let_def n_def [symmetric] c
    by (simp add: word_le_nat_alt unat of_nat_diff)
qed

lemma char_to_digit_CHARS: "n < 32 \<Longrightarrow> char_to_digit (CHARS ! n) = Inr (of_nat n)"
proof -
  have "list_all (\<lambda>n. char_to_digit (CHARS ! n) = Inr (of_nat n)) [0..<32]"
    by (simp add: char_to_digit_nat CHARS_def upt_rec Let_def)
  thus "n < 32 \<Longrightarrow> char_to_digit (CHARS ! n) = Inr (of_nat n)" by (auto simp: list_all_iff)
qed

lemma CHARS_index: "map of_char CHARS = [48..<58] @ [97..<101] @ [102..<111] @ [112..<116] @ [118..<123::nat]"
  by code_simp

lemma char_to_digit_Inr:
  assumes "char_to_digit c = Inr d"
  shows "unat d < 32" "CHARS ! unat d = c" "take_bit 5 d = d" "c \<in> set CHARS"
proof -
  have len: "length CHARS = 32" by (simp add: CHARS_def)
  let ?cs = "[48..<58] @ [97..<101] @ [102..<111] @ [112..<116] @ [118..<123::nat]"
  define n where "n = (of_char c :: nat)"
  have at: "?cs ! (n - 48) = n" if "48 \<le> n" "n \<le> 57" using that by (auto simp: nth_append simp del: upt_rec_numeral)
  have at1: "?cs ! (n - 87) = n" if "97 \<le> n" "n \<le> 100" using that by (auto simp: nth_append simp del: upt_rec_numeral)
  have at2: "?cs ! (n - 88) = n" if "102 \<le> n" "n \<le> 110" using that by (auto simp: nth_append simp del: upt_rec_numeral)
  have at3: "?cs ! (n - 89) = n" if "112 \<le> n" "n \<le> 115" using that by (auto simp: nth_append simp del: upt_rec_numeral)
  have at4: "?cs ! (n - 91) = n" if "118 \<le> n" "n \<le> 122" using that by (auto simp: nth_append simp del: upt_rec_numeral)
  consider "48 \<le> n" "n \<le> 57" "d = of_nat (n - 48)" | "97 \<le> n" "n \<le> 100" "d = of_nat (n - 87)"
    | "102 \<le> n" "n \<le> 110" "d = of_nat (n - 88)" | "112 \<le> n" "n \<le> 115" "d = of_nat (n - 89)"
    | "118 \<le> n" "n \<le> 122" "d = of_nat (n - 91)"
    using assms unfolding char_to_digit_nat Let_def n_def [symmetric]
    by (auto simp del: of_nat_diff split: if_splits)
  hence "\<exists>j<32. d = of_nat j \<and> ?cs ! j = n"
  proof cases
    case 1 thus ?thesis using at by (intro exI [of _ "n - 48"]) linarith
  next
    case 2 thus ?thesis using at1 by (intro exI [of _ "n - 87"]) linarith
  next
    case 3 thus ?thesis using at2 by (intro exI [of _ "n - 88"]) linarith
  next
    case 4 thus ?thesis using at3 by (intro exI [of _ "n - 89"]) linarith
  next
    case 5 thus ?thesis using at4 by (intro exI [of _ "n - 91"]) linarith
  qed
  hence "\<exists>j<32. d = of_nat j \<and> map of_char CHARS ! j = n" unfolding CHARS_index .
  then obtain j where j: "j < 32" "d = of_nat j" "of_char (CHARS ! j) = (of_char c :: nat)"
    using len by (auto simp: n_def)
  have u: "unat d = j" using j(1,2) by (simp add: unat_of_nat)
  show "unat d < 32" "CHARS ! unat d = c" using j u by simp_all
  thus "c \<in> set CHARS" using len by (metis nth_mem)
  have "take_bit 5 (of_nat j :: u8) = of_nat (take_bit 5 j)" by (simp only: take_bit_of_nat)
  also have "take_bit 5 j = j" using j(1) by (simp add: take_bit_nat_eq_self)
  finally show "take_bit 5 d = d" using j(2) by simp
qed

lemma char_to_digit_Inl:
  assumes "char_to_digit c = Inl e"
  shows "e = InvalidBase32Char c \<and> c \<notin> set CHARS"
proof -
  have len: "length CHARS = 32" by (simp add: CHARS_def)
  have "c \<notin> set CHARS"
  proof
    assume "c \<in> set CHARS"
    then obtain n where "n < 32" "CHARS ! n = c" using len by (metis in_set_conv_nth)
    with char_to_digit_CHARS assms show False by force
  qed
  thus ?thesis using assms by (auto simp: char_to_digit_def Let_def split: if_splits)
qed

section \<open>Decoding reads the bits of the digits\<close>

text \<open>The bits a string denotes, the last character holding the lowest five.\<close>

definition digit_of :: "char \<Rightarrow> u8" where
  "digit_of c = (case char_to_digit c of Inr d \<Rightarrow> d | Inl _ \<Rightarrow> 0)"

definition digits_bit :: "char list \<Rightarrow> nat \<Rightarrow> bool" where
  "digits_bit cs p \<longleftrightarrow> p div 5 < length cs \<and> bit (digit_of (cs ! (p div 5))) (p mod 5)"

lemma digits_bit_Cons:
  "digits_bit (c # cs) p \<longleftrightarrow> (if p < 5 then bit (digit_of c) p else digits_bit cs (p - 5))"
proof (cases "p < 5")
  case False
  then obtain q where "p = q + 5" by (metis add.commute le_Suc_ex not_less)
  moreover have "(q + 5) div 5 = Suc (q div 5)" for q :: nat by simp
  ultimately show ?thesis by (simp only: digits_bit_def) simp
qed (simp add: digits_bit_def)

lemma digits_bit_Nil [simp]: "\<not> digits_bit [] p"
  by (simp add: digits_bit_def)

lemma digits_bit_shift:
  "5 * i \<le> p \<and> digits_bit (c # cs) (p - 5 * i) \<longleftrightarrow>
     (\<exists>k<5. p = 5 * i + k \<and> bit (digit_of c) k) \<or> 5 * (i + 1) \<le> p \<and> digits_bit cs (p - 5 * (i + 1))"
proof (cases "5 * (i + 1) \<le> p")
  case True
  hence "p - 5 * i - 5 = p - 5 * (i + 1)" by simp
  with True show ?thesis by (auto simp: digits_bit_Cons)
next
  case False
  show ?thesis
  proof (cases "5 * i \<le> p")
    case True
    with False have "p = 5 * i + (p - 5 * i)" "p - 5 * i < 5" by simp_all
    with False True show ?thesis by (auto simp: digits_bit_Cons)
  qed auto
qed

lemma decode_loop_bits:
  "case decode_loop i out cs of
     Inl e \<Rightarrow> (\<exists>c. e = InvalidBase32Char c \<and> c \<in> set cs \<and> c \<notin> set CHARS)
        \<or> e = InvalidBase32Padding \<and> (\<exists>p. digits_bit cs p \<and> 8 * length out \<le> 5 * i + p)
   | Inr out' \<Rightarrow> set cs \<subseteq> set CHARS \<and> length out' = length out
        \<and> (\<forall>p. digits_bit cs p \<longrightarrow> 5 * i + p < 8 * length out)
        \<and> (\<forall>p. bit_at out' p \<longleftrightarrow> bit_at out p \<or> 5 * i \<le> p \<and> digits_bit cs (p - 5 * i))"
proof (induction cs arbitrary: i out)
  case (Cons c cs)
  show ?case
  proof (cases "char_to_digit c")
    case (Inl e)
    with char_to_digit_Inl [OF Inl] show ?thesis by auto
  next
    case (Inr d)
    note d = char_to_digit_Inr [OF Inr]
    have dig: "digit_of c = d" by (simp add: digit_of_def Inr)
    note place = place_digit_bits [OF d(3), of out i]
    show ?thesis
    proof (cases "place_digit out i d")
      case e: (Inl e)
      with place obtain k where "e = InvalidBase32Padding" "k < 5" "bit d k" "8 * length out \<le> 5 * i + k"
        by auto
      thus ?thesis using Inr e by (auto simp: digits_bit_Cons dig)
    next
      case out1: (Inr out1)
      hence eq: "decode_loop i out (c # cs) = decode_loop (i + 1) out1 cs" by (simp add: Inr)
      have p: "length out1 = length out" "\<And>k. k < 5 \<Longrightarrow> bit d k \<Longrightarrow> 5 * i + k < 8 * length out"
        "\<And>p. bit_at out1 p \<longleftrightarrow> bit_at out p \<or> (\<exists>k<5. p = 5 * i + k \<and> bit d k)"
        using place out1 by auto
      have all: "(\<forall>p. digits_bit (c # cs) p \<longrightarrow> 5 * i + p < 8 * length out) \<longleftrightarrow>
          (\<forall>p. digits_bit cs p \<longrightarrow> 5 * (i + 1) + p < 8 * length out)"
        using p(2) by (auto simp: digits_bit_Cons dig)
      show ?thesis
        using Cons.IH [where i = "i + 1" and out = out1] d(4) p(1,3) all
        unfolding eq digits_bit_shift dig
        by (auto split: sum.splits simp: dig)
    qed
  qed
qed simp

text \<open>Decoding answers exactly: which strings are accepted, and the bytes they give.\<close>

lemma decode_Inr:
  "decode s = Inr bs \<longleftrightarrow> set s \<subseteq> set CHARS \<and> length bs = length s * 5 div 8
     \<and> (\<forall>p. bit_at bs p \<longleftrightarrow> digits_bit (rev s) p)"
proof -
  let ?n = "length s * 5 div 8"
  have zero: "\<not> bit_at (replicate n 0) p" for n p by (simp add: bit_at_def)
  note loop = decode_loop_bits [where i = 0 and out = "replicate ?n 0" and cs = "rev s"]
  show ?thesis
  proof (cases "decode s")
    case (Inl e)
    with loop have "\<not> set s \<subseteq> set CHARS \<or> (\<exists>p. digits_bit (rev s) p \<and> 8 * ?n \<le> p)"
      by (auto simp: decode_def)
    with Inl bit_at_less [of bs] show ?thesis by fastforce
  next
    case (Inr out)
    hence out: "set s \<subseteq> set CHARS" "length out = ?n" "\<And>p. bit_at out p \<longleftrightarrow> digits_bit (rev s) p"
      using loop by (simp_all add: decode_def zero)
    have "out = bs" if "length bs = ?n" "\<forall>p. bit_at bs p \<longleftrightarrow> digits_bit (rev s) p"
      using that out by (intro bytes_eqI) simp_all
    with Inr out show ?thesis by auto
  qed
qed

lemma encoded_len_div: "encoded_len n * 5 div 8 = n"
  unfolding encoded_len_def
  using div_times_less_eq_dividend [of "n * 8 + 4" 5] dividend_less_div_times [of 5 "n * 8 + 4"]
  by (intro div_nat_eqI) simp_all

lemma length_encode: "length (encode bs) = encoded_len (length bs)"
  by (simp add: encode_def encoded_len_def)

lemma encode_digit_less: "unat (encode_digit bs i) < 32"
proof -
  have "encode_digit bs i = take_bit 5 (encode_digit bs i)"
    by (rule bit_word_eqI) (simp add: encode_digit_bits bit_take_bit_iff)
  hence "unat (encode_digit bs i) = unat (take_bit 5 (encode_digit bs i))" by simp
  also have "\<dots> < 2 ^ 5" by (simp only: unsigned_take_bit_eq take_bit_nat_less_exp)
  finally show ?thesis by simp
qed

lemma digit_of_encode: "digit_of (CHARS ! unat (encode_digit bs i)) = ucast (encode_digit bs i)"
  by (simp add: digit_of_def char_to_digit_CHARS [OF encode_digit_less])

lemma rev_encode:
  "rev (encode bs) = map (\<lambda>i. CHARS ! unat (encode_digit bs i)) [0..<encoded_len (length bs)]"
  by (simp add: encode_def encoded_len_def)

lemma encode_bits: "digits_bit (rev (encode bs)) p \<longleftrightarrow> bit_at bs p"
proof -
  have "p div 5 < encoded_len (length bs)" if "bit_at bs p"
    using bit_at_less [OF that] unfolding encoded_len_def by linarith
  thus ?thesis
    by (auto simp: digits_bit_def rev_encode digit_of_encode bit_simps encode_digit_bits)
qed

lemma encode_alphabet: "set (encode bs) \<subseteq> set CHARS"
proof -
  have "CHARS ! unat (encode_digit bs i) \<in> set CHARS" for i
    using encode_digit_less [of bs i] by (intro nth_mem) (simp add: CHARS_def)
  thus ?thesis by (auto simp: encode_def)
qed

text \<open>
  Every byte string survives nixbase32: decoding its encoding gives it back, and the encoding
  has \<open>ceil (8 n / 5)\<close> characters, all of the alphabet.
\<close>

lemma nixbase32_roundtrip:
  "decode (encode bs) = Inr bs \<and> length (encode bs) = (8 * length bs + 4) div 5 \<and> set (encode bs) \<subseteq> set CHARS"
  using encode_alphabet [of bs] encoded_len_div [of "length bs"]
  by (simp add: decode_Inr length_encode encode_bits encoded_len_def mult.commute)

lemma decode_canonical:
  assumes "decode s = Inr bs" "length s = encoded_len (length bs)"
  shows "encode bs = s"
proof -
  have s: "set s \<subseteq> set CHARS" "\<And>p. bit_at bs p \<longleftrightarrow> digits_bit (rev s) p"
    using assms(1) by (simp_all add: decode_Inr)
  have "rev (encode bs) = rev s"
  proof (rule nth_equalityI)
    show "length (rev (encode bs)) = length (rev s)" using assms(2) by (simp add: length_encode)
    fix i assume "i < length (rev (encode bs))"
    hence i: "i < length (rev s)" using assms(2) by (simp add: length_encode)
    have "rev s ! i \<in> set CHARS" using s(1) nth_mem [OF i] by auto
    then obtain d where d: "char_to_digit (rev s ! i) = Inr d"
      using char_to_digit_Inl by (cases "char_to_digit (rev s ! i)") auto
    note digit = char_to_digit_Inr [OF d]
    have "bit d k \<longleftrightarrow> k < 5 \<and> bit_at bs (5 * i + k)" for k
    proof (cases "k < 5")
      case True
      thus ?thesis using i by (simp add: s(2) digits_bit_def digit_of_def d)
    next
      case False
      thus ?thesis using digit(3) bit_take_bit_iff [of 5 d k] by simp
    qed
    hence "d = ucast (encode_digit bs i)"
      by (intro bit_word_eqI) (simp add: bit_simps encode_digit_bits)
    hence "unat d = unat (encode_digit bs i)"
      using encode_digit_less [of bs i] by (simp add: unsigned_ucast_eq take_bit_nat_eq_self)
    thus "rev (encode bs) ! i = rev s ! i"
      using digit(2) i assms(2) by (simp add: rev_encode)
  qed
  thus ?thesis by simp
qed

end
