(* ===== verification/Nix_StorePath.thy ===== *)
theory Nix_StorePath
  imports Nix_Base32 "HOL-Library.Char_ord" "HOL-Library.List_Lexorder"
begin

text \<open>
  Store paths (\<open>rio-nix/src/store_path.rs\<close>): name validation, parsing, the path computations from a
  content fingerprint and the log key of a derivation. A \<open>str\<close> is its UTF-8 bytes, so its length
  and its order are those of Rust; the character quoted in an error is its first byte. SHA-256
  and the \<open>hex\<close> crate are arguments. \<open>copy_from_slice\<close> panics on a length mismatch, so
  \<open>parse\<close> answers \<^term>\<open>None\<close> there.
\<close>

section \<open>Definitions\<close>

definition STORE_DIR :: string where "STORE_DIR = ''/nix/store''"
definition STORE_PREFIX :: string where "STORE_PREFIX = ''/nix/store/''"
definition HASH_CHARS :: nat where "HASH_CHARS = 32"
definition HASH_BYTES :: nat where "HASH_BYTES = 20"
definition MAX_NAME_LEN :: nat where "MAX_NAME_LEN = 211"

text \<open>\<open>str::strip_prefix\<close>, \<open>str::split_once\<close> and \<open>str::is_char_boundary\<close>.\<close>

fun strip_prefix :: "string \<Rightarrow> string \<Rightarrow> string option" where
  "strip_prefix [] s = Some s"
| "strip_prefix (p # ps) [] = None"
| "strip_prefix (p # ps) (c # cs) = (if p = c then strip_prefix ps cs else None)"

fun split_once :: "char \<Rightarrow> string \<Rightarrow> (string \<times> string) option" where
  "split_once d [] = None"
| "split_once d (c # cs) =
     (if c = d then Some ([], cs) else map_option (\<lambda>(a, b). (c # a, b)) (split_once d cs))"

definition is_char_boundary :: "string \<Rightarrow> nat \<Rightarrow> bool" where
  "is_char_boundary s i \<longleftrightarrow>
     i = 0 \<or> i = length s
     \<or> (i < length s \<and> \<not> (128 \<le> (of_char (s ! i) :: nat) \<and> (of_char (s ! i) :: nat) < 192))"

definition basename :: "string \<Rightarrow> string option" where
  "basename s = strip_prefix STORE_PREFIX s"

definition output_path_name :: "string \<Rightarrow> string \<Rightarrow> string" where
  "output_path_name drv_name output_name =
     (if output_name = ''out'' then drv_name else drv_name @ ''-'' @ output_name)"

definition is_ascii_alphanumeric :: "char \<Rightarrow> bool" where
  "is_ascii_alphanumeric c \<longleftrightarrow>
     (let n = (of_char c :: nat) in (48 \<le> n \<and> n \<le> 57) \<or> (65 \<le> n \<and> n \<le> 90) \<or> (97 \<le> n \<and> n \<le> 122))"

definition is_valid_name_char :: "char \<Rightarrow> bool" where
  "is_valid_name_char c \<longleftrightarrow> is_ascii_alphanumeric c \<or> c \<in> set ''+-._?=''"

definition starts_with :: "string \<Rightarrow> string \<Rightarrow> bool" where
  "starts_with p s \<longleftrightarrow> strip_prefix p s \<noteq> None"

definition byte_at :: "string \<Rightarrow> nat \<Rightarrow> char option" where
  "byte_at s i = (if i < length s then Some (s ! i) else None)"

definition validate_name :: "string \<Rightarrow> StorePathError + unit" where
  "validate_name name =
     (if name = [] then Inl EmptyName
      else if length name > MAX_NAME_LEN then Inl (NameTooLong (length name))
      else if starts_with ''.'' name
           \<and> (name = ''.'' \<or> name = ''..'' \<or> byte_at name 1 = Some (CHR ''-'')
              \<or> (starts_with ''..'' name \<and> byte_at name 2 = Some (CHR ''-'')))
      then Inl NameStartsWithDot
      else case find (\<lambda>c. \<not> is_valid_name_char c) name of
             Some c \<Rightarrow> Inl (InvalidNameChar c)
           | None \<Rightarrow> Inr ())"

record StorePath =
  hash :: "u8 list"
  name :: string
  full :: string

definition parse :: "string \<Rightarrow> (StorePathError + StorePath) option" where
  "parse s =
     (case Option.bind (strip_prefix STORE_DIR s) (strip_prefix ''/'') of
        None \<Rightarrow> Some (Inl InvalidPrefix)
      | Some rest \<Rightarrow>
          if length rest < HASH_CHARS + 1 \<or> \<not> is_char_boundary rest HASH_CHARS then Some (Inl TooShort)
          else
            (let hash_str = take HASH_CHARS rest in
             case strip_prefix ''-'' (drop HASH_CHARS rest) of
               None \<Rightarrow> Some (Inl MissingDash)
             | Some remainder \<Rightarrow>
                 if remainder = [] then Some (Inl EmptyName)
                 else case validate_name remainder of
                        Inl e \<Rightarrow> Some (Inl e)
                      | Inr _ \<Rightarrow>
                          (case decode hash_str of
                             Inl e \<Rightarrow> Some (Inl e)
                           | Inr hash_bytes \<Rightarrow>
                               if length hash_bytes \<noteq> HASH_BYTES then None
                               else Some (Inr \<lparr>hash = hash_bytes, name = remainder, full = s\<rparr>))))"

definition hash_part :: "StorePath \<Rightarrow> string" where
  "hash_part sp = encode (hash sp)"

definition sp_basename :: "StorePath \<Rightarrow> string" where
  "sp_basename sp = drop (length STORE_PREFIX) (full sp)"

definition is_derivation :: "StorePath \<Rightarrow> bool" where
  "is_derivation sp \<longleftrightarrow> starts_with (rev ''.drv'') (rev (name sp))"

definition drv_log_hash :: "string \<Rightarrow> string" where
  "drv_log_hash s =
     (case parse s of
        Some (Inr sp) \<Rightarrow> hash_part sp
      | _ \<Rightarrow>
          (let base = (case basename s of Some b \<Rightarrow> b | None \<Rightarrow> s)
           in case split_once (CHR ''-'') base of Some (h, _) \<Rightarrow> h | None \<Rightarrow> base))"

section \<open>Path computation\<close>

fun compress_loop :: "u8 list \<Rightarrow> nat \<Rightarrow> u8 list \<Rightarrow> u8 list" where
  "compress_loop acc i [] = acc"
| "compress_loop acc i (b # bs) =
     compress_loop (acc[i mod HASH_BYTES := acc ! (i mod HASH_BYTES) XOR b]) (i + 1) bs"

definition from_fingerprint ::
  "(string \<Rightarrow> u8 list) \<Rightarrow> string \<Rightarrow> string \<Rightarrow> StorePathError + StorePath" where
  "from_fingerprint sha256 nm fingerprint =
     (case validate_name nm of
        Inl e \<Rightarrow> Inl e
      | Inr _ \<Rightarrow>
          (let compressed = compress_loop (replicate HASH_BYTES 0) 0 (sha256 fingerprint)
           in Inr \<lparr>hash = compressed, name = nm, full = STORE_DIR @ ''/'' @ encode compressed @ ''-'' @ nm\<rparr>))"

text \<open>\<open>sort_unstable\<close> and \<open>dedup\<close>, then one \<open>:ref\<close> each.\<close>

definition type_str :: "string \<Rightarrow> StorePath list \<Rightarrow> string" where
  "type_str base references =
     base @ concat (map (\<lambda>r. CHR '':'' # r) (remdups_adj (sort (map full references))))"

datatype HashAlgo = SHA256 | SHA512 | SHA1

definition digest_len :: "HashAlgo \<Rightarrow> nat" where
  "digest_len a = (case a of SHA256 \<Rightarrow> 32 | SHA512 \<Rightarrow> 64 | SHA1 \<Rightarrow> 20)"

definition algo_as_str :: "HashAlgo \<Rightarrow> string" where
  "algo_as_str a = (case a of SHA256 \<Rightarrow> ''sha256'' | SHA512 \<Rightarrow> ''sha512'' | SHA1 \<Rightarrow> ''sha1'')"

record NixHash =
  algo :: HashAlgo
  digest :: "u8 list"

definition make_fixed_output ::
  "(string \<Rightarrow> u8 list) \<Rightarrow> (u8 list \<Rightarrow> string) \<Rightarrow> string \<Rightarrow> NixHash \<Rightarrow> bool \<Rightarrow> StorePath list
   \<Rightarrow> StorePathError + StorePath" where
  "make_fixed_output sha256 hex nm h is_recursive references =
     (if is_recursive \<and> algo h = SHA256
      then from_fingerprint sha256 nm
             (type_str ''source'' references @ '':sha256:'' @ hex (digest h) @ '':'' @ STORE_DIR @ '':'' @ nm)
      else if references \<noteq> [] then Inl (FixedOutputRefsNotAllowed (algo_as_str (algo h)) is_recursive)
      else
        (let r_prefix = (if is_recursive then ''r:'' else '''');
             inner = ''fixed:out:'' @ r_prefix @ algo_as_str (algo h) @ '':'' @ hex (digest h) @ '':'';
             inner_digest = sha256 inner
         in from_fingerprint sha256 nm
              (''output:out:sha256:'' @ hex inner_digest @ '':'' @ STORE_DIR @ '':'' @ nm)))"

definition make_output ::
  "(string \<Rightarrow> u8 list) \<Rightarrow> (u8 list \<Rightarrow> string) \<Rightarrow> string \<Rightarrow> u8 list \<Rightarrow> string
   \<Rightarrow> StorePathError + StorePath" where
  "make_output sha256 hex output_name drv_hash drv_name =
     (let nm = output_path_name drv_name output_name
      in from_fingerprint sha256 nm
           (''output:'' @ output_name @ '':sha256:'' @ hex drv_hash @ '':'' @ STORE_DIR @ '':'' @ nm))"

definition make_text ::
  "(string \<Rightarrow> u8 list) \<Rightarrow> (u8 list \<Rightarrow> string) \<Rightarrow> string \<Rightarrow> NixHash \<Rightarrow> StorePath list
   \<Rightarrow> StorePathError + StorePath" where
  "make_text sha256 hex nm h references =
     (if algo h \<noteq> SHA256 then Inl (TextHashMustBeSha256 (algo_as_str (algo h)))
      else from_fingerprint sha256 nm
             (type_str ''text'' references @ '':sha256:'' @ hex (digest h) @ '':'' @ STORE_DIR @ '':'' @ nm))"

section \<open>Strings\<close>

lemma strip_prefix_Some: "strip_prefix p s = Some r \<longleftrightarrow> s = p @ r"
  by (induction p s rule: strip_prefix.induct) auto

lemma strip_prefix_append [simp]: "strip_prefix p (p @ r) = Some r"
  by (simp add: strip_prefix_Some)

lemma split_once_append [simp]: "d \<notin> set a \<Longrightarrow> split_once d (a @ d # b) = Some (a, b)"
  by (induction a) auto

lemma split_once_None: "split_once d s = None \<longleftrightarrow> d \<notin> set s"
  by (induction s) auto

lemma split_once_Some: "split_once d s = Some (a, b) \<longleftrightarrow> s = a @ d # b \<and> d \<notin> set a"
proof -
  have "s = a @ d # b \<and> d \<notin> set a" if "split_once d s = Some (a, b)"
    using that by (induction s arbitrary: a) (auto split: if_splits)
  thus ?thesis by auto
qed

section \<open>Parsing\<close>

definition sp_wf :: "StorePath \<Rightarrow> bool" where
  "sp_wf sp \<longleftrightarrow>
     length (hash sp) = HASH_BYTES \<and> validate_name (name sp) = Inr ()
     \<and> full sp = STORE_PREFIX @ encode (hash sp) @ CHR ''-'' # name sp"

lemma prefix_slash: "Option.bind (strip_prefix STORE_DIR s) (strip_prefix ''/'') = Some r \<longleftrightarrow> s = STORE_PREFIX @ r"
  by (auto simp: STORE_DIR_def STORE_PREFIX_def bind_eq_Some_conv strip_prefix_Some)

lemma validate_name_nonempty: "validate_name n = Inr u \<Longrightarrow> n \<noteq> []"
  by (auto simp: validate_name_def)

lemma decode_hash_length: "length s = HASH_CHARS \<Longrightarrow> decode s = Inr bs \<Longrightarrow> length bs = HASH_BYTES"
  by (simp add: decode_Inr HASH_CHARS_def HASH_BYTES_def)

lemma decode_take_length:
  "Suc HASH_CHARS \<le> length s \<Longrightarrow> decode (take HASH_CHARS s) = Inr bs \<Longrightarrow> length bs = HASH_BYTES"
  by (rule decode_hash_length) simp_all

lemma length_hash_part: "length bs = HASH_BYTES \<Longrightarrow> length (encode bs) = HASH_CHARS"
  by (simp add: length_encode encoded_len_def HASH_CHARS_def HASH_BYTES_def)

lemma hash_str_canonical: "length s = HASH_CHARS \<Longrightarrow> decode s = Inr bs \<Longrightarrow> encode bs = s"
  using decode_hash_length [of s bs] by (intro decode_canonical) (simp_all add: HASH_CHARS_def HASH_BYTES_def encoded_len_def)

lemma decode_encode: "decode (encode bs) = Inr bs"
  by (simp add: decode_Inr length_encode encode_bits encode_alphabet encoded_len_div)

lemma parse_Some:
  assumes "parse s = Some (Inr sp)"
  shows "sp_wf sp \<and> full sp = s"
proof -
  obtain rest where s: "s = STORE_PREFIX @ rest" and len: "\<not> length rest < HASH_CHARS + 1"
    using assms prefix_slash [of s] unfolding parse_def by (auto split: option.splits if_splits)
  from assms obtain bs r where r: "strip_prefix ''-'' (drop HASH_CHARS rest) = Some r" "validate_name r = Inr ()"
    "decode (take HASH_CHARS rest) = Inr bs" "sp = \<lparr>hash = bs, name = r, full = s\<rparr>"
    using iffD2 [OF prefix_slash s] unfolding parse_def
    by (auto simp: Let_def split: option.splits sum.splits if_splits)
  have l: "length (take HASH_CHARS rest) = HASH_CHARS" using len by simp
  have "rest = take HASH_CHARS rest @ CHR ''-'' # r" using r(1) by (metis append_take_drop_id append_Cons append_Nil strip_prefix_Some)
  thus ?thesis
    using r decode_hash_length [OF l r(3)] hash_str_canonical [OF l r(3)] s by (simp add: sp_wf_def)
qed

lemma parse_full:
  assumes "sp_wf sp"
  shows "parse (full sp) = Some (Inr sp)"
proof -
  let ?rest = "encode (hash sp) @ CHR ''-'' # name sp"
  have w: "length (hash sp) = HASH_BYTES" "validate_name (name sp) = Inr ()" "full sp = STORE_PREFIX @ ?rest"
    using assms by (simp_all add: sp_wf_def)
  have l: "length (encode (hash sp)) = HASH_CHARS" by (rule length_hash_part [OF w(1)])
  have "Option.bind (strip_prefix STORE_DIR (full sp)) (strip_prefix ''/'') = Some ?rest"
    using w(3) by (simp add: prefix_slash)
  moreover have "is_char_boundary ?rest HASH_CHARS" using l by (simp add: is_char_boundary_def nth_append)
  ultimately show ?thesis
    using l w validate_name_nonempty [OF w(2)]
    by (simp add: parse_def decode_encode)
qed

text \<open>
  C34. Parsing and printing store paths are inverse. \<open>parse\<close> never panics, and it accepts exactly the
  printed forms of well-formed paths: a string parses to a path if and only if it is
  \<open>/nix/store/\<close>, the 32 characters that encode the 20 hash bytes, a dash and a valid name.
\<close>

theorem store_path_roundtrip:
  "parse s \<noteq> None \<and> (parse s = Some (Inr sp) \<longleftrightarrow> sp_wf sp \<and> full sp = s)"
proof -
  have "parse s \<noteq> None"
    by (auto simp: parse_def Let_def not_less dest: decode_take_length split: option.splits sum.splits if_splits)
  thus ?thesis using parse_Some parse_full by blast
qed

section \<open>Computed paths\<close>

lemma length_compress_loop [simp]: "length (compress_loop acc i bs) = length acc"
  by (induction bs arbitrary: acc i) simp_all

lemma from_fingerprint_wf: "from_fingerprint sha256 nm fp = Inr sp \<Longrightarrow> sp_wf sp"
  by (auto simp: from_fingerprint_def sp_wf_def Let_def STORE_DIR_def STORE_PREFIX_def split: sum.splits)

text \<open>
  Every computed path is a store path: whatever the hash function, a path made for a fixed
  output, a derivation output or a text file parses back to itself.
\<close>

lemma made_paths_parse:
  assumes "make_fixed_output sha256 hex nm h rec refs = Inr sp \<or> make_output sha256 hex out dh dn = Inr sp
    \<or> make_text sha256 hex nm h refs = Inr sp"
  shows "parse (full sp) = Some (Inr sp)"
proof -
  have "sp_wf sp"
    using assms from_fingerprint_wf
    by (auto simp: make_fixed_output_def make_output_def make_text_def Let_def split: if_splits)
  thus ?thesis by (rule parse_full)
qed

lemma type_str_set:
  assumes "set (map full refs) = set (map full refs')"
  shows "type_str base refs = type_str base refs'"
proof -
  have "sorted xs \<Longrightarrow> distinct (remdups_adj xs)" for xs :: "string list"
    by (induction xs rule: remdups_adj.induct) auto
  hence "remdups_adj (sort xs) = sorted_list_of_set (set xs)" for xs :: "string list"
    by (intro sorted_distinct_set_unique) simp_all
  thus ?thesis using assms by (simp add: type_str_def)
qed

section \<open>The log key\<close>

lemma dash_not_base32: "CHR ''-'' \<notin> set (encode bs)" "CHR ''/'' \<notin> set (encode bs)"
  using encode_alphabet [of bs] by (auto simp: CHARS_def)

lemma parse_needs_prefix: "parse s = Some (Inr sp) \<Longrightarrow> CHR ''-'' \<in> set s \<and> starts_with STORE_PREFIX s"
  using parse_Some [of s sp] by (auto simp: sp_wf_def starts_with_def)

definition log_base :: "string \<Rightarrow> string" where
  "log_base s = (case basename s of Some b \<Rightarrow> b | None \<Rightarrow> s)"

lemma drv_log_hash_unparsed:
  assumes "\<And>sp. parse s \<noteq> Some (Inr sp)"
  shows "drv_log_hash s = (case split_once (CHR ''-'') (log_base s) of Some (h, _) \<Rightarrow> h | None \<Rightarrow> log_base s)"
proof (cases "parse s")
  case (Some r)
  with assms show ?thesis by (cases r) (auto simp: drv_log_hash_def log_base_def [symmetric] Let_def)
qed (simp add: drv_log_hash_def log_base_def [symmetric] Let_def)

lemma log_base_plain: "\<not> starts_with STORE_PREFIX s \<Longrightarrow> log_base s = s"
  by (simp add: log_base_def basename_def starts_with_def split: option.split)

lemma drv_log_hash_plain:
  assumes "CHR ''-'' \<notin> set s" "\<not> starts_with STORE_PREFIX s"
  shows "drv_log_hash s = s"
proof -
  have "parse s \<noteq> Some (Inr sp)" for sp using parse_needs_prefix assms by blast
  from drv_log_hash_unparsed [OF this] show ?thesis
    using assms split_once_None [of "CHR ''-''" s] by (simp add: log_base_plain)
qed

lemma hash_part_plain: "drv_log_hash (encode bs) = encode bs"
proof (rule drv_log_hash_plain)
  show "\<not> starts_with STORE_PREFIX (encode bs)"
    using dash_not_base32(2) [of bs] by (auto simp: starts_with_def strip_prefix_Some STORE_PREFIX_def)
qed (rule dash_not_base32)

lemma drv_log_hash_basename: "drv_log_hash (encode bs @ CHR ''-'' # n) = encode bs"
proof -
  have no: "\<not> starts_with STORE_PREFIX (encode bs @ CHR ''-'' # n)"
    using dash_not_base32(2) [of bs]
    by (cases "encode bs") (auto simp: starts_with_def strip_prefix_Some STORE_PREFIX_def)
  hence "parse (encode bs @ CHR ''-'' # n) \<noteq> Some (Inr sp)" for sp using parse_needs_prefix by blast
  from drv_log_hash_unparsed [OF this] no show ?thesis
    using dash_not_base32(1) [of bs] by (simp add: log_base_plain)
qed

text \<open>
  The log key is one key: the full path, the base name and the bare hash of a derivation are all
  mapped to its hash part.
\<close>

lemma drv_log_hash_agrees:
  assumes "parse s = Some (Inr sp)"
  shows "drv_log_hash s = hash_part sp \<and> drv_log_hash (sp_basename sp) = hash_part sp
    \<and> drv_log_hash (hash_part sp) = hash_part sp"
proof -
  have "sp_basename sp = encode (hash sp) @ CHR ''-'' # name sp"
    using parse_Some [OF assms] by (simp add: sp_wf_def sp_basename_def)
  thus ?thesis
    using assms drv_log_hash_basename hash_part_plain by (simp add: hash_part_def drv_log_hash_def [of s])
qed

text \<open>The key is a fixed point of \<open>drv_log_hash\<close>, unless the store prefix is doubled.\<close>

lemma drv_log_hash_idempotent:
  assumes "\<not> starts_with (STORE_PREFIX @ STORE_PREFIX) s"
  shows "drv_log_hash (drv_log_hash s) = drv_log_hash s"
proof (cases "\<exists>sp. parse s = Some (Inr sp)")
  case True
  then obtain sp where "parse s = Some (Inr sp)" by blast
  thus ?thesis using hash_part_plain by (simp add: drv_log_hash_def [of s] hash_part_def)
next
  case False
  hence key: "drv_log_hash s = (case split_once (CHR ''-'') (log_base s) of Some (h, _) \<Rightarrow> h | None \<Rightarrow> log_base s)"
    by (intro drv_log_hash_unparsed) blast
  have base: "\<not> starts_with STORE_PREFIX (log_base s)"
    using assms by (auto simp: log_base_def basename_def starts_with_def strip_prefix_Some split: option.split)
  show ?thesis
  proof (rule drv_log_hash_plain)
    show "CHR ''-'' \<notin> set (drv_log_hash s)"
      by (auto simp: key split_once_None split_once_Some split: option.split)
    show "\<not> starts_with STORE_PREFIX (drv_log_hash s)"
      using base by (auto simp: key starts_with_def strip_prefix_Some split_once_Some split: option.split)
  qed
qed

text \<open>
  The documented idempotence of the log key fails on a doubled prefix: there the key still carries
  a store prefix, which the next application strips.
\<close>

lemma drv_log_hash_double_prefix:
  "drv_log_hash ''/nix/store//nix/store/x'' = ''/nix/store/x'' \<and> drv_log_hash ''/nix/store/x'' = ''x''"
  by (simp add: drv_log_hash_def parse_def basename_def STORE_DIR_def STORE_PREFIX_def HASH_CHARS_def)

end
