(* ===== verification/Nix_Hash.thy ===== *)
theory Nix_Hash
  imports Nix_StorePath
begin

text \<open>
  Hash values in their text forms (\<open>rio-nix/src/hash.rs\<close>) and the derived paths of the worker protocol
  (\<open>rio-nix/src/protocol/derived_path.rs\<close>). The \<open>base64\<close> and \<open>hex\<close> crates are arguments;
  what the code relies on of base64 is stated as the law \<open>base64_ok\<close>.
\<close>

section \<open>Hashes\<close>

datatype HashError =
    UnknownAlgorithm string
  | InvalidFormat string
  | InvalidBase64
  | InvalidNixbase32 StorePathError
  | WrongDigestLength string nat nat

definition to_ascii_lower :: "char \<Rightarrow> char" where
  "to_ascii_lower c =
     (let n = (of_char c :: nat) in if 65 \<le> n \<and> n \<le> 90 then char_of (n + 32) else c)"

definition algo_from_str :: "string \<Rightarrow> HashError + HashAlgo" where
  "algo_from_str s =
     (let l = map to_ascii_lower s in
      if l = ''sha256'' then Inr SHA256
      else if l = ''sha512'' then Inr SHA512
      else if l = ''sha1'' then Inr SHA1
      else Inl (UnknownAlgorithm s))"

definition nix_hash_new :: "HashAlgo \<Rightarrow> u8 list \<Rightarrow> HashError + NixHash" where
  "nix_hash_new a d =
     (if length d \<noteq> digest_len a then Inl (WrongDigestLength (algo_as_str a) (digest_len a) (length d))
      else Inr \<lparr>algo = a, digest = d\<rparr>)"

definition parse_colon :: "string \<Rightarrow> HashError + NixHash" where
  "parse_colon s =
     (case split_once (CHR '':'') s of
        None \<Rightarrow> Inl (InvalidFormat s)
      | Some (algo_str, digest_str) \<Rightarrow>
          (case algo_from_str algo_str of
             Inl e \<Rightarrow> Inl e
           | Inr a \<Rightarrow>
               (case decode digest_str of
                  Inl e \<Rightarrow> Inl (InvalidNixbase32 e)
                | Inr d \<Rightarrow> nix_hash_new a d)))"

definition parse_sri :: "(string \<Rightarrow> u8 list option) \<Rightarrow> string \<Rightarrow> HashError + NixHash" where
  "parse_sri b64_decode s =
     (case split_once (CHR ''-'') s of
        None \<Rightarrow> Inl (InvalidFormat s)
      | Some (algo_str, digest_str) \<Rightarrow>
          (case algo_from_str algo_str of
             Inl e \<Rightarrow> Inl e
           | Inr a \<Rightarrow>
               (case b64_decode digest_str of
                  None \<Rightarrow> Inl InvalidBase64
                | Some d \<Rightarrow> nix_hash_new a d)))"

definition parse_hash :: "(string \<Rightarrow> u8 list option) \<Rightarrow> string \<Rightarrow> HashError + NixHash" where
  "parse_hash b64_decode s =
     (if CHR '':'' \<in> set s then parse_colon s
      else if CHR ''-'' \<in> set s then parse_sri b64_decode s
      else Inl (InvalidFormat s))"

definition to_colon :: "NixHash \<Rightarrow> string" where
  "to_colon h = algo_as_str (algo h) @ '':'' @ encode (digest h)"

definition to_sri :: "(u8 list \<Rightarrow> string) \<Rightarrow> NixHash \<Rightarrow> string" where
  "to_sri b64_encode h = algo_as_str (algo h) @ ''-'' @ b64_encode (digest h)"

text \<open>What is relied on of standard base64: it decodes what it encodes, and never prints a colon.\<close>

definition base64_ok :: "(u8 list \<Rightarrow> string) \<Rightarrow> (string \<Rightarrow> u8 list option) \<Rightarrow> bool" where
  "base64_ok enc dec \<longleftrightarrow> (\<forall>d. dec (enc d) = Some d \<and> CHR '':'' \<notin> set (enc d))"

definition hash_wf :: "NixHash \<Rightarrow> bool" where
  "hash_wf h \<longleftrightarrow> length (digest h) = digest_len (algo h)"

lemma nix_hash_new_wf: "nix_hash_new a d = Inr h \<longleftrightarrow> length d = digest_len a \<and> h = \<lparr>algo = a, digest = d\<rparr>"
  by (auto simp: nix_hash_new_def)

lemma algo_roundtrip [simp]: "algo_from_str (algo_as_str a) = Inr a"
  by (cases a) (simp_all add: algo_from_str_def algo_as_str_def to_ascii_lower_def)

lemma algo_no_separator: "CHR '':'' \<notin> set (algo_as_str a)" "CHR ''-'' \<notin> set (algo_as_str a)"
  by (cases a; simp add: algo_as_str_def)+

text \<open>
  A hash survives both text forms: parsing what \<open>to_colon\<close> or \<open>to_sri\<close> prints gives the hash
  back, and whatever parses has the digest length of its algorithm.
\<close>

lemma hash_text_roundtrip:
  assumes "hash_wf h" "base64_ok enc dec"
  shows "parse_hash dec (to_colon h) = Inr h \<and> parse_hash dec (to_sri enc h) = Inr h
    \<and> (parse_hash dec s = Inr h' \<longrightarrow> hash_wf h')"
proof -
  have new: "nix_hash_new (algo h) (digest h) = Inr h" using assms(1) by (simp add: nix_hash_new_wf hash_wf_def)
  have "parse_hash dec (to_colon h) = Inr h"
    using algo_no_separator(1) [of "algo h"] new
    by (simp add: parse_hash_def parse_colon_def to_colon_def decode_encode)
  moreover have "parse_hash dec (to_sri enc h) = Inr h"
    using algo_no_separator [of "algo h"] assms(2) new
    by (simp add: parse_hash_def parse_sri_def to_sri_def base64_ok_def)
  moreover have "parse_hash dec s = Inr h' \<longrightarrow> hash_wf h'"
    by (auto simp: parse_hash_def parse_colon_def parse_sri_def nix_hash_new_wf hash_wf_def
        split: if_splits option.splits sum.splits)
  ultimately show ?thesis by blast
qed

text \<open>nixbase32 itself meets the law, as a total coding that prints no colon.\<close>

lemma base64_law_satisfiable: "base64_ok encode (\<lambda>s. case decode s of Inr d \<Rightarrow> Some d | Inl _ \<Rightarrow> None)"
  using encode_alphabet by (auto simp: base64_ok_def decode_encode CHARS_def)

definition sample_hash :: NixHash where
  "sample_hash = \<lparr>algo = SHA1, digest = replicate 20 7\<rparr>"

text \<open>
  A 20-byte digest fills 32 digits exactly, and 33 digits still leave room for 20 bytes. So one
  superfluous leading zero is accepted: two spellings of the same SHA-1 hash.
\<close>

lemma sha1_two_spellings:
  assumes "length d = 20"
  shows "parse_colon (''sha1:'' @ encode d) = Inr \<lparr>algo = SHA1, digest = d\<rparr>
    \<and> parse_colon (''sha1:'' @ CHR ''0'' # encode d) = Inr \<lparr>algo = SHA1, digest = d\<rparr>"
proof -
  have new: "nix_hash_new SHA1 d = Inr \<lparr>algo = SHA1, digest = d\<rparr>"
    using assms by (simp add: nix_hash_new_wf digest_len_def)
  have algo: "algo_from_str ''sha1'' = Inr SHA1" using algo_roundtrip [of SHA1] by (simp add: algo_as_str_def)
  have zero: "digit_of (CHR ''0'') = 0" using char_to_digit_CHARS [of 0] by (simp add: digit_of_def CHARS_def)
  have "digits_bit (rev (encode d) @ ''0'') p \<longleftrightarrow> digits_bit (rev (encode d)) p" for p
    by (auto simp: digits_bit_def nth_append zero less_Suc_eq)
  hence "decode (CHR ''0'' # encode d) = Inr d"
    using encode_alphabet [of d] assms
    by (simp add: decode_Inr length_encode encoded_len_def encode_bits) (simp add: CHARS_def)
  thus ?thesis
    using new algo by (simp add: parse_colon_def decode_encode)
qed

section \<open>Derived paths\<close>

datatype DerivedPathError =
    DPStorePath StorePathError
  | NotDerivation string
  | EmptyOutputName
  | DuplicateOutputName
  | TooManyOutputs nat

definition MAX_OUTPUT_NAMES :: nat where "MAX_OUTPUT_NAMES = 256"

datatype OutputSpec = AllOutputs | Names "string list"

definition spec_names :: "string list \<Rightarrow> DerivedPathError + OutputSpec" where
  "spec_names names =
     (if names = [] \<or> list_ex (\<lambda>n. n = []) names then Inl EmptyOutputName
      else if card (set names) \<noteq> length names then Inl DuplicateOutputName
      else Inr (Names names))"

datatype DerivedPath = Opaque StorePath | Built StorePath OutputSpec

text \<open>\<open>str::split\<close> on a character.\<close>

fun split_on :: "char \<Rightarrow> string \<Rightarrow> string list" where
  "split_on d [] = [[]]"
| "split_on d (c # cs) =
     (if c = d then [] # split_on d cs
      else case split_on d cs of [] \<Rightarrow> [[c]] | p # ps \<Rightarrow> (c # p) # ps)"

text \<open>A panic of the store-path parser would be \<^term>\<open>None\<close> here as well.\<close>

definition derived_parse :: "string \<Rightarrow> (DerivedPathError + DerivedPath) option" where
  "derived_parse s =
     (case split_once (CHR ''!'') s of
        Some (drv_part, output_part) \<Rightarrow>
          (case parse drv_part of
             None \<Rightarrow> None
           | Some (Inl e) \<Rightarrow> Some (Inl (DPStorePath e))
           | Some (Inr drv) \<Rightarrow>
               if \<not> is_derivation drv then Some (Inl (NotDerivation drv_part))
               else if output_part = ''*'' then Some (Inr (Built drv AllOutputs))
               else
                 (let n = length (filter (\<lambda>c. c = CHR '','') output_part) + 1 in
                  if n > MAX_OUTPUT_NAMES then Some (Inl (TooManyOutputs n))
                  else case spec_names (split_on (CHR '','') output_part) of
                         Inl e \<Rightarrow> Some (Inl e)
                       | Inr outputs \<Rightarrow> Some (Inr (Built drv outputs))))
      | None \<Rightarrow>
          (case parse s of
             None \<Rightarrow> None
           | Some (Inl e) \<Rightarrow> Some (Inl (DPStorePath e))
           | Some (Inr p) \<Rightarrow> Some (Inr (Opaque p))))"

fun join_with :: "char \<Rightarrow> string list \<Rightarrow> string" where
  "join_with d [] = []"
| "join_with d [x] = x"
| "join_with d (x # y # ys) = x @ d # join_with d (y # ys)"

definition derived_display :: "DerivedPath \<Rightarrow> string" where
  "derived_display p =
     (case p of
        Opaque sp \<Rightarrow> full sp
      | Built drv AllOutputs \<Rightarrow> full drv @ ''!*''
      | Built drv (Names names) \<Rightarrow> full drv @ ''!'' @ join_with (CHR '','') names)"

definition derived_wf :: "DerivedPath \<Rightarrow> bool" where
  "derived_wf p =
     (case p of
        Opaque sp \<Rightarrow> sp_wf sp
      | Built drv AllOutputs \<Rightarrow> sp_wf drv \<and> is_derivation drv
      | Built drv (Names names) \<Rightarrow> sp_wf drv \<and> is_derivation drv \<and> names \<noteq> [] \<and> [] \<notin> set names
          \<and> distinct names \<and> length names \<le> MAX_OUTPUT_NAMES \<and> names \<noteq> [''*'']
          \<and> list_all (\<lambda>n. CHR '','' \<notin> set n) names)"

lemma split_on_none: "d \<notin> set x \<Longrightarrow> split_on d x = [x]"
  by (induction x) auto

lemma split_on_append: "d \<notin> set x \<Longrightarrow> split_on d (x @ d # r) = x # split_on d r"
  by (induction x) auto

lemma split_on_join:
  assumes "xs \<noteq> []" "list_all (\<lambda>x. d \<notin> set x) xs"
  shows "split_on d (join_with d xs) = xs"
  using assms by (induction d xs rule: join_with.induct) (auto simp: split_on_none split_on_append)

lemma split_on_nonempty: "split_on d s \<noteq> []"
  by (induction s) (auto split: list.split)

lemma join_split_on:
  "join_with d (split_on d s) = s"
  "list_all (\<lambda>x. d \<notin> set x) (split_on d s)"
  "length (split_on d s) = length (filter (\<lambda>c. c = d) s) + 1"
proof (induction s)
  case (Cons c s)
  obtain q qs where q: "split_on d s = q # qs" using split_on_nonempty [of d s] by (cases "split_on d s") auto
  have j: "join_with d ((c # q) # qs) = c # join_with d (q # qs)" by (cases qs) simp_all
  { case 1 show ?case using Cons.IH(1) j by (auto simp: q) }
  { case 2 show ?case using Cons.IH(2) by (auto simp: q) }
  { case 3 show ?case using Cons.IH(3) by (auto simp: q) }
qed simp_all

lemma length_filter_join:
  assumes "xs \<noteq> []" "list_all (\<lambda>x. d \<notin> set x) xs"
  shows "length (filter (\<lambda>c. c = d) (join_with d xs)) + 1 = length xs"
  using join_split_on(3) [of d "join_with d xs"] split_on_join [OF assms] by simp

lemma spec_names_Inr:
  "spec_names ns = Inr os \<longleftrightarrow> os = Names ns \<and> ns \<noteq> [] \<and> [] \<notin> set ns \<and> distinct ns"
  by (auto simp: spec_names_def list_ex_iff card_distinct distinct_card)

lemma wf_no_bang:
  assumes "sp_wf sp"
  shows "CHR ''!'' \<notin> set (full sp)"
proof -
  have "list_all is_valid_name_char (name sp)"
    using assms by (auto simp: sp_wf_def validate_name_def list_all_iff find_None_iff split: if_splits option.splits)
  moreover have "\<not> is_valid_name_char (CHR ''!'')"
    by (simp add: is_valid_name_char_def is_ascii_alphanumeric_def)
  ultimately have "CHR ''!'' \<notin> set (name sp)" by (auto simp: list_all_iff)
  moreover have "CHR ''!'' \<notin> set (encode bs)" for bs using encode_alphabet [of bs] by (auto simp: CHARS_def)
  ultimately show ?thesis using assms by (simp add: sp_wf_def STORE_PREFIX_def)
qed

lemma parse_iff: "parse s = Some (Inr sp) \<longleftrightarrow> sp_wf sp \<and> full sp = s"
  using parse_Some parse_full by blast

lemma parse_no_panic: "parse s \<noteq> None"
  by (auto simp: parse_def Let_def not_less dest: decode_take_length split: option.splits sum.splits if_splits)

lemma join_star: "join_with (CHR '','') ns = ''*'' \<Longrightarrow> ns \<noteq> [] \<Longrightarrow> list_all (\<lambda>n. CHR '','' \<notin> set n) ns \<Longrightarrow> ns = [''*'']"
  using split_on_join [of ns "CHR '',''"] by simp

lemma derived_parse_display:
  assumes "derived_wf p"
  shows "derived_parse (derived_display p) = Some (Inr p)"
proof (cases p)
  case (Opaque sp)
  with assms have w: "sp_wf sp" by (simp add: derived_wf_def)
  hence "split_once (CHR ''!'') (full sp) = None" using wf_no_bang by (simp add: split_once_None)
  thus ?thesis using parse_full [OF w] by (simp add: Opaque derived_display_def derived_parse_def)
next
  case (Built drv os)
  with assms have w: "sp_wf drv" "is_derivation drv" by (auto simp: derived_wf_def split: OutputSpec.splits)
  note bang = split_once_append [OF wf_no_bang [OF w(1)]]
  show ?thesis
  proof (cases os)
    case AllOutputs
    thus ?thesis using w parse_full [OF w(1)] by (simp add: Built derived_display_def derived_parse_def bang)
  next
    case (Names ns)
    hence ns: "ns \<noteq> []" "[] \<notin> set ns" "distinct ns" "length ns \<le> MAX_OUTPUT_NAMES" "ns \<noteq> [''*'']"
      "list_all (\<lambda>n. CHR '','' \<notin> set n) ns"
      using assms by (auto simp: Built derived_wf_def)
    have "join_with (CHR '','') ns \<noteq> ''*''" using join_star ns(1,5,6) by blast
    moreover have "spec_names ns = Inr (Names ns)" using ns by (simp add: spec_names_Inr)
    ultimately show ?thesis
      using w ns(4) parse_full [OF w(1)] split_on_join [OF ns(1,6)] length_filter_join [OF ns(1,6)]
      by (simp add: Built Names derived_display_def derived_parse_def bang Let_def)
  qed
qed

lemma derived_parse_wf:
  assumes "derived_parse s = Some (Inr p)"
  shows "derived_wf p \<and> derived_display p = s"
proof (cases "split_once (CHR ''!'') s")
  case None
  thus ?thesis
    using assms by (auto simp: derived_parse_def derived_wf_def derived_display_def parse_iff
        split: option.splits sum.splits)
next
  case (Some q)
  then obtain a b where q: "split_once (CHR ''!'') s = Some (a, b)" "s = a @ CHR ''!'' # b"
    by (cases q) (auto simp: split_once_Some)
  obtain drv where drv: "parse a = Some (Inr drv)" "is_derivation drv"
    using assms q by (auto simp: derived_parse_def split: option.splits sum.splits if_splits)
  show ?thesis
  proof (cases "b = ''*''")
    case True
    hence "p = Built drv AllOutputs" using assms q drv by (simp add: derived_parse_def)
    thus ?thesis using parse_Some [OF drv(1)] drv(2) q True by (simp add: derived_wf_def derived_display_def)
  next
    case False
    let ?ns = "split_on (CHR '','') b"
    have "spec_names ?ns = Inr (Names ?ns)" "p = Built drv (Names ?ns)" "length ?ns \<le> MAX_OUTPUT_NAMES"
      using assms q drv False join_split_on(3) [of "CHR '',''" b]
      by (auto simp: derived_parse_def Let_def spec_names_Inr split: sum.splits if_splits)
    thus ?thesis
      using q drv(2) parse_Some [OF drv(1)] join_split_on [of "CHR '',''" b] False
      by (auto simp: derived_wf_def derived_display_def spec_names_Inr)
  qed
qed

text \<open>
  Derived paths round trip. Parsing never panics; it accepts exactly the printed forms of
  well-formed derived paths: a store path, or a derivation with all outputs or between one
  and 256 distinct non-empty output names.
\<close>

lemma derived_path_roundtrip:
  "derived_parse s \<noteq> None
   \<and> (derived_parse s = Some (Inr p) \<longleftrightarrow> derived_wf p \<and> derived_display p = s)"
proof -
  have "derived_parse s \<noteq> None"
    by (auto simp: derived_parse_def Let_def parse_no_panic split: option.splits sum.splits if_splits)
  thus ?thesis using derived_parse_wf derived_parse_display by blast
qed

end
