(* ===== verification/Nix_Wire.thy ===== *)
theory Nix_Wire
  imports Nix_Base32
begin

text \<open>
  The byte-level primitives of the archive format (\<open>rio-nix/src/nar/sync_wire.rs\<close>, \<open>padding_len\<close> of
  \<open>rio-nix/src/protocol/wire/mod.rs\<close>). A reader is the list of bytes still to be read, and a read
  returns what is left; a writer is the list of bytes it emits. \<open>read_exact\<close> on too short an
  input is the error \<open>UnexpectedEof\<close>.
\<close>

section \<open>Results\<close>

definition and_then :: "'e + 'a \<Rightarrow> ('a \<Rightarrow> 'e + 'b) \<Rightarrow> 'e + 'b" where
  "and_then r f = (case r of Inl e \<Rightarrow> Inl e | Inr x \<Rightarrow> f x)"

lemma and_then_simps [simp]: "and_then (Inl e) f = Inl e" "and_then (Inr x) f = f x"
  by (simp_all add: and_then_def)

lemma and_then_Inr: "and_then r f = Inr y \<longleftrightarrow> (\<exists>x. r = Inr x \<and> f x = Inr y)"
  by (cases r) simp_all

lemma and_then_pair_Inr:
  "and_then r (\<lambda>(x, y). f x y) = Inr z \<longleftrightarrow> (\<exists>x y. r = Inr (x, y) \<and> f x y = Inr z)"
  by (simp add: and_then_Inr split_paired_Ex)

lemma if_Inr:
  "(if c then Inl e else x) = Inr y \<longleftrightarrow> \<not> c \<and> x = Inr y"
  "(if c then x else Inl e) = Inr y \<longleftrightarrow> c \<and> x = Inr y"
  by simp_all

lemma and_then_cong [fundef_cong]:
  "r = r' \<Longrightarrow> (\<And>x. r' = Inr x \<Longrightarrow> f x = g x) \<Longrightarrow> and_then r f = and_then r' g"
  by (cases r') simp_all

section \<open>Bytes and text\<close>

type_synonym bytes = "u8 list"

definition text_bytes :: "string \<Rightarrow> bytes" where
  "text_bytes s = map of_char s"

lemma of_char_u8_inj: "(of_char a :: u8) = of_char b \<longleftrightarrow> a = b"
proof
  assume "(of_char a :: u8) = of_char b"
  hence "(of_nat (of_char a) :: u8) = of_nat (of_char b)" by (simp only: of_nat_of_char)
  hence "(of_char a :: nat) mod 256 = of_char b mod 256"
    by (simp only: word_of_nat_eq_iff take_bit_eq_mod) simp
  thus "a = b" by (simp only: of_char_mod_256 of_char_eq_iff)
qed simp

lemma text_bytes_eq [simp]: "text_bytes s = text_bytes t \<longleftrightarrow> s = t"
proof -
  have "inj (of_char :: char \<Rightarrow> u8)" by (rule injI) (simp add: of_char_u8_inj)
  thus ?thesis by (simp add: text_bytes_def inj_map_eq_map)
qed

lemma length_text_bytes [simp]: "length (text_bytes s) = length s"
  by (simp add: text_bytes_def)

definition cont_byte :: "u8 \<Rightarrow> bool" where
  "cont_byte b \<longleftrightarrow> 0x80 \<le> b \<and> b \<le> 0xBF"

text \<open>\<open>String::from_utf8\<close>: the well-formed byte sequences of the Unicode standard, table 3-7.\<close>

fun utf8_valid :: "bytes \<Rightarrow> bool" where
  "utf8_valid [] = True"
| "utf8_valid (a # s) =
     (if a < 0x80 then utf8_valid s
      else case s of
        [] \<Rightarrow> False
      | b # s1 \<Rightarrow>
          if 0xC2 \<le> a \<and> a \<le> 0xDF then cont_byte b \<and> utf8_valid s1
          else case s1 of
            [] \<Rightarrow> False
          | c # s2 \<Rightarrow>
              if 0xE0 \<le> a \<and> a \<le> 0xEF
              then (if a = 0xE0 then 0xA0 \<le> b \<and> b \<le> 0xBF
                    else if a = 0xED then 0x80 \<le> b \<and> b \<le> 0x9F else cont_byte b)
                   \<and> cont_byte c \<and> utf8_valid s2
              else case s2 of
                [] \<Rightarrow> False
              | d # s3 \<Rightarrow>
                  0xF0 \<le> a \<and> a \<le> 0xF4
                  \<and> (if a = 0xF0 then 0x90 \<le> b \<and> b \<le> 0xBF
                     else if a = 0xF4 then 0x80 \<le> b \<and> b \<le> 0x8F else cont_byte b)
                  \<and> cont_byte c \<and> cont_byte d \<and> utf8_valid s3)"

lemma utf8_ascii: "list_all (\<lambda>b. b < 0x80) s \<Longrightarrow> utf8_valid s"
  by (induction s) simp_all

section \<open>Integers\<close>

fun le_nat :: "bytes \<Rightarrow> nat" where
  "le_nat [] = 0"
| "le_nat (b # bs) = unat b + 256 * le_nat bs"

fun le_bytes :: "nat \<Rightarrow> nat \<Rightarrow> bytes" where
  "le_bytes 0 n = []"
| "le_bytes (Suc k) n = of_nat n # le_bytes k (n div 256)"

definition from_le_bytes :: "bytes \<Rightarrow> u64" where
  "from_le_bytes bs = of_nat (le_nat bs)"

definition to_le_bytes :: "u64 \<Rightarrow> bytes" where
  "to_le_bytes v = le_bytes 8 (unat v)"

lemma le_nat_less: "le_nat bs < 256 ^ length bs"
proof (induction bs)
  case (Cons b bs)
  have "unat b < 256" using unat_less_exp [of b] by simp
  with Cons show ?case by simp
qed simp

lemma length_le_bytes [simp]: "length (le_bytes k n) = k"
  by (induction k arbitrary: n) simp_all

lemma le_nat_bytes: "le_nat (le_bytes k n) = n mod 256 ^ k"
proof (induction k arbitrary: n)
  case (Suc k)
  have "unat (of_nat n :: u8) = n mod 256" by (simp add: unat_of_nat)
  with Suc show ?case by (simp add: mod_mult2_eq)
qed simp

lemma le_bytes_nat: "le_bytes (length bs) (le_nat bs) = bs"
proof (induction bs)
  case (Cons b bs)
  have b: "unat b < 256" using unat_less_exp [of b] by simp
  hence "(unat b + 256 * le_nat bs) div 256 = le_nat bs" by simp
  moreover have "(of_nat (unat b + 256 * le_nat bs) :: u8) = b"
    using b by (simp add: word_unat_eq_iff unat_of_nat del: of_nat_add of_nat_mult)
  ultimately show ?case using Cons by simp
qed simp

lemma from_to_le_bytes [simp]: "from_le_bytes (to_le_bytes v) = v"
  using unat_bound64 [of v] by (simp add: from_le_bytes_def to_le_bytes_def le_nat_bytes del: unat_bound64)

lemma to_from_le_bytes: "length bs = 8 \<Longrightarrow> to_le_bytes (from_le_bytes bs) = bs"
  using le_nat_less [of bs] le_bytes_nat [of bs]
  by (simp add: from_le_bytes_def to_le_bytes_def unat_of_nat64)

lemma length_to_le_bytes [simp]: "length (to_le_bytes v) = 8"
  by (simp add: to_le_bytes_def)

section \<open>Reading and writing\<close>

datatype NarError =
    Io
  | InvalidMagic bytes
  | UnexpectedToken string bytes
  | UnknownNodeType bytes
  | ContentTooLarge u64
  | TooManyEntries nat
  | NonZeroPadding nat
  | NameTooLong u64
  | TargetTooLong u64
  | UnsortedEntries bytes bytes
  | InvalidEntryName bytes
  | NestingTooDeep nat
  | NotSingleFile
  | InvalidUtf8 string bytes

definition MAX_CONTENT_SIZE :: u64 where "MAX_CONTENT_SIZE = 256 * 1024 * 1024"
definition NAR_MAX_NAME_LEN :: u64 where "NAR_MAX_NAME_LEN = 256"
definition MAX_TARGET_LEN :: u64 where "MAX_TARGET_LEN = 4096"

definition padding_len :: "nat \<Rightarrow> nat" where
  "padding_len len = (let rem = len mod 8 in if rem = 0 then 0 else 8 - rem)"

definition read_exact :: "nat \<Rightarrow> bytes \<Rightarrow> NarError + bytes \<times> bytes" where
  "read_exact n r = (if length r < n then Inl Io else Inr (take n r, drop n r))"

definition read_u64 :: "bytes \<Rightarrow> NarError + u64 \<times> bytes" where
  "read_u64 r = and_then (read_exact 8 r) (\<lambda>(buf, r). Inr (from_le_bytes buf, r))"

definition write_u64 :: "u64 \<Rightarrow> bytes" where
  "write_u64 v = to_le_bytes v"

definition consume_padding :: "bytes \<Rightarrow> nat \<Rightarrow> NarError + bytes" where
  "consume_padding r len =
     (let pad = padding_len len in
      if pad > 0
      then and_then (read_exact pad r)
             (\<lambda>(buf, r). if list_ex (\<lambda>b. b \<noteq> 0) buf then Inl (NonZeroPadding len) else Inr r)
      else Inr r)"

definition read_padded_bytes :: "bytes \<Rightarrow> nat \<Rightarrow> NarError + bytes \<times> bytes" where
  "read_padded_bytes r len =
     and_then (read_exact len r) (\<lambda>(buf, r). and_then (consume_padding r len) (\<lambda>r. Inr (buf, r)))"

definition read_bytes_bounded :: "u64 \<Rightarrow> bytes \<Rightarrow> NarError + bytes \<times> bytes" where
  "read_bytes_bounded max_len r =
     and_then (read_u64 r) (\<lambda>(len, r).
       if len > max_len then Inl (ContentTooLarge len) else read_padded_bytes r (unat len))"

definition read_name_bytes :: "bytes \<Rightarrow> NarError + bytes \<times> bytes" where
  "read_name_bytes r =
     and_then (read_u64 r) (\<lambda>(len, r).
       if len > NAR_MAX_NAME_LEN then Inl (NameTooLong len) else read_padded_bytes r (unat len))"

definition read_target_bytes :: "bytes \<Rightarrow> NarError + bytes \<times> bytes" where
  "read_target_bytes r =
     and_then (read_u64 r) (\<lambda>(len, r).
       if len > MAX_TARGET_LEN then Inl (TargetTooLong len) else read_padded_bytes r (unat len))"

definition from_utf8 :: "string \<Rightarrow> bytes \<Rightarrow> NarError + bytes" where
  "from_utf8 context bs = (if utf8_valid bs then Inr bs else Inl (InvalidUtf8 context bs))"

definition read_string :: "bytes \<Rightarrow> NarError + bytes \<times> bytes" where
  "read_string r =
     and_then (read_target_bytes r) (\<lambda>(bs, r). and_then (from_utf8 ''token'' bs) (\<lambda>s. Inr (s, r)))"

definition write_bytes :: "bytes \<Rightarrow> bytes" where
  "write_bytes data =
     write_u64 (of_nat (length data)) @ data
     @ (let pad = padding_len (length data) in if pad > 0 then take pad (replicate 8 0) else [])"

definition write_str :: "string \<Rightarrow> bytes" where
  "write_str s = write_bytes (text_bytes s)"

definition expect_str :: "string \<Rightarrow> bytes \<Rightarrow> NarError + bytes" where
  "expect_str expected r =
     and_then (read_string r) (\<lambda>(got, r).
       if got \<noteq> text_bytes expected then Inl (UnexpectedToken expected got) else Inr r)"

section \<open>What a read accepts\<close>

lemma read_exact_Inr: "read_exact n r = Inr (b, r') \<longleftrightarrow> length b = n \<and> r = b @ r'"
  by (auto simp: read_exact_def append_eq_conv_conj)

lemma read_u64_Inr: "read_u64 r = Inr (v, r') \<longleftrightarrow> r = write_u64 v @ r'"
  by (auto simp: read_u64_def and_then_Inr read_exact_Inr write_u64_def to_from_le_bytes)

lemma padding_len_less: "padding_len n < 8"
  by (simp add: padding_len_def Let_def)

lemma consume_padding_Inr: "consume_padding r n = Inr r' \<longleftrightarrow> r = replicate (padding_len n) 0 @ r'"
proof (cases "padding_len n = 0")
  case False
  have "(\<not> list_ex (\<lambda>b. b \<noteq> 0) buf \<and> length buf = k) \<longleftrightarrow> buf = replicate k 0" for buf :: bytes and k
    by (auto simp: list_ex_iff intro: replicate_eqI)
  with False show ?thesis
    by (auto simp: consume_padding_def Let_def and_then_Inr read_exact_Inr)
qed (auto simp: consume_padding_def)

lemma read_padded_bytes_Inr:
  "read_padded_bytes r n = Inr (b, r') \<longleftrightarrow> length b = n \<and> r = b @ replicate (padding_len n) 0 @ r'"
  by (auto simp: read_padded_bytes_def and_then_Inr read_exact_Inr consume_padding_Inr)

lemma write_bytes_eq:
  "write_bytes b = write_u64 (of_nat (length b)) @ b @ replicate (padding_len (length b)) 0"
  using padding_len_less [of "length b"] by (simp add: write_bytes_def Let_def min_def)

lemma read_length_prefixed:
  "and_then (read_u64 r) (\<lambda>(len, r). if len > mx then Inl (err len) else read_padded_bytes r (unat len)) = Inr (b, r')
   \<longleftrightarrow> length b \<le> unat mx \<and> r = write_bytes b @ r'" (is "?L \<longleftrightarrow> _")
proof -
  have "length b = unat l \<and> l \<le> mx \<longleftrightarrow> length b \<le> unat mx \<and> l = of_nat (length b)" for l :: u64
  proof -
    have "unat (of_nat (length b) :: u64) = length b" if "length b \<le> unat mx"
      using that unat_bound64 [of mx] by (intro unat_of_nat64) linarith
    thus ?thesis by (auto simp: word_le_nat_alt)
  qed
  hence len: "length b = unat l \<and> \<not> l > mx \<longleftrightarrow> length b \<le> unat mx \<and> l = of_nat (length b)" for l :: u64
    by (simp add: not_less)
  have "?L \<longleftrightarrow> (\<exists>l r1. read_u64 r = Inr (l, r1) \<and> \<not> l > mx \<and> read_padded_bytes r1 (unat l) = Inr (b, r'))"
    by (cases "read_u64 r") (auto split: if_splits)
  also have "\<dots> \<longleftrightarrow> (\<exists>l. (length b = unat l \<and> \<not> l > mx)
      \<and> r = write_u64 l @ b @ replicate (padding_len (length b)) 0 @ r')"
    unfolding read_u64_Inr read_padded_bytes_Inr by metis
  finally show ?thesis unfolding len by (simp add: write_bytes_eq)
qed

lemmas read_Inr =
  read_length_prefixed [where err = ContentTooLarge, folded read_bytes_bounded_def]
  read_length_prefixed [where err = NameTooLong and mx = NAR_MAX_NAME_LEN, folded read_name_bytes_def]
  read_length_prefixed [where err = TargetTooLong and mx = MAX_TARGET_LEN, folded read_target_bytes_def]

lemma read_string_Inr:
  "read_string r = Inr (s, r') \<longleftrightarrow> length s \<le> unat MAX_TARGET_LEN \<and> utf8_valid s \<and> r = write_bytes s @ r'"
  by (auto simp: read_string_def and_then_Inr read_Inr from_utf8_def split: if_splits)

definition is_token :: "string \<Rightarrow> bool" where
  "is_token t \<longleftrightarrow> length t \<le> 4096 \<and> utf8_valid (text_bytes t)"

lemma expect_str_Inr: "is_token t \<Longrightarrow> expect_str t r = Inr r' \<longleftrightarrow> r = write_str t @ r'"
  by (auto simp: expect_str_def and_then_Inr read_string_Inr write_str_def is_token_def MAX_TARGET_LEN_def
      split: if_splits)

lemma is_tokenI:
  assumes "list_all (\<lambda>c. (of_char c :: nat) < 128) t" "length t \<le> 4096"
  shows "is_token t"
proof -
  have "(of_char c :: u8) < 0x80" if "(of_char c :: nat) < 128" for c
  proof -
    have "(of_char c :: u8) = of_nat (of_char c)" by (simp only: of_nat_of_char)
    thus ?thesis using that by (simp add: word_less_nat_alt unat_of_nat)
  qed
  hence "list_all (\<lambda>b. b < 0x80) (text_bytes t)"
    using assms(1) by (simp add: text_bytes_def list_all_iff)
  thus ?thesis using assms(2) utf8_ascii by (simp add: is_token_def)
qed

lemma read_token:
  "is_token t \<Longrightarrow> read_string r = Inr (text_bytes t, r') \<longleftrightarrow> r = write_str t @ r'"
  by (auto simp: read_string_Inr is_token_def write_str_def MAX_TARGET_LEN_def)

end
