(* ===== verification/Nix_Nar.thy ===== *)
theory Nix_Nar
  imports Nix_Wire "HOL-Library.List_Lexorder"
begin

text \<open>
  The Nix archive format (\<open>rio-nix/src/nar\<close>): the in-memory reader \<open>reader.rs\<close> and the writer
  \<open>writer.rs\<close>. Names and targets are byte strings, as \<open>String\<close> compares and prints by bytes. The
  reader's recursion is bounded by \<open>MAX_NAR_DEPTH\<close> and its entry loop by \<open>MAX_DIRECTORY_ENTRIES\<close>;
  the model carries the number of levels left, \<open>MAX_NAR_DEPTH + 1 - depth\<close>, beside the depth.
\<close>

section \<open>Nodes\<close>

datatype NarNode =
    Regular bool bytes
  | Directory "NarEntry list"
  | Symlink bytes
and NarEntry = NarEntry bytes NarNode

definition NAR_MAGIC :: string where "NAR_MAGIC = ''nix-archive-1''"
definition MAX_NAR_DEPTH :: nat where "MAX_NAR_DEPTH = 256"
definition MAX_DIRECTORY_ENTRIES :: nat where "MAX_DIRECTORY_ENTRIES = 1048576"

definition validate_entry_name :: "bytes \<Rightarrow> NarError + unit" where
  "validate_entry_name nm =
     (if nm = [] \<or> nm = text_bytes ''.'' \<or> nm = text_bytes ''..'' \<or> of_char (CHR ''/'') \<in> set nm \<or> 0 \<in> set nm
      then Inl (InvalidEntryName nm) else Inr ())"

section \<open>Writing\<close>

fun serialize_node :: "NarNode \<Rightarrow> bytes"
and serialize_entry :: "NarEntry \<Rightarrow> bytes" where
  "serialize_node (Regular executable contents) =
     write_str ''('' @ write_str ''type'' @ write_str ''regular''
     @ (if executable then write_str ''executable'' @ write_str '''' else [])
     @ write_str ''contents'' @ write_bytes contents @ write_str '')''"
| "serialize_node (Directory entries) =
     write_str ''('' @ write_str ''type'' @ write_str ''directory''
     @ concat (map serialize_entry entries) @ write_str '')''"
| "serialize_node (Symlink target) =
     write_str ''('' @ write_str ''type'' @ write_str ''symlink''
     @ write_str ''target'' @ write_bytes target @ write_str '')''"
| "serialize_entry (NarEntry nm node) =
     write_str ''entry'' @ write_str ''('' @ write_str ''name'' @ write_bytes nm
     @ write_str ''node'' @ serialize_node node @ write_str '')''"

definition serialize :: "NarNode \<Rightarrow> bytes" where
  "serialize node = write_str NAR_MAGIC @ serialize_node node"

section \<open>Reading\<close>

definition parse_regular :: "bytes \<Rightarrow> NarError + NarNode \<times> bytes" where
  "parse_regular r =
     and_then (read_string r) (\<lambda>(token, r).
       and_then
         (if token = text_bytes ''executable'' then
            and_then (expect_str '''' r) (\<lambda>r.
            and_then (expect_str ''contents'' r) (\<lambda>r.
            and_then (read_bytes_bounded MAX_CONTENT_SIZE r) (\<lambda>(contents, r). Inr (True, contents, r))))
          else if token = text_bytes ''contents'' then
            and_then (read_bytes_bounded MAX_CONTENT_SIZE r) (\<lambda>(contents, r). Inr (False, contents, r))
          else Inl (UnexpectedToken ''\"executable\" or \"contents\"'' token))
         (\<lambda>(executable, contents, r).
            and_then (expect_str '')'' r) (\<lambda>r. Inr (Regular executable contents, r))))"

definition parse_symlink :: "bytes \<Rightarrow> NarError + NarNode \<times> bytes" where
  "parse_symlink r =
     and_then (expect_str ''target'' r) (\<lambda>r.
     and_then (read_target_bytes r) (\<lambda>(bs, r).
     and_then (from_utf8 ''symlink target'' bs) (\<lambda>target.
     and_then (expect_str '')'' r) (\<lambda>r. Inr (Symlink target, r)))))"

text \<open>The head of an entry, up to its node: the name, checked and in order.\<close>

definition check_order :: "bytes option \<Rightarrow> bytes \<Rightarrow> NarError + unit" where
  "check_order prev_name nm =
     (case prev_name of
        Some prev \<Rightarrow> if nm \<le> prev then Inl (UnsortedEntries prev nm) else Inr ()
      | None \<Rightarrow> Inr ())"

definition parse_entry_name :: "bytes option \<Rightarrow> bytes \<Rightarrow> NarError + bytes \<times> bytes" where
  "parse_entry_name prev_name r =
     and_then (expect_str ''('' r) (\<lambda>r.
     and_then (expect_str ''name'' r) (\<lambda>r.
     and_then (read_name_bytes r) (\<lambda>(name_bytes, r).
     and_then (from_utf8 ''entry name'' name_bytes) (\<lambda>nm.
     and_then (validate_entry_name nm) (\<lambda>_.
     and_then (check_order prev_name nm) (\<lambda>_.
     and_then (expect_str ''node'' r) (\<lambda>r. Inr (nm, r))))))))"

function parse_node :: "nat \<Rightarrow> nat \<Rightarrow> bytes \<Rightarrow> NarError + NarNode \<times> bytes"
and parse_directory ::
  "nat \<Rightarrow> nat \<Rightarrow> NarEntry list \<Rightarrow> bytes option \<Rightarrow> bytes \<Rightarrow> NarError + NarNode \<times> bytes" where
  "parse_node 0 depth r = Inl (NestingTooDeep depth)"
| "parse_node (Suc levels) depth r =
     and_then (expect_str ''('' r) (\<lambda>r.
     and_then (expect_str ''type'' r) (\<lambda>r.
     and_then (read_string r) (\<lambda>(node_type, r).
       if node_type = text_bytes ''regular'' then parse_regular r
       else if node_type = text_bytes ''directory'' then parse_directory levels depth [] None r
       else if node_type = text_bytes ''symlink'' then parse_symlink r
       else Inl (UnknownNodeType node_type))))"
| "parse_directory levels depth entries prev_name r =
     (if length entries \<ge> MAX_DIRECTORY_ENTRIES then Inl (TooManyEntries (length entries))
      else and_then (read_string r) (\<lambda>(token, r).
        if token = text_bytes '')'' then Inr (Directory entries, r)
        else if token = text_bytes ''entry'' then
          and_then (parse_entry_name prev_name r) (\<lambda>(nm, r).
          and_then (parse_node levels (depth + 1) r) (\<lambda>(node, r).
          and_then (expect_str '')'' r) (\<lambda>r.
            parse_directory levels depth (entries @ [NarEntry nm node]) (Some nm) r)))
        else Inl (UnexpectedToken ''\"entry\" or \")\"'' token)))"
  by pat_completeness auto

termination
  by (relation "inv_image (less_than <*lex*> less_than <*lex*> less_than)
      (\<lambda>x. case x of Inl (k, _, _) \<Rightarrow> (k, 0, 0)
        | Inr (k, _, es, _, _) \<Rightarrow> (k, Suc 0, MAX_DIRECTORY_ENTRIES - length es))") auto

declare parse_directory.simps [simp del]

definition nar_parse :: "bytes \<Rightarrow> NarError + NarNode \<times> bytes" where
  "nar_parse r =
     and_then (read_string r) (\<lambda>(magic, r).
       if magic \<noteq> text_bytes NAR_MAGIC then Inl (InvalidMagic magic)
       else parse_node (MAX_NAR_DEPTH + 1) 0 r)"

definition extract_single_file :: "bytes \<Rightarrow> NarError + bytes" where
  "extract_single_file nar_data =
     and_then (nar_parse nar_data) (\<lambda>(node, _).
       case node of Regular _ contents \<Rightarrow> Inr contents | _ \<Rightarrow> Inl NotSingleFile)"

section \<open>What the reader accepts\<close>

lemma tokens [simp]:
  "is_token ''(''" "is_token '')''" "is_token ''type''" "is_token ''regular''" "is_token ''executable''"
  "is_token ''''" "is_token ''contents''" "is_token ''directory''" "is_token ''entry''" "is_token ''name''"
  "is_token ''node''" "is_token ''symlink''" "is_token ''target''" "is_token NAR_MAGIC"
  by (rule is_tokenI; simp add: NAR_MAGIC_def)+

fun entry_name :: "NarEntry \<Rightarrow> bytes" where
  "entry_name (NarEntry nm _) = nm"

definition name_wf :: "bytes \<Rightarrow> bool" where
  "name_wf nm \<longleftrightarrow> length nm \<le> unat NAR_MAX_NAME_LEN \<and> utf8_valid nm \<and> validate_entry_name nm = Inr ()"

fun node_wf :: "nat \<Rightarrow> NarNode \<Rightarrow> bool" where
  "node_wf 0 n = False"
| "node_wf (Suc k) n =
     (case n of
        Regular _ contents \<Rightarrow> length contents \<le> unat MAX_CONTENT_SIZE
      | Symlink target \<Rightarrow> length target \<le> unat MAX_TARGET_LEN \<and> utf8_valid target
      | Directory es \<Rightarrow>
          length es < MAX_DIRECTORY_ENTRIES \<and> sorted_wrt (<) (map entry_name es)
          \<and> list_all (\<lambda>e. case e of NarEntry nm node \<Rightarrow> name_wf nm \<and> node_wf k node) es)"

abbreviation entry_wf :: "nat \<Rightarrow> NarEntry \<Rightarrow> bool" where
  "entry_wf k e \<equiv> (case e of NarEntry nm node \<Rightarrow> name_wf nm \<and> node_wf k node)"

lemma parse_regular_Inr:
  "parse_regular r = Inr (n, r') \<longleftrightarrow>
     (\<exists>x c. n = Regular x c \<and> length c \<le> unat MAX_CONTENT_SIZE
        \<and> r = (if x then write_str ''executable'' @ write_str '''' else []) @ write_str ''contents''
              @ write_bytes c @ write_str '')'' @ r')"
proof -
  have "parse_regular r = Inr (n, r') \<longleftrightarrow>
     (\<exists>r1 r2 r3 c r4. read_string r = Inr (text_bytes ''executable'', r1) \<and> expect_str '''' r1 = Inr r2
        \<and> expect_str ''contents'' r2 = Inr r3 \<and> read_bytes_bounded MAX_CONTENT_SIZE r3 = Inr (c, r4)
        \<and> expect_str '')'' r4 = Inr r' \<and> n = Regular True c)
     \<or> (\<exists>r1 c r4. read_string r = Inr (text_bytes ''contents'', r1)
        \<and> read_bytes_bounded MAX_CONTENT_SIZE r1 = Inr (c, r4)
        \<and> expect_str '')'' r4 = Inr r' \<and> n = Regular False c)"
    by (cases "read_string r") (auto simp: parse_regular_def and_then_Inr split: if_splits, blast+)
  also have "\<dots> \<longleftrightarrow>
     (\<exists>c. n = Regular True c \<and> length c \<le> unat MAX_CONTENT_SIZE
        \<and> r = (write_str ''executable'' @ write_str '''') @ write_str ''contents''
              @ write_bytes c @ write_str '')'' @ r')
     \<or> (\<exists>c. n = Regular False c \<and> length c \<le> unat MAX_CONTENT_SIZE
        \<and> r = write_str ''contents'' @ write_bytes c @ write_str '')'' @ r')"
    unfolding read_token [OF tokens(5)] read_token [OF tokens(7)] expect_str_Inr [OF tokens(2)]
      expect_str_Inr [OF tokens(6)] expect_str_Inr [OF tokens(7)] read_Inr by auto
  finally show ?thesis by (simp add: ex_bool_eq)
qed

lemma parse_symlink_Inr:
  "parse_symlink r = Inr (n, r') \<longleftrightarrow>
     (\<exists>t. n = Symlink t \<and> length t \<le> unat MAX_TARGET_LEN \<and> utf8_valid t
        \<and> r = write_str ''target'' @ write_bytes t @ write_str '')'' @ r')"
  by (auto simp: parse_symlink_def and_then_Inr expect_str_Inr read_Inr from_utf8_def)

lemma check_order_Inr: "check_order prev nm = Inr u \<longleftrightarrow> (case prev of Some p \<Rightarrow> p < nm | None \<Rightarrow> True)"
  by (auto simp: check_order_def not_le split: option.split)

lemma parse_entry_name_Inr:
  "parse_entry_name prev r = Inr (nm, r') \<longleftrightarrow>
     name_wf nm \<and> (case prev of Some p \<Rightarrow> p < nm | None \<Rightarrow> True)
     \<and> r = write_str ''('' @ write_str ''name'' @ write_bytes nm @ write_str ''node'' @ r'"
proof -
  have utf: "from_utf8 cx bs = Inr x \<longleftrightarrow> utf8_valid bs \<and> x = bs" for cx bs x by (auto simp: from_utf8_def)
  show ?thesis
    by (simp add: parse_entry_name_def and_then_Inr split_paired_Ex expect_str_Inr read_Inr utf check_order_Inr
        name_wf_def) auto
qed

text \<open>One turn of the entry loop.\<close>

lemma two_way:
  "(if a then x else if b then y else Inl e) = Inr z \<longleftrightarrow> a \<and> x = Inr z \<or> \<not> a \<and> b \<and> y = Inr z"
  by simp

lemma parse_directory_step:
  "parse_directory k d es prev r = Inr (n, r') \<longleftrightarrow>
     length es < MAX_DIRECTORY_ENTRIES
     \<and> (r = write_str '')'' @ r' \<and> n = Directory es
        \<or> (\<exists>nm node r1 r2 r3. r = write_str ''entry'' @ r1 \<and> parse_entry_name prev r1 = Inr (nm, r2)
             \<and> parse_node k (d + 1) r2 = Inr (node, write_str '')'' @ r3)
             \<and> parse_directory k d (es @ [NarEntry nm node]) (Some nm) r3 = Inr (n, r')))"
proof -
  have "parse_directory k d es prev r = Inr (n, r') \<longleftrightarrow>
     length es < MAX_DIRECTORY_ENTRIES
     \<and> (read_string r = Inr (text_bytes '')'', r') \<and> n = Directory es
        \<or> (\<exists>nm node r1 r2 r3 r4. read_string r = Inr (text_bytes ''entry'', r1)
             \<and> parse_entry_name prev r1 = Inr (nm, r2)
             \<and> parse_node k (d + 1) r2 = Inr (node, r3) \<and> expect_str '')'' r3 = Inr r4
             \<and> parse_directory k d (es @ [NarEntry nm node]) (Some nm) r4 = Inr (n, r')))"
    unfolding parse_directory.simps [of k d es prev r] if_Inr(1) not_le
    unfolding and_then_pair_Inr two_way
    unfolding and_then_pair_Inr unfolding and_then_Inr by auto
  thus ?thesis
    unfolding read_token [OF tokens(2)] read_token [OF tokens(9)] expect_str_Inr [OF tokens(2)] by blast
qed

definition after :: "bytes option \<Rightarrow> bytes list \<Rightarrow> bool" where
  "after prev names \<longleftrightarrow> sorted_wrt (<) ((case prev of Some p \<Rightarrow> [p] | None \<Rightarrow> []) @ names)"

lemma after_Cons: "after prev (nm # names) \<longleftrightarrow> (case prev of Some p \<Rightarrow> p < nm | None \<Rightarrow> True) \<and> after (Some nm) names"
  by (auto simp: after_def split: option.split dest: less_trans)

lemma after_Nil [simp]: "after prev []"
  by (simp add: after_def split: option.split)

lemma ex_entries:
  "(\<exists>es. P es) \<longleftrightarrow> P [] \<or> (\<exists>nm child es. P (NarEntry nm child # es))"
  by (metis NarEntry.exhaust list.exhaust)

lemma parse_directory_Inr:
  assumes node: "\<And>d r n r'. parse_node k d r = Inr (n, r') \<longleftrightarrow> node_wf k n \<and> r = serialize_node n @ r'"
  shows "parse_directory k d es prev r = Inr (n, r') \<longleftrightarrow>
     (\<exists>es'. n = Directory (es @ es') \<and> length (es @ es') < MAX_DIRECTORY_ENTRIES
        \<and> after prev (map entry_name es') \<and> list_all (entry_wf k) es'
        \<and> r = concat (map serialize_entry es') @ write_str '')'' @ r')" (is "?L es prev r \<longleftrightarrow> ?R es prev r")
proof (induction "MAX_DIRECTORY_ENTRIES - length es" arbitrary: es prev r rule: less_induct)
  case less
  have "?L es prev r \<longleftrightarrow> length es < MAX_DIRECTORY_ENTRIES
     \<and> (r = write_str '')'' @ r' \<and> n = Directory es
        \<or> (\<exists>nm child r3. name_wf nm \<and> (case prev of Some p \<Rightarrow> p < nm | None \<Rightarrow> True) \<and> node_wf k child
             \<and> r = serialize_entry (NarEntry nm child) @ r3
             \<and> ?L (es @ [NarEntry nm child]) (Some nm) r3))"
    unfolding parse_directory_step [of k d es prev r] node parse_entry_name_Inr by auto
  also have "\<dots> \<longleftrightarrow> ?R es prev r"
  proof (cases "length es < MAX_DIRECTORY_ENTRIES")
    case True
    hence IH: "?L (es @ [e]) p r3 \<longleftrightarrow> ?R (es @ [e]) p r3" for e p r3 by (intro less) simp
    have "?R es prev r \<longleftrightarrow> r = write_str '')'' @ r' \<and> n = Directory es
        \<or> (\<exists>nm child. name_wf nm \<and> (case prev of Some p \<Rightarrow> p < nm | None \<Rightarrow> True) \<and> node_wf k child
            \<and> (\<exists>r3. r = serialize_entry (NarEntry nm child) @ r3 \<and> ?R (es @ [NarEntry nm child]) (Some nm) r3))"
      using True by (subst ex_entries) (simp add: after_Cons, blast)
    with True show ?thesis unfolding IH after_Cons by auto
  qed auto
  finally show ?case .
qed

lemma three_way:
  "(if a then x else if b then y else if c then w else Inl e) = Inr z
   \<longleftrightarrow> a \<and> x = Inr z \<or> \<not> a \<and> b \<and> y = Inr z \<or> \<not> a \<and> \<not> b \<and> c \<and> w = Inr z"
  by simp

lemma parse_node_step:
  "parse_node (Suc k) d r = Inr (n, r') \<longleftrightarrow>
     (\<exists>r1. r = write_str ''('' @ write_str ''type'' @ write_str ''regular'' @ r1 \<and> parse_regular r1 = Inr (n, r'))
     \<or> (\<exists>r1. r = write_str ''('' @ write_str ''type'' @ write_str ''directory'' @ r1
             \<and> parse_directory k d [] None r1 = Inr (n, r'))
     \<or> (\<exists>r1. r = write_str ''('' @ write_str ''type'' @ write_str ''symlink'' @ r1 \<and> parse_symlink r1 = Inr (n, r'))"
  (is "_ \<longleftrightarrow> ?R")
proof -
  have "parse_node (Suc k) d r = Inr (n, r') \<longleftrightarrow>
     (\<exists>r1. r = write_str ''('' @ write_str ''type'' @ r1
        \<and> ((\<exists>r2. read_string r1 = Inr (text_bytes ''regular'', r2) \<and> parse_regular r2 = Inr (n, r'))
           \<or> (\<exists>r2. read_string r1 = Inr (text_bytes ''directory'', r2) \<and> parse_directory k d [] None r2 = Inr (n, r'))
           \<or> (\<exists>r2. read_string r1 = Inr (text_bytes ''symlink'', r2) \<and> parse_symlink r2 = Inr (n, r'))))"
    unfolding parse_node.simps(2) and_then_Inr [where r = "expect_str _ _"]
      expect_str_Inr [OF tokens(1)] expect_str_Inr [OF tokens(3)]
    unfolding and_then_pair_Inr three_way
    by (auto simp: ex_disj_distrib conj_disj_distribL)
  also have "\<dots> \<longleftrightarrow> ?R"
    unfolding read_token [OF tokens(4)] read_token [OF tokens(8)] read_token [OF tokens(12)] by auto
  finally show ?thesis .
qed

lemma parse_node_Inr: "parse_node k d r = Inr (n, r') \<longleftrightarrow> node_wf k n \<and> r = serialize_node n @ r'"
proof (induction k arbitrary: d r n r')
  case (Suc k)
  note dir = parse_directory_Inr [OF Suc.IH, of d "[]" None, simplified]
  show ?case
    unfolding parse_node_step parse_regular_Inr parse_symlink_Inr dir
    by (cases n) (auto simp: after_def)
qed simp

lemma nar_parse_Inr:
  "nar_parse r = Inr (n, r') \<longleftrightarrow> node_wf (MAX_NAR_DEPTH + 1) n \<and> r = serialize n @ r'"
proof -
  have "nar_parse r = Inr (n, r') \<longleftrightarrow>
      (\<exists>r1. read_string r = Inr (text_bytes NAR_MAGIC, r1) \<and> parse_node (MAX_NAR_DEPTH + 1) 0 r1 = Inr (n, r'))"
    by (auto simp: nar_parse_def and_then_Inr split_paired_Ex split: if_splits)
  thus ?thesis unfolding read_token [OF tokens(14)] parse_node_Inr by (auto simp: serialize_def)
qed

text \<open>
  C33. Archives are canonical. The reader accepts a byte string if and only if it is the
  serialization of a well-formed tree, followed by whatever is left; so reading and writing
  are inverse, and no tree has two archives. A single file is extracted exactly from the
  archives of regular files.
\<close>

theorem nar_roundtrip:
  "(nar_parse r = Inr (n, r') \<longleftrightarrow> node_wf (MAX_NAR_DEPTH + 1) n \<and> r = serialize n @ r')
   \<and> (extract_single_file r = Inr c \<longleftrightarrow>
       (\<exists>x rest. length c \<le> unat MAX_CONTENT_SIZE \<and> r = serialize (Regular x c) @ rest))"
proof -
  have "extract_single_file r = Inr c \<longleftrightarrow> (\<exists>x rest. nar_parse r = Inr (Regular x c, rest))"
  proof -
    have single: "(case node of Regular _ contents \<Rightarrow> Inr contents | _ \<Rightarrow> Inl NotSingleFile) = Inr c \<longleftrightarrow> (\<exists>x. node = Regular x c)"
      for node by (cases node) auto
    show ?thesis unfolding extract_single_file_def and_then_pair_Inr single by auto
  qed
  thus ?thesis by (simp add: nar_parse_Inr)
qed

end
