(* ===== verification/Nix_Derivation.thy ===== *)
theory Nix_Derivation
  imports Rio_BTree Nix_Hash Nix_Nar
begin

text \<open>
  Derivations (\<open>rio-nix/src/derivation/mod.rs\<close>) and their text form (\<open>derivation/aterm.rs\<close>). Text is
  a list of bytes; the parser reads characters, and since every character it tests for is ASCII it
  may as well read bytes. The parser's position is the text still to be read. Ordered maps and
  sets are strictly ascending lists.
\<close>

section \<open>Data\<close>

datatype DerivationError =
    UnexpectedEof
  | Expected string string
  | InvalidEscape string
  | ExpectedStringStart
  | EmptyOutputName nat
  | NoOutputs
  | CollectionTooLarge nat
  | InputNotFound string
  | CycleDetected string
  | RecursionLimitExceeded string
  | NarExtract NarError
  | DrvInvalidUtf8 bytes
  | InvalidOutputPath StorePathError

definition MAX_ATERM_LIST_ITEMS :: nat where "MAX_ATERM_LIST_ITEMS = 1048576"

record DerivationOutput =
  o_name :: string
  o_path :: string
  o_hash_algo :: string
  o_hash :: string

definition derivation_output_new :: "string \<Rightarrow> string \<Rightarrow> string \<Rightarrow> string \<Rightarrow> DerivationError + DerivationOutput" where
  "derivation_output_new nm path hash_algo hsh =
     (if nm = [] then Inl (EmptyOutputName 0)
      else Inr \<lparr>o_name = nm, o_path = path, o_hash_algo = hash_algo, o_hash = hsh\<rparr>)"

definition has_hash_algo :: "DerivationOutput \<Rightarrow> bool" where
  "has_hash_algo out \<longleftrightarrow> o_hash_algo out \<noteq> []"

record Derivation =
  outputs :: "DerivationOutput list"
  input_drvs :: "(string \<times> string list) list"
  input_srcs :: "string list"
  platform :: string
  builder :: string
  args :: "string list"
  env :: "(string \<times> string) list"

record BasicDerivation =
  b_outputs :: "DerivationOutput list"
  b_input_srcs :: "string list"
  b_platform :: string
  b_builder :: string
  b_args :: "string list"
  b_env :: "(string \<times> string) list"

text \<open>The predicates of the trait \<open>DerivationLike\<close>, which look at the outputs alone.\<close>

definition is_fixed_output :: "DerivationOutput list \<Rightarrow> bool" where
  "is_fixed_output outs \<longleftrightarrow>
     length outs = 1 \<and> o_name (outs ! 0) = ''out''
     \<and> o_hash_algo (outs ! 0) \<noteq> [] \<and> o_hash (outs ! 0) \<noteq> []"

definition has_ca_floating_outputs :: "DerivationOutput list \<Rightarrow> bool" where
  "has_ca_floating_outputs outs \<longleftrightarrow> list_ex (\<lambda>out. o_hash_algo out \<noteq> [] \<and> o_hash out = []) outs"

definition is_content_addressed :: "DerivationOutput list \<Rightarrow> bool" where
  "is_content_addressed outs \<longleftrightarrow> is_fixed_output outs \<or> has_ca_floating_outputs outs"

definition static_outputs :: "DerivationOutput list \<Rightarrow> DerivationOutput list" where
  "static_outputs outs = filter (\<lambda>out. o_path out \<noteq> []) outs"

definition has_unknown_output_paths :: "DerivationOutput list \<Rightarrow> bool" where
  "has_unknown_output_paths outs \<longleftrightarrow> list_ex (\<lambda>out. o_path out = []) outs"

section \<open>Writing\<close>

definition escape_char :: "char \<Rightarrow> string" where
  "escape_char c =
     (if c = CHR 0x5C then [CHR 0x5C, CHR 0x5C]
      else if c = CHR 0x22 then [CHR 0x5C, CHR 0x22]
      else if c = CHR 0x0A then [CHR 0x5C, CHR ''n'']
      else if c = CHR 0x0D then [CHR 0x5C, CHR ''r'']
      else if c = CHR 0x09 then [CHR 0x5C, CHR ''t'']
      else [c])"

definition write_aterm_string :: "string \<Rightarrow> string" where
  "write_aterm_string s = CHR 0x22 # concat (map escape_char s) @ [CHR 0x22]"

definition write_list :: "('a \<Rightarrow> string) \<Rightarrow> 'a list \<Rightarrow> string" where
  "write_list f xs = ''['' @ join_with (CHR '','') (map f xs) @ '']''"

definition write_output :: "bool \<Rightarrow> DerivationOutput \<Rightarrow> string" where
  "write_output mask_paths out =
     ''('' @ write_aterm_string (o_name out) @ '',''
     @ write_aterm_string (if mask_paths then [] else o_path out) @ '',''
     @ write_aterm_string (o_hash_algo out) @ '','' @ write_aterm_string (o_hash out) @ '')''"

definition write_aterm_outputs :: "DerivationOutput list \<Rightarrow> bool \<Rightarrow> string" where
  "write_aterm_outputs outs mask_paths = write_list (write_output mask_paths) outs"

definition write_input_drv :: "string \<times> string list \<Rightarrow> string" where
  "write_input_drv = (\<lambda>(key, names).
     ''('' @ write_aterm_string key @ '','' @ write_list write_aterm_string names @ '')'')"

definition write_aterm_input_drvs :: "(string \<times> string list) list \<Rightarrow> string" where
  "write_aterm_input_drvs drvs = write_list write_input_drv drvs"

definition write_env :: "string set option \<Rightarrow> string \<times> string \<Rightarrow> string" where
  "write_env mask_env_keys = (\<lambda>(key, val).
     ''('' @ write_aterm_string key @ '',''
     @ write_aterm_string (if (case mask_env_keys of Some ks \<Rightarrow> key \<in> ks | None \<Rightarrow> False) then [] else val) @ '')'')"

definition write_aterm_tail ::
  "string list \<Rightarrow> string \<Rightarrow> string \<Rightarrow> string list \<Rightarrow> (string \<times> string) list \<Rightarrow> string set option \<Rightarrow> string" where
  "write_aterm_tail srcs plat bld as ev mask_env_keys =
     write_list write_aterm_string srcs @ '','' @ write_aterm_string plat @ '','' @ write_aterm_string bld @ '',''
     @ write_list write_aterm_string as @ '','' @ write_list (write_env mask_env_keys) ev @ '')''"

definition to_aterm :: "Derivation \<Rightarrow> string" where
  "to_aterm d =
     ''Derive('' @ write_aterm_outputs (outputs d) False @ '','' @ write_aterm_input_drvs (input_drvs d) @ '',''
     @ write_aterm_tail (input_srcs d) (platform d) (builder d) (args d) (env d) None"

definition basic_to_aterm :: "BasicDerivation \<Rightarrow> string" where
  "basic_to_aterm b =
     ''Derive('' @ write_aterm_outputs (b_outputs b) False @ '','' @ ''[]'' @ '',''
     @ write_aterm_tail (b_input_srcs b) (b_platform b) (b_builder b) (b_args b) (b_env b) None"

section \<open>Parsing\<close>

text \<open>Characters are read only for error messages; a leading byte gives a character's width.\<close>

definition char_width :: "char \<Rightarrow> nat" where
  "char_width c =
     (let b = of_char c :: nat in if b < 0x80 then 1 else if b < 0xE0 then 2 else if b < 0xF0 then 3 else 4)"

fun take_chars :: "nat \<Rightarrow> string \<Rightarrow> string" where
  "take_chars 0 s = []"
| "take_chars (Suc n) [] = []"
| "take_chars (Suc n) (c # s) = take (char_width c) (c # s) @ take_chars n (drop (char_width c) (c # s))"

definition expect :: "string \<Rightarrow> string \<Rightarrow> DerivationError + string" where
  "expect expected s =
     (case strip_prefix expected s of
        Some r \<Rightarrow> Inr r
      | None \<Rightarrow> Inl (Expected expected (take_chars (max (length expected) 10) s)))"

fun string_loop :: "string \<Rightarrow> string \<Rightarrow> DerivationError + string \<times> string" where
  "string_loop acc [] = Inl UnexpectedEof"
| "string_loop acc (c # s) =
     (if c = CHR 0x22 then Inr (acc, s)
      else if c = CHR 0x5C then
        (case s of
           [] \<Rightarrow> Inl UnexpectedEof
         | e # s' \<Rightarrow>
             if e = CHR ''n'' then string_loop (acc @ [CHR 0x0A]) s'
             else if e = CHR ''r'' then string_loop (acc @ [CHR 0x0D]) s'
             else if e = CHR ''t'' then string_loop (acc @ [CHR 0x09]) s'
             else if e = CHR 0x5C then string_loop (acc @ [CHR 0x5C]) s'
             else if e = CHR 0x22 then string_loop (acc @ [CHR 0x22]) s'
             else Inl (InvalidEscape (take_chars 1 s)))
      else string_loop (acc @ [c]) s)"

definition parse_string :: "string \<Rightarrow> DerivationError + string \<times> string" where
  "parse_string s =
     (case s of
        c # r \<Rightarrow> if c = CHR 0x22 then string_loop [] r else Inl ExpectedStringStart
      | [] \<Rightarrow> Inl ExpectedStringStart)"

text \<open>
  The item parser is given the number of items read before it: the closure that reads outputs
  counts them for its error.
\<close>

function parse_items ::
  "(nat \<Rightarrow> string \<Rightarrow> DerivationError + 'a \<times> string) \<Rightarrow> 'a list \<Rightarrow> string \<Rightarrow> DerivationError + 'a list \<times> string" where
  "parse_items item items s =
     (if length items \<ge> MAX_ATERM_LIST_ITEMS then Inl (CollectionTooLarge (length items))
      else and_then (item (length items) s) (\<lambda>(x, s).
        case s of
          c # r \<Rightarrow>
            if c = CHR '','' then parse_items item (items @ [x]) r
            else if c = CHR '']'' then Inr (items @ [x], r)
            else Inl UnexpectedEof
        | [] \<Rightarrow> Inl UnexpectedEof))"
  by pat_completeness auto
termination
  by (relation "measure (\<lambda>(_, items, _). MAX_ATERM_LIST_ITEMS - length items)") auto

declare parse_items.simps [simp del]

definition parse_list ::
  "(nat \<Rightarrow> string \<Rightarrow> DerivationError + 'a \<times> string) \<Rightarrow> string \<Rightarrow> DerivationError + 'a list \<times> string" where
  "parse_list item s =
     and_then (expect ''['' s) (\<lambda>s.
       case s of
         c # r \<Rightarrow> if c = CHR '']'' then Inr ([], r) else parse_items item [] s
       | [] \<Rightarrow> parse_items item [] s)"

definition parse_string_list :: "string \<Rightarrow> DerivationError + string list \<times> string" where
  "parse_string_list s = parse_list (\<lambda>_. parse_string) s"

definition output_item :: "nat \<Rightarrow> string \<Rightarrow> DerivationError + DerivationOutput \<times> string" where
  "output_item idx s =
     and_then (expect ''('' s) (\<lambda>s.
     and_then (parse_string s) (\<lambda>(nm, s).
     and_then (expect '','' s) (\<lambda>s.
     and_then (parse_string s) (\<lambda>(path, s).
     and_then (expect '','' s) (\<lambda>s.
     and_then (parse_string s) (\<lambda>(hash_algo, s).
     and_then (expect '','' s) (\<lambda>s.
     and_then (parse_string s) (\<lambda>(hsh, s).
     and_then (expect '')'' s) (\<lambda>s.
       case derivation_output_new nm path hash_algo hsh of
         Inr out \<Rightarrow> Inr (out, s)
       | Inl _ \<Rightarrow> Inl (EmptyOutputName idx))))))))))"

definition parse_outputs :: "string \<Rightarrow> DerivationError + DerivationOutput list \<times> string" where
  "parse_outputs s = parse_list output_item s"

definition input_drv_item :: "string \<Rightarrow> DerivationError + (string \<times> string list) \<times> string" where
  "input_drv_item s =
     and_then (expect ''('' s) (\<lambda>s.
     and_then (parse_string s) (\<lambda>(drv_path, s).
     and_then (expect '','' s) (\<lambda>s.
     and_then (parse_string_list s) (\<lambda>(names, s).
     and_then (expect '')'' s) (\<lambda>s. Inr ((drv_path, btree_set names), s))))))"

definition parse_input_drvs :: "string \<Rightarrow> DerivationError + (string \<times> string list) list \<times> string" where
  "parse_input_drvs s = and_then (parse_list (\<lambda>_. input_drv_item) s) (\<lambda>(v, s). Inr (btree_collect v, s))"

definition env_item :: "string \<Rightarrow> DerivationError + (string \<times> string) \<times> string" where
  "env_item s =
     and_then (expect ''('' s) (\<lambda>s.
     and_then (parse_string s) (\<lambda>(key, s).
     and_then (expect '','' s) (\<lambda>s.
     and_then (parse_string s) (\<lambda>(val, s).
     and_then (expect '')'' s) (\<lambda>s. Inr ((key, val), s))))))"

definition parse_env :: "string \<Rightarrow> DerivationError + (string \<times> string) list \<times> string" where
  "parse_env s = and_then (parse_list (\<lambda>_. env_item) s) (\<lambda>(v, s). Inr (btree_collect v, s))"

definition parse_derivation :: "string \<Rightarrow> DerivationError + Derivation \<times> string" where
  "parse_derivation s =
     and_then (expect ''Derive('' s) (\<lambda>s.
     and_then (parse_outputs s) (\<lambda>(outs, s).
     if outs = [] then Inl NoOutputs
     else
     and_then (expect '','' s) (\<lambda>s.
     and_then (parse_input_drvs s) (\<lambda>(drvs, s).
     and_then (expect '','' s) (\<lambda>s.
     and_then (parse_string_list s) (\<lambda>(srcs, s).
     and_then (expect '','' s) (\<lambda>s.
     and_then (parse_string s) (\<lambda>(plat, s).
     and_then (expect '','' s) (\<lambda>s.
     and_then (parse_string s) (\<lambda>(bld, s).
     and_then (expect '','' s) (\<lambda>s.
     and_then (parse_string_list s) (\<lambda>(as, s).
     and_then (expect '','' s) (\<lambda>s.
     and_then (parse_env s) (\<lambda>(ev, s).
     and_then (expect '')'' s) (\<lambda>s.
       Inr (\<lparr>outputs = outs, input_drvs = drvs, input_srcs = btree_set srcs, platform = plat, builder = bld,
             args = as, env = ev\<rparr>, s))))))))))))))))"

definition drv_parse :: "string \<Rightarrow> DerivationError + Derivation" where
  "drv_parse input = and_then (parse_derivation input) (\<lambda>(d, _). Inr d)"

definition bytes_text :: "bytes \<Rightarrow> string" where
  "bytes_text bs = map (\<lambda>b. char_of (unat b)) bs"

definition parse_from_nar :: "bytes \<Rightarrow> DerivationError + Derivation" where
  "parse_from_nar nar_data =
     (case extract_single_file nar_data of
        Inl e \<Rightarrow> Inl (NarExtract e)
      | Inr drv_bytes \<Rightarrow>
          if utf8_valid drv_bytes then drv_parse (bytes_text drv_bytes)
          else Inl (DrvInvalidUtf8 drv_bytes))"

section \<open>Printing, then parsing\<close>

definition drv_wf :: "Derivation \<Rightarrow> bool" where
  "drv_wf d \<longleftrightarrow>
     outputs d \<noteq> [] \<and> length (outputs d) \<le> MAX_ATERM_LIST_ITEMS \<and> list_all (\<lambda>out. o_name out \<noteq> []) (outputs d)
     \<and> ascending (map fst (input_drvs d)) \<and> length (input_drvs d) \<le> MAX_ATERM_LIST_ITEMS
     \<and> list_all (\<lambda>(_, names). ascending names \<and> length names \<le> MAX_ATERM_LIST_ITEMS) (input_drvs d)
     \<and> ascending (input_srcs d) \<and> length (input_srcs d) \<le> MAX_ATERM_LIST_ITEMS
     \<and> length (args d) \<le> MAX_ATERM_LIST_ITEMS
     \<and> ascending (map fst (env d)) \<and> length (env d) \<le> MAX_ATERM_LIST_ITEMS"

lemma expect_char [simp]: "expect [c] (c # r) = Inr r"
  by (simp add: expect_def)

lemma string_loop_print: "string_loop acc (concat (map escape_char s) @ CHR 0x22 # r) = Inr (acc @ s, r)"
  by (induction s arbitrary: acc) (auto simp: escape_char_def)

lemma parse_string_print [simp]: "parse_string (write_aterm_string s @ r) = Inr (s, r)"
  by (simp add: parse_string_def write_aterm_string_def string_loop_print)

lemma parse_items_print:
  assumes "xs \<noteq> []" "length (items @ xs) \<le> MAX_ATERM_LIST_ITEMS"
    and "\<And>i x r. x \<in> set xs \<Longrightarrow> item i (pr x @ r) = Inr (x, r)"
  shows "parse_items item items (join_with (CHR '','') (map pr xs) @ CHR '']'' # r) = Inr (items @ xs, r)"
  using assms
proof (induction xs arbitrary: items)
  case (Cons x xs)
  show ?case
  proof (cases xs)
    case Nil
    with Cons.prems show ?thesis by (subst parse_items.simps) simp
  next
    case (Cons y ys)
    with Cons.prems Cons.IH [of "items @ [x]"] show ?thesis by (subst parse_items.simps) simp
  qed
qed simp

text \<open>What is printed never starts with the bracket that ends a list.\<close>

definition opens :: "('a \<Rightarrow> string) \<Rightarrow> bool" where
  "opens pr \<longleftrightarrow> (\<forall>x. pr x \<noteq> [] \<and> hd (pr x) \<noteq> CHR '']'')"

lemma opens_printers [simp]:
  "opens write_aterm_string" "opens (write_output m)" "opens write_input_drv" "opens (write_env mk)"
  by (simp_all add: opens_def write_aterm_string_def write_output_def write_input_drv_def write_env_def split: prod.split)

lemma parse_list_print:
  assumes "length xs \<le> MAX_ATERM_LIST_ITEMS"
    and "\<And>i x r. x \<in> set xs \<Longrightarrow> item i (pr x @ r) = Inr (x, r)"
    and "opens pr"
  shows "parse_list item (write_list pr xs @ r) = Inr (xs, r)"
proof (cases xs)
  case (Cons x ys)
  obtain c t where c: "pr x = c # t" "c \<noteq> CHR '']''" using assms(3) by (cases "pr x") (auto simp: opens_def dest: spec [of _ x])
  have "\<exists>t. join_with (CHR '','') (map pr xs) = c # t" using Cons c(1) by (cases ys) simp_all
  thus ?thesis
    using parse_items_print [of xs "[]" item pr r] Cons assms(1,2) c(2)
    by (auto simp: parse_list_def write_list_def)
qed (simp add: parse_list_def write_list_def)

lemma parse_string_list_print [simp]:
  "length xs \<le> MAX_ATERM_LIST_ITEMS \<Longrightarrow> parse_string_list (write_list write_aterm_string xs @ r) = Inr (xs, r)"
  by (simp add: parse_string_list_def parse_list_print)

lemma output_item_print: "o_name out \<noteq> [] \<Longrightarrow> output_item i (write_output False out @ r) = Inr (out, r)"
  by (simp add: output_item_def write_output_def derivation_output_new_def)

lemma input_drv_item_print:
  "ascending (snd kv) \<Longrightarrow> length (snd kv) \<le> MAX_ATERM_LIST_ITEMS \<Longrightarrow>
   input_drv_item (write_input_drv kv @ r) = Inr (kv, r)"
  by (cases kv) (simp add: input_drv_item_def write_input_drv_def btree_set_id)

lemma env_item_print: "env_item (write_env None kv @ r) = Inr (kv, r)"
  by (cases kv) (simp add: env_item_def write_env_def)

lemma parse_printed:
  assumes "drv_wf d"
  shows "parse_derivation (to_aterm d @ r) = Inr (d, r)"
proof -
  note w = assms [unfolded drv_wf_def list_all_iff]
  have "parse_outputs (write_aterm_outputs (outputs d) False @ t) = Inr (outputs d, t)" for t
    unfolding parse_outputs_def write_aterm_outputs_def
    by (rule parse_list_print) (use w in \<open>simp_all add: output_item_print\<close>)
  moreover have "parse_input_drvs (write_aterm_input_drvs (input_drvs d) @ t) = Inr (input_drvs d, t)" for t
  proof -
    have "parse_list (\<lambda>_. input_drv_item) (write_list write_input_drv (input_drvs d) @ t) = Inr (input_drvs d, t)"
      by (rule parse_list_print) (use w in \<open>auto intro!: input_drv_item_print\<close>)
    thus ?thesis using w by (simp add: parse_input_drvs_def write_aterm_input_drvs_def btree_collect_id)
  qed
  moreover have "parse_env (write_list (write_env None) (env d) @ t) = Inr (env d, t)" for t
  proof -
    have "parse_list (\<lambda>_. env_item) (write_list (write_env None) (env d) @ t) = Inr (env d, t)"
      by (rule parse_list_print) (use w in \<open>simp_all add: env_item_print\<close>)
    thus ?thesis using w by (simp add: parse_env_def btree_collect_id)
  qed
  moreover have "expect l (l @ t) = Inr t" for l t
    using strip_prefix_Some [of l "l @ t" t] by (simp add: expect_def)
  ultimately show ?thesis using w
    by (simp add: parse_derivation_def to_aterm_def write_aterm_tail_def btree_set_id del: append.simps)
qed

section \<open>What the parser returns\<close>

lemma parse_items_Inr:
  assumes "parse_items item items s = Inr (ys, r)"
  shows "length ys \<le> MAX_ATERM_LIST_ITEMS
    \<and> (\<exists>zs. ys = items @ zs \<and> (\<forall>z\<in>set zs. \<exists>i s r. item i s = Inr (z, r)))"
  using assms
proof (induction item items s rule: parse_items.induct)
  case (1 item items s)
  from "1.prems" obtain x s' where x: "length items < MAX_ATERM_LIST_ITEMS" "item (length items) s = Inr (x, s')"
    by (subst (asm) parse_items.simps) (auto simp: and_then_pair_Inr not_le split: if_splits)
  from "1.prems" x consider (more) c t where "s' = c # t" "c = CHR '',''" "parse_items item (items @ [x]) t = Inr (ys, r)"
    | (last) "ys = items @ [x]"
    by (subst (asm) parse_items.simps) (auto split: list.splits if_splits)
  thus ?case
  proof cases
    case more
    have "length ys \<le> MAX_ATERM_LIST_ITEMS
      \<and> (\<exists>zs. ys = (items @ [x]) @ zs \<and> (\<forall>z\<in>set zs. \<exists>i s r. item i s = Inr (z, r)))"
      using x more by (intro "1.IH" [OF _ x(2)]) auto
    then obtain zs where "length ys \<le> MAX_ATERM_LIST_ITEMS" "ys = items @ x # zs"
      "\<forall>z\<in>set zs. \<exists>i s r. item i s = Inr (z, r)" by auto
    with x(2) show ?thesis by (intro conjI exI [of _ "x # zs"]) auto
  next
    case last
    with x show ?thesis by (intro conjI exI [of _ "[x]"]) auto
  qed
qed

lemma parse_list_Inr:
  assumes "parse_list item s = Inr (ys, r)"
  shows "length ys \<le> MAX_ATERM_LIST_ITEMS" "\<forall>z\<in>set ys. \<exists>i s r. item i s = Inr (z, r)"
proof -
  obtain t where "(case t of c # r \<Rightarrow> if c = CHR '']'' then Inr ([], r) else parse_items item [] t
      | [] \<Rightarrow> parse_items item [] t) = Inr (ys, r)"
    using assms unfolding parse_list_def and_then_Inr by blast
  hence "ys = [] \<or> (\<exists>t. parse_items item [] t = Inr (ys, r))"
    by (cases t) (auto split: if_splits)
  thus "length ys \<le> MAX_ATERM_LIST_ITEMS" "\<forall>z\<in>set ys. \<exists>i s r. item i s = Inr (z, r)"
    by (auto dest!: parse_items_Inr)
qed

lemma output_item_Inr: "output_item i s = Inr (out, r) \<Longrightarrow> o_name out \<noteq> []"
  by (auto simp: output_item_def and_then_pair_Inr and_then_Inr derivation_output_new_def split: sum.splits if_splits)

lemma input_drv_item_Inr:
  assumes "input_drv_item s = Inr ((k, names), r)"
  shows "ascending names \<and> length names \<le> MAX_ATERM_LIST_ITEMS"
proof -
  obtain t ns t' where "parse_string_list t = Inr (ns, t')" "names = btree_set ns"
    using assms by (auto simp: input_drv_item_def and_then_pair_Inr and_then_Inr)
  thus ?thesis using parse_list_Inr(1) [of "\<lambda>_. parse_string" t ns t'] length_btree_set [of ns] by (simp add: parse_string_list_def)
qed

lemma parse_input_drvs_Inr:
  assumes "parse_input_drvs s = Inr (drvs, r)"
  shows "ascending (map fst drvs)" "length drvs \<le> MAX_ATERM_LIST_ITEMS"
    "list_all (\<lambda>(_, names). ascending names \<and> length names \<le> MAX_ATERM_LIST_ITEMS) drvs"
proof -
  obtain v where v: "parse_list (\<lambda>_. input_drv_item) s = Inr (v, r)" "drvs = btree_collect v"
    using assms by (auto simp: parse_input_drvs_def and_then_pair_Inr)
  show "ascending (map fst drvs)" using v by simp
  show "length drvs \<le> MAX_ATERM_LIST_ITEMS"
    using parse_list_Inr(1) [OF v(1)] length_btree_collect [of v] v(2) by simp
  show "list_all (\<lambda>(_, names). ascending names \<and> length names \<le> MAX_ATERM_LIST_ITEMS) drvs"
    using parse_list_Inr(2) [OF v(1)] set_btree_collect [of v] v(2) input_drv_item_Inr
    by (fastforce simp: list_all_iff)
qed

lemma parse_env_Inr:
  assumes "parse_env s = Inr (ev, r)"
  shows "ascending (map fst ev)" "length ev \<le> MAX_ATERM_LIST_ITEMS"
proof -
  obtain v where v: "parse_list (\<lambda>_. env_item) s = Inr (v, r)" "ev = btree_collect v"
    using assms by (auto simp: parse_env_def and_then_pair_Inr)
  show "ascending (map fst ev)" using v by simp
  show "length ev \<le> MAX_ATERM_LIST_ITEMS"
    using parse_list_Inr(1) [OF v(1)] length_btree_collect [of v] v(2) by simp
qed

lemma parsed_wf:
  assumes "parse_derivation s = Inr (d, r)"
  shows "drv_wf d"
proof -
  from assms obtain s1 s2 s3 s4 s5 s6 s7 s8 s9 s10 srcs where
    p: "parse_outputs s1 = Inr (outputs d, s2)" "outputs d \<noteq> []"
      "parse_input_drvs s3 = Inr (input_drvs d, s4)"
      "parse_string_list s5 = Inr (srcs, s6)" "input_srcs d = btree_set srcs"
      "parse_string_list s7 = Inr (args d, s8)" "parse_env s9 = Inr (env d, s10)"
    unfolding parse_derivation_def by (auto simp: and_then_pair_Inr and_then_Inr if_Inr)
  have "list_all (\<lambda>out. o_name out \<noteq> []) (outputs d)" "length (outputs d) \<le> MAX_ATERM_LIST_ITEMS"
    using parse_list_Inr [OF p(1) [unfolded parse_outputs_def]] output_item_Inr by (auto simp: list_all_iff)
  moreover have "length (input_srcs d) \<le> MAX_ATERM_LIST_ITEMS" "length (args d) \<le> MAX_ATERM_LIST_ITEMS"
    using parse_list_Inr(1) [OF p(4) [unfolded parse_string_list_def]] length_btree_set [of srcs]
      parse_list_Inr(1) [OF p(6) [unfolded parse_string_list_def]] p(5) by simp_all
  ultimately show ?thesis
    using p(2,5) parse_input_drvs_Inr [OF p(3)] parse_env_Inr [OF p(7)] by (simp add: drv_wf_def)
qed

text \<open>
  C32. Derivation text round trip. The parser returns exactly the well-formed derivations (at least
  one output, no empty output name, sorted maps and sets, lists within the bound), and the text
  printed for such a derivation, with anything after it, is parsed back to it. So parsing
  what was printed for a parsed derivation changes nothing.
\<close>

theorem derivation_roundtrip:
  "((\<exists>s. drv_parse s = Inr d) \<longleftrightarrow> drv_wf d) \<and> (drv_parse (to_aterm d @ rest) = Inr d \<longleftrightarrow> drv_wf d)"
proof -
  have "drv_parse s = Inr d \<longleftrightarrow> (\<exists>r. parse_derivation s = Inr (d, r))" for s
    by (auto simp: drv_parse_def and_then_pair_Inr)
  thus ?thesis using parsed_wf parse_printed by metis
qed

lemma bytes_text_bytes: "bytes_text (text_bytes s) = s"
proof -
  have "unat (of_char c :: u8) = of_char c" for c
  proof -
    have "(of_char c :: u8) = of_nat (of_char c)" by (simp only: of_nat_of_char)
    thus ?thesis using of_char_mod_256 [of c, where 'a = nat] by (simp add: unat_of_nat)
  qed
  thus ?thesis by (simp add: bytes_text_def text_bytes_def map_idI)
qed

text \<open>A derivation stored as a file in an archive is read back.\<close>

lemma parse_from_nar_serialized:
  assumes "drv_wf d" "utf8_valid (text_bytes (to_aterm d))" "length (to_aterm d) \<le> unat MAX_CONTENT_SIZE"
  shows "parse_from_nar (serialize (Regular x (text_bytes (to_aterm d))) @ rest) = Inr d"
proof -
  let ?n = "Regular x (text_bytes (to_aterm d))"
  have "nar_parse (serialize ?n @ rest) = Inr (?n, rest)"
    using assms(3) by (simp add: nar_parse_Inr)
  thus ?thesis
    using assms(1,2) parse_printed [OF assms(1), of "[]"]
    by (simp add: parse_from_nar_def extract_single_file_def bytes_text_bytes drv_parse_def)
qed

end
