(* ===== verification/Sched_Dag.thy ===== *)
theory Sched_Dag
  imports Sched_State Sched_Cycle Rio_Wanted Nix_Derivation
begin

text \<open>
  The scheduler's derivation graph (\<open>rio-scheduler/src/dag/mod.rs\<close>) with the parts of the
  per-derivation state it touches (\<open>rio-scheduler/src/state/derivation.rs\<close>). Hash maps are maps
  and hash sets are sets. Where the code iterates over one of them the order is unspecified:
  it is the argument \<open>iter\<close>, of which the lemmas assume \<open>hash_order\<close>, that it lists each
  element of a finite set once. The type \<open>'u\<close> stands for UUIDs, \<open>'e\<close> for executor names and \<open>'f\<close> for
  the floating-point durations, of which nothing but a linear order is used. A node keeps the
  status machine of \<open>Sched_State\<close> in its field \<open>machine\<close>; fields of the code's record that no
  modelled operation reads are left out.
\<close>

definition hash_order :: "(string set \<Rightarrow> string list) \<Rightarrow> bool" where
  "hash_order iter \<longleftrightarrow> (\<forall>A. finite A \<longrightarrow> set (iter A) = A \<and> distinct (iter A))"

section \<open>Nodes\<close>

definition FETCHER_FEATURE :: string where "FETCHER_FEATURE = ''fetcher''"

definition effective_features_derive :: "bool \<Rightarrow> string list \<Rightarrow> string list" where
  "effective_features_derive fod raw =
     (if fod then [FETCHER_FEATURE] else filter (\<lambda>f. f \<noteq> FETCHER_FEATURE) raw)"

record DerivationNode =
  nd_drv_path :: string
  nd_drv_hash :: string
  nd_pname :: string
  nd_system :: string
  nd_required_features :: "string list"
  nd_output_names :: "string list"
  nd_is_fixed_output :: bool
  nd_expected_output_paths :: "string list"
  nd_wanted_output_names :: "string list"
  nd_drv_content :: bytes

record DerivationEdge =
  parent_drv_path :: string
  child_drv_path :: string

record ('e, 'u, 'f) DagNode =
  drv_hash :: string
  drv_path :: StorePath
  pname :: "string option"
  drv_system :: string
  required_features :: "string list"
  effective_features :: "string list"
  soft_features :: "string list"
  output_names :: "string list"
  fixed_output :: bool
  machine :: "('e, 'u) DerivationState"
  interested_builds :: "'u set"
  est_duration :: 'f
  priority :: 'f
  unblocks :: u32
  drv_content :: bytes
  drv_fetch_attempted :: bool
  drv_input_srcs :: "string list"
  expected_output_paths :: "string list"
  wanted_by_build :: "'u \<rightharpoonup> string list"
  db_id :: "'u option"
  traceparent :: string

definition node_status :: "('e, 'u, 'f) DagNode \<Rightarrow> DerivationStatus" where
  "node_status s = status (machine s)"

definition parse_input_srcs :: "bytes \<Rightarrow> string list option" where
  "parse_input_srcs bs =
     (if utf8_valid bs then
        (case drv_parse (bytes_text bs) of Inl _ \<Rightarrow> None | Inr d \<Rightarrow> Some (input_srcs d))
      else None)"

definition fresh_machine :: "('e, 'u) DerivationState" where
  "fresh_machine = \<lparr>status = Created, assigned_executor = None, exec_id = None, open_attempt_kind = None,
     claim_nonce = None, ready_at = None, running_since = None, resubmit_cycles = 0\<rparr>"

definition try_from_node ::
  "DerivationNode \<Rightarrow> (StorePathError + ('e, 'u, 'f::zero) DagNode) option" where
  "try_from_node node =
     (case parse (nd_drv_path node) of
        None \<Rightarrow> None
      | Some (Inl e) \<Rightarrow> Some (Inl e)
      | Some (Inr sp) \<Rightarrow>
          Some (Inr \<lparr>drv_hash = nd_drv_hash node, drv_path = sp,
            pname = (if nd_pname node = [] then None else Some (nd_pname node)),
            drv_system = nd_system node,
            required_features = nd_required_features node,
            effective_features = effective_features_derive (nd_is_fixed_output node) (nd_required_features node),
            soft_features = [],
            output_names = nd_output_names node,
            fixed_output = nd_is_fixed_output node,
            machine = fresh_machine,
            interested_builds = {},
            est_duration = 0, priority = 0, unblocks = 0,
            drv_content = nd_drv_content node,
            drv_fetch_attempted = False,
            drv_input_srcs = (case parse_input_srcs (nd_drv_content node) of None \<Rightarrow> [] | Some srcs \<Rightarrow> srcs),
            expected_output_paths = nd_expected_output_paths node,
            wanted_by_build = Map.empty,
            db_id = None,
            traceparent = []\<rparr>))"

text \<open>\<open>rehydrate_from_aterm\<close> writes nothing and returns false (\<open>None\<close>) on bytes that do not parse.\<close>

definition rehydrate_from_aterm :: "('e, 'u, 'f) DagNode \<Rightarrow> bytes \<Rightarrow> ('e, 'u, 'f) DagNode option" where
  "rehydrate_from_aterm s bs =
     (case parse_input_srcs bs of
        None \<Rightarrow> None
      | Some srcs \<Rightarrow> Some (s\<lparr>drv_input_srcs := srcs, drv_content := bs\<rparr>))"

definition clear_aterm :: "('e, 'u, 'f) DagNode \<Rightarrow> ('e, 'u, 'f) DagNode" where
  "clear_aterm s = s\<lparr>drv_content := [], drv_input_srcs := []\<rparr>"

definition set_required_features :: "('e, 'u, 'f) DagNode \<Rightarrow> string list \<Rightarrow> ('e, 'u, 'f) DagNode" where
  "set_required_features s raw =
     s\<lparr>required_features := raw, effective_features := effective_features_derive (fixed_output s) raw\<rparr>"

definition set_soft_features :: "('e, 'u, 'f) DagNode \<Rightarrow> string list \<Rightarrow> ('e, 'u, 'f) DagNode" where
  "set_soft_features s soft = s\<lparr>soft_features := soft\<rparr>"

section \<open>The graph\<close>

record ('e, 'u, 'f) DerivationDag =
  nodes :: "string \<rightharpoonup> ('e, 'u, 'f) DagNode"
  children :: "string \<rightharpoonup> string set"
  parents :: "string \<rightharpoonup> string set"
  path_to_hash :: "string \<rightharpoonup> string"
  dag_soft_features :: "string list"
  resubmit_floors :: "string \<rightharpoonup> u32"

definition dag_new :: "('e, 'u, 'f) DerivationDag" where
  "dag_new = \<lparr>nodes = Map.empty, children = Map.empty, parents = Map.empty, path_to_hash = Map.empty,
     dag_soft_features = [], resubmit_floors = Map.empty\<rparr>"

definition dag_set_soft_features :: "('e, 'u, 'f) DerivationDag \<Rightarrow> string list \<Rightarrow> ('e, 'u, 'f) DerivationDag" where
  "dag_set_soft_features d soft = d\<lparr>dag_soft_features := soft\<rparr>"

definition note_resubmit_floor :: "('e, 'u, 'f) DerivationDag \<Rightarrow> string \<Rightarrow> u32 \<Rightarrow> ('e, 'u, 'f) DerivationDag" where
  "note_resubmit_floor d h fl = d\<lparr>resubmit_floors := (resubmit_floors d)(h \<mapsto> fl)\<rparr>"

definition apply_soft_features ::
  "('e, 'u, 'f) DerivationDag \<Rightarrow> ('e, 'u, 'f) DagNode \<Rightarrow> ('e, 'u, 'f) DagNode" where
  "apply_soft_features d s =
     (if dag_soft_features d = [] then s
      else (let is_soft = (\<lambda>f. f \<in> set (dag_soft_features d));
                soft = filter is_soft (required_features s);
                hard = filter (\<lambda>f. \<not> is_soft f) (required_features s)
            in set_soft_features (set_required_features s hard) soft))"

definition insert_recovered_node ::
  "('e, 'u, 'f) DerivationDag \<Rightarrow> ('e, 'u, 'f) DagNode \<Rightarrow> ('e, 'u, 'f) DerivationDag" where
  "insert_recovered_node d s =
     (let h = drv_hash s in
      if h \<in> dom (nodes d) then d
      else let s = apply_soft_features d s
           in d\<lparr>path_to_hash := (path_to_hash d)(full (drv_path s) \<mapsto> h), nodes := (nodes d)(h \<mapsto> s)\<rparr>)"

text \<open>The set under a key of an edge map, empty when there is no entry.\<close>

definition kids :: "('e, 'u, 'f) DerivationDag \<Rightarrow> string \<Rightarrow> string set" where
  "kids d h = (case children d h of None \<Rightarrow> {} | Some cs \<Rightarrow> cs)"

definition pars :: "('e, 'u, 'f) DerivationDag \<Rightarrow> string \<Rightarrow> string set" where
  "pars d h = (case parents d h of None \<Rightarrow> {} | Some ps \<Rightarrow> ps)"

definition insert_recovered_edge ::
  "('e, 'u, 'f) DerivationDag \<Rightarrow> string \<Rightarrow> string \<Rightarrow> ('e, 'u, 'f) DerivationDag" where
  "insert_recovered_edge d p c =
     d\<lparr>children := (children d)(p \<mapsto> insert c (kids d p)), parents := (parents d)(c \<mapsto> insert p (pars d c))\<rparr>"

definition db_id_for_path :: "('e, 'u, 'f) DerivationDag \<Rightarrow> string \<Rightarrow> 'u option" where
  "db_id_for_path d path =
     Option.bind (path_to_hash d path) (\<lambda>h. Option.bind (nodes d h) db_id)"

definition path_or_hash_fallback :: "('e, 'u, 'f) DerivationDag \<Rightarrow> string \<Rightarrow> string" where
  "path_or_hash_fallback d h = (case nodes d h of Some s \<Rightarrow> full (drv_path s) | None \<Rightarrow> h)"

definition get_parents ::
  "(string set \<Rightarrow> string list) \<Rightarrow> ('e, 'u, 'f) DerivationDag \<Rightarrow> string \<Rightarrow> string list" where
  "get_parents iter d h = (case parents d h of None \<Rightarrow> [] | Some ps \<Rightarrow> iter ps)"

definition parents_count :: "('e, 'u, 'f) DerivationDag \<Rightarrow> string \<Rightarrow> nat" where
  "parents_count d h = (case parents d h of None \<Rightarrow> 0 | Some ps \<Rightarrow> card ps)"

definition get_children ::
  "(string set \<Rightarrow> string list) \<Rightarrow> ('e, 'u, 'f) DerivationDag \<Rightarrow> string \<Rightarrow> string list" where
  "get_children iter d h = (case children d h of None \<Rightarrow> [] | Some cs \<Rightarrow> iter cs)"

text \<open>A write through \<open>nodes.get_mut(hash)\<close>: nothing happens when there is no such node.\<close>

definition modify_node ::
  "string \<Rightarrow> (('e, 'u, 'f) DagNode \<Rightarrow> ('e, 'u, 'f) DagNode) \<Rightarrow> ('e, 'u, 'f) DerivationDag \<Rightarrow> ('e, 'u, 'f) DerivationDag" where
  "modify_node h g d = (case nodes d h of None \<Rightarrow> d | Some s \<Rightarrow> d\<lparr>nodes := (nodes d)(h \<mapsto> g s)\<rparr>)"

section \<open>Removal\<close>

text \<open>\<open>remove_node\<close>: the node, its path, and the edges at both ends.\<close>

definition remove_node ::
  "(string set \<Rightarrow> string list) \<Rightarrow> ('e, 'u, 'f) DerivationDag \<Rightarrow> string \<Rightarrow> ('e, 'u, 'f) DerivationDag" where
  "remove_node iter d h =
     (let d = (case nodes d h of
                 None \<Rightarrow> d
               | Some s \<Rightarrow> d\<lparr>nodes := (nodes d)(h := None), path_to_hash := (path_to_hash d)(full (drv_path s) := None)\<rparr>);
          cs = get_children iter d h;
          d = d\<lparr>children := (children d)(h := None)\<rparr>;
          d = fold (\<lambda>c d. d\<lparr>parents := (parents d)(c := map_option (\<lambda>ps. ps - {h}) (parents d c))\<rparr>) cs d;
          ps = get_parents iter d h;
          d = d\<lparr>parents := (parents d)(h := None)\<rparr>
      in fold (\<lambda>p d. d\<lparr>children := (children d)(p := map_option (\<lambda>cs. cs - {h}) (children d p))\<rparr>) ps d)"

definition strip_interest :: "'u \<Rightarrow> ('e, 'u, 'f) DagNode \<Rightarrow> ('e, 'u, 'f) DagNode" where
  "strip_interest b s = s\<lparr>interested_builds := interested_builds s - {b}, wanted_by_build := (wanted_by_build s)(b := None)\<rparr>"

definition remove_build_interest ::
  "(string set \<Rightarrow> string list) \<Rightarrow> ('e, 'u, 'f) DerivationDag \<Rightarrow> 'u \<Rightarrow> ('e, 'u, 'f) DerivationDag \<times> string list" where
  "remove_build_interest iter d b =
     (let d' = d\<lparr>nodes := map_option (strip_interest b) \<circ> nodes d\<rparr>
      in (d', filter (\<lambda>h. case nodes d' h of None \<Rightarrow> False
                          | Some s \<Rightarrow> interested_builds s = {} \<and> \<not> status_is_terminal (node_status s))
                (iter (dom (nodes d)))))"

record ReapOutcome =
  reaped_paths :: "string list"
  surviving_parents :: "string list"

definition reap_candidate :: "('e, 'u, 'f) DagNode \<Rightarrow> bool" where
  "reap_candidate s \<longleftrightarrow>
     interested_builds s = {} \<and> status_is_terminal (node_status s) \<and> node_status s \<noteq> Poisoned"

text \<open>The survivors are kept in a \<open>BTreeSet\<close>, which the outcome lists in ascending order.\<close>

fun reap_loop ::
  "(string set \<Rightarrow> string list) \<Rightarrow> (string \<times> string) list \<Rightarrow> ('e, 'u, 'f) DerivationDag \<Rightarrow> string set \<Rightarrow> string list
   \<Rightarrow> ('e, 'u, 'f) DerivationDag \<times> string set \<times> string list" where
  "reap_loop iter [] d surv paths = (d, surv, paths)"
| "reap_loop iter ((h, path) # todo) d surv paths =
     reap_loop iter todo (remove_node iter d h) (surv \<union> pars d h) (paths @ [path])"

definition remove_build_interest_and_reap ::
  "(string set \<Rightarrow> string list) \<Rightarrow> ('e, 'u, 'f) DerivationDag \<Rightarrow> 'u \<Rightarrow> ('e, 'u, 'f) DerivationDag \<times> ReapOutcome" where
  "remove_build_interest_and_reap iter d b =
     (let d = d\<lparr>nodes := map_option (strip_interest b) \<circ> nodes d\<rparr>;
          to_reap = concat (map (\<lambda>h. case nodes d h of None \<Rightarrow> []
                                      | Some s \<Rightarrow> if reap_candidate s then [(h, full (drv_path s))] else [])
                              (iter (dom (nodes d))));
          (d, surv, paths) = reap_loop iter to_reap d {} []
      in (d, \<lparr>reaped_paths = paths,
              surviving_parents = sorted_list_of_set {p \<in> surv. nodes d p \<noteq> None}\<rparr>))"

section \<open>Well-formed graphs\<close>

definition dag_edges :: "('e, 'u, 'f) DerivationDag \<Rightarrow> (string \<times> string) set" where
  "dag_edges d = {(p, c). c \<in> kids d p}"

text \<open>
  The two edge maps mirror each other, every edge joins two nodes, the path index is exact, a node
  is stored under its own hash, its routing features are the derived ones, and a node without content
  has no input sources.
\<close>

definition node_ok :: "string \<Rightarrow> ('e, 'u, 'f) DagNode \<Rightarrow> bool" where
  "node_ok h s \<longleftrightarrow> drv_hash s = h
     \<and> effective_features s = effective_features_derive (fixed_output s) (required_features s)
     \<and> (drv_content s \<noteq> [] \<or> drv_input_srcs s = [])"

definition mirrored :: "('e, 'u, 'f) DerivationDag \<Rightarrow> bool" where
  "mirrored d \<longleftrightarrow> (\<forall>p c. c \<in> kids d p \<longleftrightarrow> p \<in> pars d c)"

definition edges_in :: "('e, 'u, 'f) DerivationDag \<Rightarrow> bool" where
  "edges_in d \<longleftrightarrow> (\<forall>p c. c \<in> kids d p \<longrightarrow> p \<in> dom (nodes d) \<and> c \<in> dom (nodes d))"

definition path_index_exact :: "('e, 'u, 'f) DerivationDag \<Rightarrow> bool" where
  "path_index_exact d \<longleftrightarrow>
     (\<forall>path h. path_to_hash d path = Some h \<longleftrightarrow> (\<exists>s. nodes d h = Some s \<and> full (drv_path s) = path))"

definition dag_wf :: "('e, 'u, 'f) DerivationDag \<Rightarrow> bool" where
  "dag_wf d \<longleftrightarrow> finite (dom (nodes d)) \<and> mirrored d \<and> edges_in d \<and> path_index_exact d
     \<and> (\<forall>h s. nodes d h = Some s \<longrightarrow> node_ok h s)"

lemma dag_wf_new: "dag_wf dag_new"
  by (simp add: dag_wf_def dag_new_def mirrored_def edges_in_def path_index_exact_def kids_def pars_def)

lemma hash_orderD:
  assumes "hash_order iter" "finite A"
  shows "set (iter A) = A" "distinct (iter A)"
  using assms by (auto simp: hash_order_def)

lemma kids_finite: "dag_wf d \<Longrightarrow> finite (kids d h)"
  by (rule finite_subset [of _ "dom (nodes d)"]) (auto simp: dag_wf_def edges_in_def)

lemma pars_finite: "dag_wf d \<Longrightarrow> finite (pars d h)"
  by (rule finite_subset [of _ "dom (nodes d)"]) (unfold dag_wf_def edges_in_def mirrored_def, blast+)

lemma set_get_children: "hash_order iter \<Longrightarrow> dag_wf d \<Longrightarrow> set (get_children iter d h) = kids d h"
  using kids_finite [of d h] by (auto simp: get_children_def kids_def hash_orderD split: option.splits)

lemma set_get_parents: "hash_order iter \<Longrightarrow> dag_wf d \<Longrightarrow> set (get_parents iter d h) = pars d h"
  using pars_finite [of d h] by (auto simp: get_parents_def pars_def hash_orderD split: option.splits)

lemma distinct_get_parents: "hash_order iter \<Longrightarrow> dag_wf d \<Longrightarrow> distinct (get_parents iter d h)"
  using pars_finite [of d h] by (auto simp: get_parents_def pars_def hash_orderD split: option.splits)

lemma parents_count_card: "parents_count d h = card (pars d h)"
  by (simp add: parents_count_def pars_def split: option.splits)

section \<open>Removing nodes\<close>

lemma scrub_parents:
  "fold (\<lambda>c d. d\<lparr>parents := (parents d)(c := map_option (\<lambda>ps. ps - {h}) (parents d c))\<rparr>) cs d
   = d\<lparr>parents := (\<lambda>c. if c \<in> set cs then map_option (\<lambda>ps. ps - {h}) (parents d c) else parents d c)\<rparr>"
  for d :: "('e, 'u, 'f) DerivationDag"
  by (induction cs arbitrary: d) (auto simp: fun_eq_iff option.map_comp comp_def intro!: arg_cong [where f = "\<lambda>x. _\<lparr>parents := x\<rparr>"])

lemma scrub_children:
  "fold (\<lambda>p d. d\<lparr>children := (children d)(p := map_option (\<lambda>cs. cs - {h}) (children d p))\<rparr>) ps d
   = d\<lparr>children := (\<lambda>p. if p \<in> set ps then map_option (\<lambda>cs. cs - {h}) (children d p) else children d p)\<rparr>"
  for d :: "('e, 'u, 'f) DerivationDag"
  by (induction ps arbitrary: d) (auto simp: fun_eq_iff option.map_comp comp_def intro!: arg_cong [where f = "\<lambda>x. _\<lparr>children := x\<rparr>"])

lemma remove_node_nodes: "nodes (remove_node iter d h) = (nodes d)(h := None)"
  by (auto simp: remove_node_def Let_def scrub_parents scrub_children split: option.splits)

lemma remove_node_rest:
  "resubmit_floors (remove_node iter d h) = resubmit_floors d"
  "dag_soft_features (remove_node iter d h) = dag_soft_features d"
  by (auto simp: remove_node_def Let_def scrub_parents scrub_children split: option.splits)

lemma remove_node_path:
  "path_to_hash (remove_node iter d h)
   = (case nodes d h of None \<Rightarrow> path_to_hash d | Some s \<Rightarrow> (path_to_hash d)(full (drv_path s) := None))"
  by (auto simp: remove_node_def Let_def scrub_parents scrub_children split: option.splits)

lemma remove_node_edges:
  assumes "hash_order iter" "dag_wf d"
  shows "kids (remove_node iter d h) p = (if p = h then {} else kids d p - {h})"
    and "pars (remove_node iter d h) c = (if c = h then {} else pars d c - {h})"
proof -
  define d0 where "d0 = (case nodes d h of None \<Rightarrow> d
    | Some s \<Rightarrow> d\<lparr>nodes := (nodes d)(h := None), path_to_hash := (path_to_hash d)(full (drv_path s) := None)\<rparr>)"
  define d1 where "d1 = d0\<lparr>children := (children d0)(h := None)\<rparr>"
  define d2 where "d2 = d1\<lparr>parents := (\<lambda>c. if c \<in> set (get_children iter d0 h)
    then map_option (\<lambda>ps. ps - {h}) (parents d1 c) else parents d1 c)\<rparr>"
  have m: "c \<in> kids d p \<longleftrightarrow> p \<in> pars d c" for p c using assms(2) by (auto simp: dag_wf_def mirrored_def)
  have d0: "children d0 = children d" "parents d0 = parents d" by (simp_all add: d0_def split: option.splits)
  have cs: "set (get_children iter d0 h) = kids d h"
    using set_get_children [OF assms] d0 by (simp add: get_children_def)
  have p2: "pars d2 c = pars d c - {h}" for c
  proof (cases "c \<in> kids d h")
    case True
    thus ?thesis using cs by (auto simp: d2_def d1_def pars_def d0 split: option.splits)
  next
    case False
    hence "h \<notin> pars d c" using m by simp
    thus ?thesis using False cs by (auto simp: d2_def d1_def pars_def d0 split: option.splits)
  qed
  have "finite (pars d2 h)" using pars_finite [OF assms(2), of h] by (simp add: p2)
  hence ps: "set (get_parents iter d2 h) = pars d h - {h}"
    using p2 [of h] by (auto simp: get_parents_def pars_def hash_orderD [OF assms(1)] split: option.splits)
  define d3 where "d3 = d2\<lparr>parents := (parents d2)(h := None)\<rparr>"
  have r: "remove_node iter d h = d3\<lparr>children := (\<lambda>p. if p \<in> set (get_parents iter d2 h)
      then map_option (\<lambda>cs. cs - {h}) (children d3 p) else children d3 p)\<rparr>"
    unfolding d3_def d2_def d1_def d0_def remove_node_def Let_def scrub_parents scrub_children by (rule refl)
  show "pars (remove_node iter d h) c = (if c = h then {} else pars d c - {h})"
    using p2 [of c] by (simp add: r d3_def pars_def)
  show "kids (remove_node iter d h) p = (if p = h then {} else kids d p - {h})"
  proof (cases "p = h \<or> h \<in> kids d p")
    case True
    thus ?thesis using ps m [of h p] by (auto simp: r d3_def d2_def d1_def kids_def d0 split: option.splits)
  next
    case False
    hence "p \<notin> set (get_parents iter d2 h)" using ps m by auto
    thus ?thesis using False by (auto simp: r d3_def d2_def d1_def kids_def d0 split: option.splits)
  qed
qed

lemma path_index_inj:
  "path_index_exact d \<Longrightarrow> nodes d h = Some s \<Longrightarrow> nodes d h' = Some s' \<Longrightarrow>
   full (drv_path s) = full (drv_path s') \<Longrightarrow> h = h'"
  unfolding path_index_exact_def by (metis option.inject)

lemma remove_node_wf:
  assumes "hash_order iter" "dag_wf d"
  shows "dag_wf (remove_node iter d h)"
proof -
  have "path_index_exact (remove_node iter d h)"
    using assms(2) path_index_inj [of d h]
    by (auto simp: dag_wf_def path_index_exact_def remove_node_nodes remove_node_path split: option.splits)
  moreover have "mirrored (remove_node iter d h)"
    using assms(2) by (auto simp: dag_wf_def mirrored_def remove_node_edges [OF assms])
  moreover have "edges_in (remove_node iter d h)"
    using assms(2) by (simp add: dag_wf_def edges_in_def remove_node_edges(1) [OF assms] remove_node_nodes) blast
  ultimately show ?thesis using assms(2) by (simp add: dag_wf_def remove_node_nodes)
qed

lemma strip_interest_wf: "dag_wf d \<Longrightarrow> dag_wf (d\<lparr>nodes := map_option (strip_interest b) \<circ> nodes d\<rparr>)"
proof -
  have k: "kids (d\<lparr>nodes := x\<rparr>) = kids d" "pars (d\<lparr>nodes := x\<rparr>) = pars d" for x :: "string \<rightharpoonup> ('a, 'b, 'c) DagNode"
    by (simp_all add: kids_def pars_def fun_eq_iff)
  have o: "node_ok h (strip_interest b s) = node_ok h s" "drv_path (strip_interest b s) = drv_path s" for h s
    by (simp_all add: node_ok_def strip_interest_def)
  assume "dag_wf d"
  thus ?thesis
    by (auto simp: dag_wf_def mirrored_def edges_in_def path_index_exact_def k o dom_map_option_comp)
qed

lemma reap_loop_exact:
  assumes "hash_order iter"
  shows "dag_wf d \<Longrightarrow> distinct (map fst todo) \<Longrightarrow> reap_loop iter todo d surv paths = (d', surv', paths') \<Longrightarrow>
    dag_wf d' \<and> paths' = paths @ map snd todo
    \<and> nodes d' = nodes d |` (- fst ` set todo)
    \<and> (\<forall>p. kids d' p = (if p \<in> fst ` set todo then {} else kids d p - fst ` set todo))
    \<and> surv' - fst ` set todo = (surv \<union> {p. kids d p \<inter> fst ` set todo \<noteq> {}}) - fst ` set todo"
proof (induction todo arbitrary: d surv paths)
  case Nil
  thus ?case by (simp add: restrict_map_def fun_eq_iff)
next
  case (Cons t todo)
  obtain h path where t: "t = (h, path)" by (cases t)
  let ?d = "remove_node iter d h"
  have m: "c \<in> kids d p \<longleftrightarrow> p \<in> pars d c" for p c using Cons.prems(1) by (auto simp: dag_wf_def mirrored_def)
  have k: "kids ?d p = (if p = h then {} else kids d p - {h})" for p
    by (rule remove_node_edges(1) [OF assms Cons.prems(1)])
  have IH: "dag_wf d' \<and> paths' = (paths @ [path]) @ map snd todo
    \<and> nodes d' = nodes ?d |` (- fst ` set todo)
    \<and> (\<forall>p. kids d' p = (if p \<in> fst ` set todo then {} else kids ?d p - fst ` set todo))
    \<and> surv' - fst ` set todo = ((surv \<union> pars d h) \<union> {p. kids ?d p \<inter> fst ` set todo \<noteq> {}}) - fst ` set todo"
    using Cons.prems(2,3) by (intro Cons.IH remove_node_wf assms Cons.prems(1)) (simp_all add: t)
  moreover have H: "fst ` set (t # todo) = insert h (fst ` set todo)" "h \<notin> fst ` set todo"
    using Cons.prems(2) by (auto simp: t)
  moreover have "nodes d |` (- insert h (fst ` set todo)) = nodes ?d |` (- fst ` set todo)"
    by (auto simp: restrict_map_def fun_eq_iff remove_node_nodes)
  moreover have "(surv \<union> {p. kids d p \<inter> insert h (fst ` set todo) \<noteq> {}}) - insert h (fst ` set todo)
      = (((surv \<union> pars d h) \<union> {p. kids ?d p \<inter> fst ` set todo \<noteq> {}}) - fst ` set todo) - {h}"
    using H(2) by (auto simp: k m)
  moreover have "surv' - insert h (fst ` set todo) = (surv' - fst ` set todo) - {h}" by blast
  ultimately show ?case by (simp add: t k) blast
qed

lemma reap_list:
  "set (concat (map (\<lambda>h. case m h of None \<Rightarrow> [] | Some s \<Rightarrow> if P s then [(h, g s)] else []) hs))
     = {(h, g s) | h s. h \<in> set hs \<and> m h = Some s \<and> P s}"
  "distinct hs \<Longrightarrow>
     distinct (map fst (concat (map (\<lambda>h. case m h of None \<Rightarrow> [] | Some s \<Rightarrow> if P s then [(h, g s)] else []) hs)))"
proof -
  show s: "set (concat (map (\<lambda>h. case m h of None \<Rightarrow> [] | Some s \<Rightarrow> if P s then [(h, g s)] else []) hs))
     = {(h, g s) | h s. h \<in> set hs \<and> m h = Some s \<and> P s}" for hs
    by (force split: option.splits if_splits)
  show "distinct hs \<Longrightarrow>
     distinct (map fst (concat (map (\<lambda>h. case m h of None \<Rightarrow> [] | Some s \<Rightarrow> if P s then [(h, g s)] else []) hs)))"
    by (induction hs) (auto split: option.splits if_splits)
qed

lemma reap_outcome:
  assumes "hash_order iter" "dag_wf d" "remove_build_interest_and_reap iter d b = (d', out)"
    and "R = {h. \<exists>s. nodes d h = Some s \<and> reap_candidate (strip_interest b s)}"
  shows "dag_wf d' \<and> nodes d' = (map_option (strip_interest b) \<circ> nodes d) |` (- R)
    \<and> dag_edges d' = {(p, c) \<in> dag_edges d. p \<notin> R \<and> c \<notin> R}
    \<and> set (reaped_paths out) = {full (drv_path s) | h s. h \<in> R \<and> nodes d h = Some s}
    \<and> set (surviving_parents out) = {p. p \<notin> R \<and> (\<exists>c\<in>R. (p, c) \<in> dag_edges d)}"
proof -
  let ?d = "d\<lparr>nodes := map_option (strip_interest b) \<circ> nodes d\<rparr>"
  define todo where "todo = concat (map (\<lambda>h. case nodes ?d h of None \<Rightarrow> []
      | Some s \<Rightarrow> if reap_candidate s then [(h, full (drv_path s))] else []) (iter (dom (nodes ?d))))"
  have wf: "dag_wf ?d" by (rule strip_interest_wf [OF assms(2)])
  hence "finite (dom (nodes ?d))" by (simp add: dag_wf_def)
  note i = hash_orderD [OF assms(1) this]
  have sp: "drv_path (strip_interest b s) = drv_path s" for s :: "('a, 'b, 'c) DagNode"
    by (simp add: strip_interest_def)
  have todo1: "set todo = {(h, full (drv_path s)) | h s. nodes d h = Some s \<and> reap_candidate (strip_interest b s)}"
    unfolding todo_def reap_list(1) i(1) by (auto simp: sp)
  have todo2: "distinct (map fst todo)" unfolding todo_def by (rule reap_list(2) [OF i(2)])
  note todo = todo1 todo2
  have R: "fst ` set todo = R" by (auto simp: todo1 assms(4) image_iff)
  obtain d1 surv paths where r: "reap_loop iter todo ?d {} [] = (d1, surv, paths)" by (metis prod_cases3)
  have out: "d' = d1" "reaped_paths out = paths" "surviving_parents out = sorted_list_of_set {p \<in> surv. nodes d1 p \<noteq> None}"
    using assms(3) r unfolding remove_build_interest_and_reap_def Let_def todo_def by auto
  have k: "kids ?d = kids d" by (simp add: kids_def fun_eq_iff)
  note e = reap_loop_exact [OF assms(1) wf todo(2) r, unfolded R k]
  have fin: "finite {p \<in> surv. nodes d1 p \<noteq> None}"
    using e by (auto simp: dag_wf_def dom_def intro: finite_subset [rotated])
  have "{p \<in> surv. nodes d1 p \<noteq> None} = {p. p \<notin> R \<and> kids d p \<inter> R \<noteq> {}}"
  proof -
    have "p \<in> surv \<longleftrightarrow> kids d p \<inter> R \<noteq> {}" if "p \<notin> R" for p using e that by blast
    moreover have "nodes d1 p \<noteq> None \<longleftrightarrow> p \<notin> R \<and> p \<in> dom (nodes d)" for p using e by (auto simp: restrict_map_def)
    moreover have "p \<in> dom (nodes d)" if "kids d p \<inter> R \<noteq> {}" for p
      using assms(2) that unfolding dag_wf_def edges_in_def by blast
    ultimately show ?thesis by blast
  qed
  hence "set (surviving_parents out) = {p. p \<notin> R \<and> (\<exists>c\<in>R. (p, c) \<in> dag_edges d)}"
    using fin out(3) by (auto simp: dag_edges_def)
  moreover have "set (reaped_paths out) = {full (drv_path s) | h s. h \<in> R \<and> nodes d h = Some s}"
  proof -
    have "set paths = snd ` set todo" using e by simp
    thus ?thesis unfolding out(2) todo1 assms(4) by (auto simp: image_iff) blast+
  qed
  moreover have "dag_edges d1 = {(p, c) \<in> dag_edges d. p \<notin> R \<and> c \<notin> R}"
    using e by (auto simp: dag_edges_def split: if_splits)
  ultimately show ?thesis using e out(1) by simp
qed

section \<open>A two-node graph\<close>

definition ex_node :: "string \<Rightarrow> DerivationStatus \<Rightarrow> nat set \<Rightarrow> (nat, nat, nat) DagNode" where
  "ex_node h st bs = \<lparr>drv_hash = h, drv_path = \<lparr>hash = [], name = h, full = h\<rparr>, pname = None, drv_system = [],
     required_features = [], effective_features = [], soft_features = [], output_names = [], fixed_output = False,
     machine = fresh_machine\<lparr>status := st\<rparr>, interested_builds = bs, est_duration = 1, priority = 1, unblocks = 0,
     drv_content = [], drv_fetch_attempted = False, drv_input_srcs = [], expected_output_paths = [],
     wanted_by_build = Map.empty, db_id = None, traceparent = []\<rparr>"

definition ex_dag :: "(nat, nat, nat) DerivationDag" where
  "ex_dag = \<lparr>nodes = [''p'' \<mapsto> ex_node ''p'' Queued {5, 6}, ''c'' \<mapsto> ex_node ''c'' Completed {5}],
     children = [''p'' \<mapsto> {''c''}], parents = [''c'' \<mapsto> {''p''}], path_to_hash = [''p'' \<mapsto> ''p'', ''c'' \<mapsto> ''c''],
     dag_soft_features = [], resubmit_floors = Map.empty\<rparr>"

lemma ex_dag_wf: "dag_wf ex_dag"
  unfolding dag_wf_def mirrored_def edges_in_def path_index_exact_def node_ok_def
  by (auto simp: ex_dag_def ex_node_def kids_def pars_def effective_features_derive_def split: if_splits)

lemma ex_dag_edges: "dag_edges ex_dag = {(''p'', ''c'')}"
  by (auto simp: dag_edges_def kids_def ex_dag_def split: if_splits)

lemma ex_dag_acyclic: "acyclic (dag_edges ex_dag)"
  by (simp add: ex_dag_edges acyclic_insert) (simp add: acyclic_def)

lemma sorted_hash_order: "hash_order sorted_list_of_set"
  by (simp add: hash_order_def)

text \<open>
  C40. Reaping after a build ends is exact. With \<open>R\<close> the nodes that no other build is interested in and
  whose status is terminal but not poisoned (a poisoned node is kept even when nobody wants it, and so is
  one that is not terminal): the graph that is left is well-formed, has exactly the
  other nodes with the build's interest and contribution stripped, and exactly the edges between them.
  The reported paths are those of \<open>R\<close>, and the reported survivors are exactly the remaining nodes that
  lost a child.
\<close>

theorem reap_exact:
  assumes "hash_order iter" "dag_wf d" "remove_build_interest_and_reap iter d b = (d', out)"
    and "R = {h. \<exists>s. nodes d h = Some s \<and> reap_candidate (strip_interest b s)}"
  shows "dag_wf d' \<and> nodes d' = (map_option (strip_interest b) \<circ> nodes d) |` (- R)
    \<and> dag_edges d' = {(p, c) \<in> dag_edges d. p \<notin> R \<and> c \<notin> R}
    \<and> set (reaped_paths out) = {full (drv_path s) | h s. h \<in> R \<and> nodes d h = Some s}
    \<and> set (surviving_parents out) = {p. p \<notin> R \<and> (\<exists>c\<in>R. (p, c) \<in> dag_edges d)}"
  using assms by (rule reap_outcome)

theorem reap_exact_witness:
  "nodes (fst (remove_build_interest_and_reap sorted_list_of_set ex_dag 5)) ''c'' = None
   \<and> set (surviving_parents (snd (remove_build_interest_and_reap sorted_list_of_set ex_dag 5))) = {''p''}"
proof -
  obtain d' out where r: "remove_build_interest_and_reap sorted_list_of_set ex_dag 5 = (d', out)" by fastforce
  have R: "{h. \<exists>s. nodes ex_dag h = Some s \<and> reap_candidate (strip_interest 5 s)} = {''c''}"
    by (auto simp: ex_dag_def ex_node_def reap_candidate_def strip_interest_def node_status_def status_is_terminal_def
        fresh_machine_def split: if_splits)
  have e: "dag_edges ex_dag = {(''p'', ''c'')}" by (auto simp: dag_edges_def kids_def ex_dag_def split: if_splits)
  note x = reap_exact [OF sorted_hash_order ex_dag_wf r R [symmetric], unfolded e]
  from x have "nodes d' ''c'' = None" by (simp add: restrict_map_def)
  moreover have "{p. p \<notin> {''c''} \<and> (\<exists>c\<in>{''c''}. (p, c) \<in> {(''p'', ''c'')})} = {''p''}" by auto
  with x have "set (surviving_parents out) = {''p''}" by simp
  ultimately show ?thesis by (simp add: r)
qed

end
