(* ===== verification/Sched_Merge.thy ===== *)
theory Sched_Merge
  imports Sched_Dag
begin

text \<open>
  Merging a submission into the graph and undoing a merge (\<open>merge\<close> and \<open>rollback_merge\<close> in
  \<open>rio-scheduler/src/dag/mod.rs\<close>). The local variables of \<open>merge\<close> are the fields of the
  \<open>MergeResult\<close> it returns, so the loops thread that record. \<open>None\<close> is a panic of
  \<open>StorePath::parse\<close> or a depth-first search that does not end.
\<close>

datatype DagError = CycleDetected | InvalidDrvPath string StorePathError

record ('e, 'u, 'f) MergeResult =
  newly_inserted :: "string set"
  new_edges :: "(string \<times> string) list"
  interest_added :: "string list"
  reset_on_resubmit :: "string list"
  removed_retriable :: "(string \<times> ('e, 'u, 'f) DagNode) list"
  traceparent_upgraded :: "string list"
  contributions_recorded :: "(string \<times> string list option) list"
  floors_consumed :: "(string \<times> u32) list"
  drv_content_backfilled :: "(string \<times> bool) list"

definition merge_log_new :: "('e, 'u, 'f) MergeResult" where
  "merge_log_new = \<lparr>newly_inserted = {}, new_edges = [], interest_added = [], reset_on_resubmit = [],
     removed_retriable = [], traceparent_upgraded = [], contributions_recorded = [], floors_consumed = [],
     drv_content_backfilled = []\<rparr>"

text \<open>A node that is already there: interest, backfill, contribution, trace.\<close>

definition merge_interest ::
  "'u \<Rightarrow> string \<Rightarrow> ('e, 'u, 'f) DagNode \<times> ('e, 'u, 'f) MergeResult \<Rightarrow> ('e, 'u, 'f) DagNode \<times> ('e, 'u, 'f) MergeResult" where
  "merge_interest build_id h = (\<lambda>(s, r).
     (s\<lparr>interested_builds := insert build_id (interested_builds s)\<rparr>,
      if build_id \<in> interested_builds s then r else r\<lparr>interest_added := interest_added r @ [h]\<rparr>))"

definition merge_backfill ::
  "bytes \<Rightarrow> string \<Rightarrow> ('e, 'u, 'f) DagNode \<times> ('e, 'u, 'f) MergeResult \<Rightarrow> ('e, 'u, 'f) DagNode \<times> ('e, 'u, 'f) MergeResult" where
  "merge_backfill content h = (\<lambda>(s, r).
     if drv_content s = [] \<and> content \<noteq> [] then
       (case rehydrate_from_aterm s content of
          None \<Rightarrow> (s, r)
        | Some s' \<Rightarrow>
            (s'\<lparr>drv_fetch_attempted := False\<rparr>,
             r\<lparr>drv_content_backfilled := drv_content_backfilled r @ [(h, drv_fetch_attempted s)]\<rparr>))
     else (s, r))"

definition merge_contribution ::
  "'u \<Rightarrow> string list \<Rightarrow> string \<Rightarrow> ('e, 'u, 'f) DagNode \<times> ('e, 'u, 'f) MergeResult \<Rightarrow> ('e, 'u, 'f) DagNode \<times> ('e, 'u, 'f) MergeResult" where
  "merge_contribution build_id wanted h = (\<lambda>(s, r).
     let prior = wanted_by_build s build_id;
         w = (case prior of Some w \<Rightarrow> union_wanted_saturating w wanted | None \<Rightarrow> wanted)
     in (s\<lparr>wanted_by_build := (wanted_by_build s)(build_id \<mapsto> w)\<rparr>,
         r\<lparr>contributions_recorded := contributions_recorded r @ [(h, prior)]\<rparr>))"

definition merge_trace ::
  "string \<Rightarrow> string \<Rightarrow> ('e, 'u, 'f) DagNode \<times> ('e, 'u, 'f) MergeResult \<Rightarrow> ('e, 'u, 'f) DagNode \<times> ('e, 'u, 'f) MergeResult" where
  "merge_trace tp h = (\<lambda>(s, r).
     if traceparent s = [] \<and> tp \<noteq> []
     then (s\<lparr>traceparent := tp\<rparr>, r\<lparr>traceparent_upgraded := traceparent_upgraded r @ [h]\<rparr>)
     else (s, r))"

definition merge_existing ::
  "'u \<Rightarrow> string \<Rightarrow> DerivationNode \<Rightarrow> string \<Rightarrow> ('e, 'u, 'f) DagNode \<times> ('e, 'u, 'f) MergeResult
   \<Rightarrow> ('e, 'u, 'f) DagNode \<times> ('e, 'u, 'f) MergeResult" where
  "merge_existing build_id tp node h =
     merge_trace tp h \<circ> merge_contribution build_id (nd_wanted_output_names node) h
     \<circ> merge_backfill (nd_drv_content node) h \<circ> merge_interest build_id h"

text \<open>A node to insert, with what a reset node passes on and the floor an operator's clear parked.\<close>

definition merge_fresh ::
  "'u \<Rightarrow> string \<Rightarrow> DerivationNode \<Rightarrow> string \<Rightarrow> ('e, 'u, 'f) DagNode option \<Rightarrow> ('e, 'u, 'f) DagNode
   \<Rightarrow> ('e, 'u, 'f) DerivationDag \<Rightarrow> ('e, 'u, 'f) MergeResult \<Rightarrow> ('e, 'u, 'f) DerivationDag \<times> ('e, 'u, 'f) MergeResult" where
  "merge_fresh build_id tp node h prior s d r =
     (let s = apply_soft_features d s;
          s = s\<lparr>interested_builds := insert build_id (interested_builds s)\<rparr>;
          s = s\<lparr>wanted_by_build := (wanted_by_build s)(build_id \<mapsto> nd_wanted_output_names node)\<rparr>;
          (s, d, r) =
            (case prior of
               Some old \<Rightarrow>
                 (s\<lparr>interested_builds := interested_builds s \<union> interested_builds old,
                    machine := (machine s)\<lparr>resubmit_cycles := resubmit_cycles (machine old) + 1\<rparr>,
                    wanted_by_build := wanted_by_build old ++ wanted_by_build s\<rparr>,
                  d, r\<lparr>reset_on_resubmit := reset_on_resubmit r @ [h]\<rparr>)
             | None \<Rightarrow>
                 (case resubmit_floors d h of
                    Some fl \<Rightarrow>
                      (s\<lparr>machine := (machine s)\<lparr>resubmit_cycles := fl\<rparr>\<rparr>,
                       d\<lparr>resubmit_floors := (resubmit_floors d)(h := None)\<rparr>,
                       r\<lparr>floors_consumed := floors_consumed r @ [(h, fl)],
                         reset_on_resubmit := reset_on_resubmit r @ [h]\<rparr>)
                  | None \<Rightarrow> (s, d, r)));
          s = s\<lparr>traceparent := tp\<rparr>
      in (d\<lparr>path_to_hash := (path_to_hash d)(full (drv_path s) \<mapsto> h), nodes := (nodes d)(h \<mapsto> s)\<rparr>,
          r\<lparr>newly_inserted := insert h (newly_inserted r)\<rparr>))"

text \<open>
  One iteration of the loop over the submitted nodes: the graph, the log, and the error that makes
  the caller roll back.
\<close>

definition merge_node ::
  "'u \<Rightarrow> string \<Rightarrow> string set \<Rightarrow> DerivationNode \<Rightarrow> ('e, 'u, 'f::zero) DerivationDag \<Rightarrow> ('e, 'u, 'f) MergeResult
   \<Rightarrow> (('e, 'u, 'f) DerivationDag \<times> ('e, 'u, 'f) MergeResult \<times> DagError option) option" where
  "merge_node build_id tp submission_children node d r =
     (let h = nd_drv_hash node;
          is_submission_root = (nd_drv_path node \<notin> submission_children);
          prior = (if h \<in> newly_inserted r then None
                   else case nodes d h of
                          None \<Rightarrow> None
                        | Some s \<Rightarrow> if mints_epoch_on_resubmit (machine s) is_submission_root then Some s else None);
          (d, r) = (case prior of
                      None \<Rightarrow> (d, r)
                    | Some old \<Rightarrow> (d\<lparr>nodes := (nodes d)(h := None)\<rparr>,
                                   r\<lparr>removed_retriable := removed_retriable r @ [(h, old)]\<rparr>))
      in case nodes d h of
           Some existing \<Rightarrow>
             (let (s, r) = merge_existing build_id tp node h (existing, r)
              in Some (d\<lparr>nodes := (nodes d)(h \<mapsto> s)\<rparr>, r, None))
         | None \<Rightarrow>
             (case try_from_node node of
                None \<Rightarrow> None
              | Some (Inl source) \<Rightarrow> Some (d, r, Some (InvalidDrvPath (nd_drv_path node) source))
              | Some (Inr s) \<Rightarrow> (let (d, r) = merge_fresh build_id tp node h prior s d r in Some (d, r, None))))"

fun merge_nodes ::
  "'u \<Rightarrow> string \<Rightarrow> string set \<Rightarrow> DerivationNode list \<Rightarrow> ('e, 'u, 'f::zero) DerivationDag \<Rightarrow> ('e, 'u, 'f) MergeResult
   \<Rightarrow> (('e, 'u, 'f) DerivationDag \<times> ('e, 'u, 'f) MergeResult \<times> DagError option) option" where
  "merge_nodes build_id tp kids_of_sub [] d r = Some (d, r, None)"
| "merge_nodes build_id tp kids_of_sub (n # ns) d r =
     (case merge_node build_id tp kids_of_sub n d r of
        None \<Rightarrow> None
      | Some (d, r, Some e) \<Rightarrow> Some (d, r, Some e)
      | Some (d, r, None) \<Rightarrow> merge_nodes build_id tp kids_of_sub ns d r)"

definition merge_edge ::
  "DerivationEdge \<Rightarrow> ('e, 'u, 'f) DerivationDag \<times> ('e, 'u, 'f) MergeResult \<Rightarrow> ('e, 'u, 'f) DerivationDag \<times> ('e, 'u, 'f) MergeResult" where
  "merge_edge edge = (\<lambda>(d, r).
     case path_to_hash d (parent_drv_path edge) of
       None \<Rightarrow> (d, r)
     | Some p \<Rightarrow>
         (case path_to_hash d (child_drv_path edge) of
            None \<Rightarrow> (d, r)
          | Some c \<Rightarrow>
              (let inserted_child = (c \<notin> kids d p);
                   d = d\<lparr>children := (children d)(p \<mapsto> insert c (kids d p)),
                         parents := (parents d)(c \<mapsto> insert p (pars d c))\<rparr>
               in (d, if inserted_child then r\<lparr>new_edges := new_edges r @ [(p, c)]\<rparr> else r))))"

definition merge_edges ::
  "DerivationEdge list \<Rightarrow> ('e, 'u, 'f) DerivationDag \<times> ('e, 'u, 'f) MergeResult \<Rightarrow> ('e, 'u, 'f) DerivationDag \<times> ('e, 'u, 'f) MergeResult" where
  "merge_edges es dr = fold merge_edge es dr"

section \<open>Rolling back\<close>

definition unlink :: "string \<times> string \<Rightarrow> ('e, 'u, 'f) DerivationDag \<Rightarrow> ('e, 'u, 'f) DerivationDag" where
  "unlink = (\<lambda>(p, c) d.
     let d = (case children d p of
                None \<Rightarrow> d
              | Some cs \<Rightarrow> d\<lparr>children := (children d)(p := (if cs - {c} = {} then None else Some (cs - {c})))\<rparr>)
     in case parents d c of
          None \<Rightarrow> d
        | Some ps \<Rightarrow> d\<lparr>parents := (parents d)(c := (if ps - {p} = {} then None else Some (ps - {p})))\<rparr>)"

definition uninsert :: "string set \<Rightarrow> string \<Rightarrow> ('e, 'u, 'f) DerivationDag \<Rightarrow> ('e, 'u, 'f) DerivationDag" where
  "uninsert restoring h d =
     (let d = (case nodes d h of
                 None \<Rightarrow> d
               | Some s \<Rightarrow> d\<lparr>nodes := (nodes d)(h := None), path_to_hash := (path_to_hash d)(full (drv_path s) := None)\<rparr>)
      in if h \<in> restoring then d
         else d\<lparr>children := (children d)(h := None), parents := (parents d)(h := None)\<rparr>)"

definition restore_node :: "string \<times> ('e, 'u, 'f) DagNode \<Rightarrow> ('e, 'u, 'f) DerivationDag \<Rightarrow> ('e, 'u, 'f) DerivationDag" where
  "restore_node = (\<lambda>(h, s) d.
     d\<lparr>path_to_hash := (path_to_hash d)(full (drv_path s) \<mapsto> h), nodes := (nodes d)(h \<mapsto> s)\<rparr>)"

definition undo_backfill :: "string set \<Rightarrow> string \<times> bool \<Rightarrow> ('e, 'u, 'f) DerivationDag \<Rightarrow> ('e, 'u, 'f) DerivationDag" where
  "undo_backfill restoring = (\<lambda>(h, prior_attempted) d.
     if h \<in> restoring then d
     else modify_node h (\<lambda>s. (clear_aterm s)\<lparr>drv_fetch_attempted := prior_attempted\<rparr>) d)"

definition undo_contribution ::
  "string set \<Rightarrow> 'u \<Rightarrow> string \<times> string list option \<Rightarrow> ('e, 'u, 'f) DerivationDag \<Rightarrow> ('e, 'u, 'f) DerivationDag" where
  "undo_contribution restoring build_id = (\<lambda>(h, prior) d.
     if h \<in> restoring then d
     else modify_node h (\<lambda>s. s\<lparr>wanted_by_build := (wanted_by_build s)(build_id := prior)\<rparr>) d)"

definition rollback_merge ::
  "(string set \<Rightarrow> string list) \<Rightarrow> 'u \<Rightarrow> ('e, 'u, 'f) DerivationDag \<Rightarrow> ('e, 'u, 'f) MergeResult \<Rightarrow> ('e, 'u, 'f) DerivationDag" where
  "rollback_merge iter build_id d r =
     (let d = fold (\<lambda>(h, fl) d. d\<lparr>resubmit_floors := (resubmit_floors d)(h \<mapsto> fl)\<rparr>) (floors_consumed r) d;
          d = fold unlink (new_edges r) d;
          restoring = fst ` set (removed_retriable r);
          d = fold (uninsert restoring) (iter (newly_inserted r)) d;
          d = fold restore_node (removed_retriable r) d;
          d = fold (\<lambda>h. modify_node h (\<lambda>s. s\<lparr>interested_builds := interested_builds s - {build_id}\<rparr>)) (interest_added r) d;
          d = fold (\<lambda>h. modify_node h (\<lambda>s. s\<lparr>traceparent := []\<rparr>)) (traceparent_upgraded r) d;
          d = fold (undo_backfill restoring) (drv_content_backfilled r) d
      in fold (undo_contribution restoring build_id) (rev (contributions_recorded r)) d)"

section \<open>The whole merge\<close>

definition merge ::
  "(string set \<Rightarrow> string list) \<Rightarrow> 'u \<Rightarrow> DerivationNode list \<Rightarrow> DerivationEdge list \<Rightarrow> string
   \<Rightarrow> ('e, 'u, 'f::zero) DerivationDag \<Rightarrow> (('e, 'u, 'f) DerivationDag \<times> (DagError + ('e, 'u, 'f) MergeResult)) option" where
  "merge iter build_id ns es tp d =
     (case merge_nodes build_id tp (child_drv_path ` set es) ns d merge_log_new of
        None \<Rightarrow> None
      | Some (d, r, Some e) \<Rightarrow> Some (rollback_merge iter build_id d r, Inl e)
      | Some (d, r, None) \<Rightarrow>
          (let (d, r) = merge_edges es (d, r);
               dfs_starts = iter (newly_inserted r)
                 @ map fst (filter (\<lambda>(p, _). p \<notin> newly_inserted r) (new_edges r))
           in case any_cycle_from (get_children iter d) dfs_starts Map.empty of
                None \<Rightarrow> None
              | Some True \<Rightarrow> Some (rollback_merge iter build_id d r, Inl CycleDetected)
              | Some False \<Rightarrow> Some (d, Inr r)))"

section \<open>What a rollback computes\<close>

text \<open>The rollback seen from one node: the entries of the log that carry its hash.\<close>

definition undo_node :: "'u \<Rightarrow> ('e, 'u, 'f) MergeResult \<Rightarrow> string \<Rightarrow> ('e, 'u, 'f) DagNode \<Rightarrow> ('e, 'u, 'f) DagNode" where
  "undo_node b r h s =
     fold (\<lambda>(h', prior) s. if h' = h then s\<lparr>wanted_by_build := (wanted_by_build s)(b := prior)\<rparr> else s)
       (rev (contributions_recorded r))
       (fold (\<lambda>(h', pa) s. if h' = h then (clear_aterm s)\<lparr>drv_fetch_attempted := pa\<rparr> else s) (drv_content_backfilled r)
         (let s = (if h \<in> set (interest_added r) then s\<lparr>interested_builds := interested_builds s - {b}\<rparr> else s)
          in if h \<in> set (traceparent_upgraded r) then s\<lparr>traceparent := []\<rparr> else s))"

lemma modify_node_alt: "modify_node k g d = d\<lparr>nodes := (\<lambda>h. map_option (\<lambda>s. if k = h then g s else s) (nodes d h))\<rparr>"
proof -
  have "nodes (modify_node k g d) = (\<lambda>h. map_option (\<lambda>s. if k = h then g s else s) (nodes d h))"
    by (rule ext, rename_tac h, case_tac "nodes d h") (auto simp: modify_node_def split: option.splits)
  moreover have "modify_node k g d = d\<lparr>nodes := nodes (modify_node k g d)\<rparr>"
    by (simp add: modify_node_def split: option.splits)
  ultimately show ?thesis by simp
qed

lemma modify_fold:
  "fold (\<lambda>x. modify_node (k x) (g x)) xs d
   = d\<lparr>nodes := (\<lambda>h. map_option (fold (\<lambda>x s. if k x = h then g x s else s) xs) (nodes d h))\<rparr>"
  by (induction xs arbitrary: d) (simp_all add: modify_node_alt option.map_id0 option.map_comp comp_def)

lemma fold_reset_same:
  assumes "\<And>s. g (g s) = g s"
  shows "fold (\<lambda>x s. if x = h then g s else s) xs s = (if h \<in> set xs then g s else s)"
  using assms by (induction xs arbitrary: s) auto

lemma undo_backfill_modify:
  "undo_backfill R = (\<lambda>x. modify_node (fst x) (\<lambda>s. if fst x \<in> R then s else (clear_aterm s)\<lparr>drv_fetch_attempted := snd x\<rparr>))"
  by (auto simp: undo_backfill_def modify_node_def fun_eq_iff map_upd_triv split: option.splits)

lemma undo_contribution_modify:
  "undo_contribution R b = (\<lambda>x. modify_node (fst x) (\<lambda>s. if fst x \<in> R then s else s\<lparr>wanted_by_build := (wanted_by_build s)(b := snd x)\<rparr>))"
  by (auto simp: undo_contribution_def modify_node_def fun_eq_iff map_upd_triv split: option.splits)

lemma floors_fold:
  "fold (\<lambda>(h, fl) d. d\<lparr>resubmit_floors := (resubmit_floors d)(h \<mapsto> fl)\<rparr>) xs d
   = d\<lparr>resubmit_floors := resubmit_floors d ++ map_of (rev xs)\<rparr>"
  for d :: "('e, 'u, 'f) DerivationDag"
  by (induction xs arbitrary: d) auto

lemma restore_fold:
  "fold restore_node xs d
   = d\<lparr>path_to_hash := path_to_hash d ++ map_of (rev (map (\<lambda>(h, s). (full (drv_path s), h)) xs)),
      nodes := nodes d ++ map_of (rev xs)\<rparr>"
  by (induction xs arbitrary: d) (auto simp: restore_node_def)

lemma unlink_edges:
  "kids (unlink (p0, c0) d) p = kids d p - (if p = p0 then {c0} else {})"
  "pars (unlink (p0, c0) d) c = pars d c - (if c = c0 then {p0} else {})"
  by (auto simp: unlink_def Let_def kids_def pars_def split: option.splits)

lemma unlink_rest:
  "nodes (unlink e d) = nodes d" "path_to_hash (unlink e d) = path_to_hash d"
  "resubmit_floors (unlink e d) = resubmit_floors d" "dag_soft_features (unlink e d) = dag_soft_features d"
  by (auto simp: unlink_def Let_def split: option.splits prod.splits)

lemma unlink_fold:
  "kids (fold unlink es d) p = kids d p - {c. (p, c) \<in> set es}"
  "pars (fold unlink es d) c = pars d c - {p. (p, c) \<in> set es}"
  "nodes (fold unlink es d) = nodes d" "path_to_hash (fold unlink es d) = path_to_hash d"
  "resubmit_floors (fold unlink es d) = resubmit_floors d" "dag_soft_features (fold unlink es d) = dag_soft_features d"
  by (induction es arbitrary: d) (auto simp: unlink_edges unlink_rest split: if_splits)

lemma uninsert_one:
  "nodes (uninsert R h d) = (nodes d)(h := None)"
  "path_to_hash (uninsert R h d) = (\<lambda>p. if \<exists>s. nodes d h = Some s \<and> full (drv_path s) = p then None else path_to_hash d p)"
  "kids (uninsert R h d) p = (if p = h \<and> h \<notin> R then {} else kids d p)"
  "pars (uninsert R h d) p = (if p = h \<and> h \<notin> R then {} else pars d p)"
  "resubmit_floors (uninsert R h d) = resubmit_floors d" "dag_soft_features (uninsert R h d) = dag_soft_features d"
  by (auto simp: uninsert_def Let_def kids_def pars_def fun_eq_iff split: option.splits)

lemma uninsert_fold:
  assumes "distinct hs"
  shows "nodes (fold (uninsert R) hs d) h = (if h \<in> set hs then None else nodes d h)"
    and "path_to_hash (fold (uninsert R) hs d) p =
           (if \<exists>h\<in>set hs. \<exists>s. nodes d h = Some s \<and> full (drv_path s) = p then None else path_to_hash d p)"
    and "kids (fold (uninsert R) hs d) x = (if x \<in> set hs - R then {} else kids d x)"
    and "pars (fold (uninsert R) hs d) x = (if x \<in> set hs - R then {} else pars d x)"
    and "resubmit_floors (fold (uninsert R) hs d) = resubmit_floors d"
    and "dag_soft_features (fold (uninsert R) hs d) = dag_soft_features d"
  using assms by (induction hs arbitrary: d) (auto simp: uninsert_one)

lemma kids_cong: "children d = children d' \<Longrightarrow> kids d = kids d'"
  and pars_cong: "parents d = parents d' \<Longrightarrow> pars d = pars d'"
  by (simp_all add: kids_def pars_def fun_eq_iff)

text \<open>The graph and the log of a merge, seen as a difference to the graph before it.\<close>

definition live :: "('e, 'u, 'f) DerivationDag \<Rightarrow> (string \<times> string) set" where
  "live d = {(h, full (drv_path s)) | h s. nodes d h = Some s}"

definition saved :: "('e, 'u, 'f) MergeResult \<Rightarrow> (string \<times> string) set" where
  "saved r = {(h, full (drv_path s)) | h s. (h, s) \<in> set (removed_retriable r)}"

definition restoring :: "('e, 'u, 'f) MergeResult \<Rightarrow> string set" where
  "restoring r = fst ` set (removed_retriable r)"

definition one_to_one :: "(string \<times> string) set \<Rightarrow> bool" where
  "one_to_one P \<longleftrightarrow> (\<forall>h p h' p'. (h, p) \<in> P \<longrightarrow> (h', p') \<in> P \<longrightarrow> (h = h' \<longleftrightarrow> p = p'))"

definition undoable ::
  "'u \<Rightarrow> ('e, 'u, 'f) DerivationDag \<Rightarrow> ('e, 'u, 'f) DerivationDag \<Rightarrow> ('e, 'u, 'f) MergeResult \<Rightarrow> bool" where
  "undoable b d0 d r \<longleftrightarrow>
     finite (newly_inserted r) \<and> dag_soft_features d = dag_soft_features d0
     \<and> (\<forall>h s. (h, s) \<in> set (removed_retriable r) \<longrightarrow> nodes d0 h = Some s)
     \<and> (\<forall>h \<in> newly_inserted r - restoring r. nodes d0 h = None)
     \<and> (\<forall>h \<in> restoring r - newly_inserted r. nodes d h = None)
     \<and> (set (interest_added r) \<union> set (traceparent_upgraded r)) \<inter> restoring r = {}
     \<and> (\<forall>h. h \<notin> newly_inserted r \<longrightarrow> h \<notin> restoring r \<longrightarrow> nodes d0 h = map_option (undo_node b r h) (nodes d h))
     \<and> resubmit_floors d0 = resubmit_floors d ++ map_of (rev (floors_consumed r))
     \<and> (\<forall>p h. path_to_hash d p = Some h \<longleftrightarrow> (h, p) \<in> live d \<union> saved r)
     \<and> one_to_one (live d0 \<union> live d)
     \<and> (\<forall>p. kids d p = kids d0 p \<union> {c. (p, c) \<in> set (new_edges r)})
     \<and> (\<forall>c. pars d c = pars d0 c \<union> {p. (p, c) \<in> set (new_edges r)})
     \<and> set (new_edges r) \<inter> dag_edges d0 = {}"

text \<open>Two graphs that differ at most in edge-map entries that hold an empty set.\<close>

definition same_dag :: "('e, 'u, 'f) DerivationDag \<Rightarrow> ('e, 'u, 'f) DerivationDag \<Rightarrow> bool" where
  "same_dag d d' \<longleftrightarrow> nodes d = nodes d' \<and> kids d = kids d' \<and> pars d = pars d' \<and> path_to_hash d = path_to_hash d'
     \<and> dag_soft_features d = dag_soft_features d' \<and> resubmit_floors d = resubmit_floors d'"

lemma fold_pairs_skip: "h \<in> R \<Longrightarrow> fold (\<lambda>x s. if fst x = h then if fst x \<in> R then s else g x s else s) xs s = s"
  by (induction xs) auto

lemma fold_pairs_keep:
  "h \<notin> R \<Longrightarrow> fold (\<lambda>x s. if fst x = h then if fst x \<in> R then s else g (fst x) (snd x) s else s) xs s
    = fold (\<lambda>(h', v) s. if h' = h then g h' v s else s) xs s"
  by (induction xs arbitrary: s) auto

definition rollback_node :: "'u \<Rightarrow> ('e, 'u, 'f) MergeResult \<Rightarrow> string \<Rightarrow> ('e, 'u, 'f) DagNode \<Rightarrow> ('e, 'u, 'f) DagNode" where
  "rollback_node b r h s =
     fold (\<lambda>x s. if fst x = h then if fst x \<in> restoring r then s else s\<lparr>wanted_by_build := (wanted_by_build s)(b := snd x)\<rparr> else s)
       (rev (contributions_recorded r))
       (fold (\<lambda>x s. if fst x = h then if fst x \<in> restoring r then s else (clear_aterm s)\<lparr>drv_fetch_attempted := snd x\<rparr> else s)
         (drv_content_backfilled r)
         (let s = (if h \<in> set (interest_added r) then s\<lparr>interested_builds := interested_builds s - {b}\<rparr> else s)
          in if h \<in> set (traceparent_upgraded r) then s\<lparr>traceparent := []\<rparr> else s))"

lemma rollback_node_keep:
  assumes "h \<notin> restoring r"
  shows "rollback_node b r h s = undo_node b r h s"
  unfolding rollback_node_def undo_node_def
    fold_pairs_keep [OF assms, where g = "\<lambda>_ v s. (clear_aterm s)\<lparr>drv_fetch_attempted := v\<rparr>"]
    fold_pairs_keep [OF assms, where g = "\<lambda>_ v s. s\<lparr>wanted_by_build := (wanted_by_build s)(b := v)\<rparr>"]
  by (rule refl)

lemma rollback_node_restored:
  "h \<in> restoring r \<Longrightarrow> h \<notin> set (interest_added r) \<Longrightarrow> h \<notin> set (traceparent_upgraded r) \<Longrightarrow> rollback_node b r h s = s"
  by (simp add: rollback_node_def fold_pairs_skip)

lemma rollback_merge_fields:
  fixes d :: "('e, 'u, 'f) DerivationDag"
  defines "d1 r \<equiv> fold unlink (new_edges r) (d\<lparr>resubmit_floors := resubmit_floors d ++ map_of (rev (floors_consumed r))\<rparr>)"
  defines "d2 iter r \<equiv> fold (uninsert (restoring r)) (iter (newly_inserted r)) (d1 r)"
  shows "nodes (rollback_merge iter b d r) h
           = map_option (rollback_node b r h) ((nodes (d2 iter r) ++ map_of (rev (removed_retriable r))) h)"
    and "path_to_hash (rollback_merge iter b d r)
           = path_to_hash (d2 iter r) ++ map_of (rev (map (\<lambda>(h, s). (full (drv_path s), h)) (removed_retriable r)))"
    and "kids (rollback_merge iter b d r) = kids (d2 iter r)" "pars (rollback_merge iter b d r) = pars (d2 iter r)"
    and "dag_soft_features (rollback_merge iter b d r) = dag_soft_features (d2 iter r)"
    and "resubmit_floors (rollback_merge iter b d r) = resubmit_floors (d2 iter r)"
proof -
  let ?m = "nodes (d2 iter r) ++ map_of (rev (removed_retriable r))"
  have i: "fold (\<lambda>h s. if h = k then s\<lparr>interested_builds := interested_builds s - {b}\<rparr> else s) xs s
      = (if k \<in> set xs then s\<lparr>interested_builds := interested_builds s - {b}\<rparr> else s)" for k xs and s :: "('e, 'u, 'f) DagNode"
    using fold_reset_same [of "\<lambda>s. s\<lparr>interested_builds := interested_builds s - {b}\<rparr>" k xs s] by simp
  have t: "fold (\<lambda>h s. if h = k then s\<lparr>traceparent := []\<rparr> else s) xs s
      = (if k \<in> set xs then s\<lparr>traceparent := []\<rparr> else s)" for k xs and s :: "('e, 'u, 'f) DagNode"
    using fold_reset_same [of "\<lambda>s. s\<lparr>traceparent := []\<rparr>" k xs s] by simp
  have r: "rollback_merge iter b d r = (d2 iter r)\<lparr>
      path_to_hash := path_to_hash (d2 iter r) ++ map_of (rev (map (\<lambda>(h, s). (full (drv_path s), h)) (removed_retriable r))),
      nodes := (\<lambda>h. map_option (rollback_node b r h) (?m h))\<rparr>"
    unfolding rollback_merge_def Let_def floors_fold undo_backfill_modify undo_contribution_modify modify_fold restore_fold
    unfolding d2_def d1_def restoring_def [symmetric] rollback_node_def Let_def
    by (simp add: option.map_comp comp_def i t)
  show "nodes (rollback_merge iter b d r) h = map_option (rollback_node b r h) (?m h)" by (simp add: r)
  show "path_to_hash (rollback_merge iter b d r)
           = path_to_hash (d2 iter r) ++ map_of (rev (map (\<lambda>(h, s). (full (drv_path s), h)) (removed_retriable r)))"
    "kids (rollback_merge iter b d r) = kids (d2 iter r)" "pars (rollback_merge iter b d r) = pars (d2 iter r)"
    "dag_soft_features (rollback_merge iter b d r) = dag_soft_features (d2 iter r)"
    "resubmit_floors (rollback_merge iter b d r) = resubmit_floors (d2 iter r)"
    unfolding r by (simp_all cong: kids_cong pars_cong add: kids_def pars_def fun_eq_iff)
qed

lemma undo_node_keeps [simp]:
  "drv_path (undo_node b r h s) = drv_path s" "machine (undo_node b r h s) = machine s"
proof -
  have "drv_path (fold (\<lambda>(h', prior) s. if h' = h then s\<lparr>wanted_by_build := (wanted_by_build s)(b := prior)\<rparr> else s) xs s) = drv_path s
      \<and> machine (fold (\<lambda>(h', prior) s. if h' = h then s\<lparr>wanted_by_build := (wanted_by_build s)(b := prior)\<rparr> else s) xs s) = machine s"
    for xs and s :: "('a, 'b, 'c) DagNode" by (induction xs arbitrary: s) auto
  moreover have "drv_path (fold (\<lambda>(h', pa) s. if h' = h then (clear_aterm s)\<lparr>drv_fetch_attempted := pa\<rparr> else s) xs s) = drv_path s
      \<and> machine (fold (\<lambda>(h', pa) s. if h' = h then (clear_aterm s)\<lparr>drv_fetch_attempted := pa\<rparr> else s) xs s) = machine s"
    for xs and s :: "('a, 'b, 'c) DagNode" by (induction xs arbitrary: s) (auto simp: clear_aterm_def)
  ultimately show "drv_path (undo_node b r h s) = drv_path s" "machine (undo_node b r h s) = machine s"
    by (simp_all add: undo_node_def)
qed

lemma undoable_saved: "undoable b d0 d r \<Longrightarrow> (h, s) \<in> set (removed_retriable r) \<Longrightarrow> nodes d0 h = Some s"
  by (simp add: undoable_def)

lemma saved_nodes:
  assumes "undoable b d0 d r"
  shows "map_of (rev (removed_retriable r)) h = (if h \<in> restoring r then nodes d0 h else None)"
proof (cases "map_of (rev (removed_retriable r)) h")
  case None
  thus ?thesis by (auto simp: restoring_def map_of_eq_None_iff)
next
  case (Some s)
  hence m: "(h, s) \<in> set (removed_retriable r)" by (auto dest: map_of_SomeD)
  hence "h \<in> restoring r" unfolding restoring_def by (rule rev_image_eqI) simp
  thus ?thesis using undoable_saved [OF assms m] Some by simp
qed

lemma saved_live: "undoable b d0 d r \<Longrightarrow> (h, p) \<in> saved r \<longleftrightarrow> h \<in> restoring r \<and> (h, p) \<in> live d0"
  using undoable_saved [of b d0 d r] by (force simp: saved_def live_def restoring_def)

lemma saved_paths:
  assumes "undoable b d0 d r"
  shows "map_of (rev (map (\<lambda>(h, s). (full (drv_path s), h)) (removed_retriable r))) p = Some h \<longleftrightarrow> (h, p) \<in> saved r"
    (is "map_of ?xs p = Some h \<longleftrightarrow> _")
proof
  assume "map_of ?xs p = Some h"
  hence "(p, h) \<in> set ?xs" by (rule map_of_SomeD)
  thus "(h, p) \<in> saved r" by (auto simp: saved_def)
next
  assume s: "(h, p) \<in> saved r"
  hence "(p, h) \<in> set ?xs" by (force simp: saved_def)
  hence "p \<in> fst ` set ?xs" by force
  then obtain h' where h': "map_of ?xs p = Some h'" by (metis map_of_eq_None_iff not_None_eq)
  hence "(p, h') \<in> set ?xs" by (rule map_of_SomeD)
  hence "(h', p) \<in> saved r" by (auto simp: saved_def)
  hence "h' = h" using s assms saved_live [OF assms] unfolding undoable_def one_to_one_def by blast
  thus "map_of ?xs p = Some h" using h' by simp
qed

lemma live_untouched:
  assumes "undoable b d0 d r" "h \<notin> newly_inserted r" "h \<notin> restoring r"
  shows "(h, p) \<in> live d \<longleftrightarrow> (h, p) \<in> live d0"
proof -
  have "nodes d0 h = map_option (undo_node b r h) (nodes d h)" using assms by (simp add: undoable_def)
  thus ?thesis by (cases "nodes d h") (auto simp: live_def)
qed

lemma path_eqI: "(\<And>h. (x = Some h) = (y = Some h)) \<Longrightarrow> x = y"
  by (cases x; cases y) auto

lemma rollback_paths:
  assumes u: "undoable b d0 d r" and wf: "dag_wf d0" and iter: "hash_order iter"
  shows "path_to_hash (rollback_merge iter b d r) p = path_to_hash d0 p"
proof (rule path_eqI)
  fix h
  have "finite (newly_inserted r)" using u by (simp add: undoable_def)
  note it = hash_orderD [OF iter this]
  let ?new = "\<exists>h\<in>newly_inserted r. (h, p) \<in> live d"
  have one: "(h, p) \<in> live d0 \<union> live d \<Longrightarrow> (h', p') \<in> live d0 \<union> live d \<Longrightarrow> h = h' \<longleftrightarrow> p = p'" for h p h' p'
    using u unfolding undoable_def one_to_one_def by blast
  have ix: "path_to_hash d p = Some h \<longleftrightarrow> (h, p) \<in> live d \<union> saved r" for h using u by (simp add: undoable_def)
  have d0: "path_to_hash d0 p = Some h \<longleftrightarrow> (h, p) \<in> live d0" for h
    using wf by (auto simp: dag_wf_def path_index_exact_def live_def)
  have mid: "path_to_hash (rollback_merge iter b d r) p = Some h \<longleftrightarrow>
      (h, p) \<in> saved r \<or> (\<forall>h. (h, p) \<notin> saved r) \<and> \<not> ?new \<and> path_to_hash d p = Some h"
  proof -
    have new: "?new = (\<exists>h\<in>set (iter (newly_inserted r)). \<exists>s. nodes d h = Some s \<and> full (drv_path s) = p)"
      by (auto simp: it(1) live_def)
    show ?thesis
      unfolding rollback_merge_fields(2) uninsert_fold(2) [OF it(2)] unlink_fold map_add_Some_iff saved_paths [OF u] new
      using saved_paths [OF u, of p]
      by (cases "map_of (rev (map (\<lambda>(h, s). (full (drv_path s), h)) (removed_retriable r))) p") auto
  qed
  have "(h, p) \<in> live d0" if "(h, p) \<in> saved r" using that saved_live [OF u] by blast
  moreover have "(h, p) \<in> saved r" if "(h, p) \<in> live d0" "(h', p) \<in> saved r" for h'
  proof -
    have "h' \<in> restoring r" "(h', p) \<in> live d0" using that(2) saved_live [OF u] by blast+
    moreover from this that(1) one have "h = h'" by blast
    ultimately show ?thesis using that(2) by simp
  qed
  moreover have "path_to_hash d p = Some h \<and> \<not> ?new" if h: "(h, p) \<in> live d0" "\<forall>h. (h, p) \<notin> saved r"
  proof -
    have r: "h \<notin> restoring r" using h saved_live [OF u] by blast
    have "h \<notin> newly_inserted r"
    proof
      assume "h \<in> newly_inserted r"
      hence "nodes d0 h = None" using r u by (simp add: undoable_def)
      thus False using h(1) by (auto simp: live_def)
    qed
    hence "(h, p) \<in> live d" "h \<notin> newly_inserted r" using live_untouched [OF u] r h(1) by auto
    thus ?thesis using ix [of h] one by blast
  qed
  moreover have "(h, p) \<in> live d0" if h: "path_to_hash d p = Some h" "\<not> ?new" "\<forall>h. (h, p) \<notin> saved r"
  proof -
    have l: "(h, p) \<in> live d" using h(1,3) ix by blast
    hence n: "h \<notin> newly_inserted r" using h(2) by blast
    have "h \<notin> restoring r"
    proof
      assume "h \<in> restoring r"
      hence "nodes d h = None" using n u by (simp add: undoable_def)
      thus False using l by (auto simp: live_def)
    qed
    thus ?thesis using live_untouched [OF u n] l by simp
  qed
  ultimately show "(path_to_hash (rollback_merge iter b d r) p = Some h) = (path_to_hash d0 p = Some h)"
    unfolding mid d0 by blast
qed

lemma rollback_restores:
  assumes u: "undoable b d0 d r" and wf: "dag_wf d0" and iter: "hash_order iter"
  shows "same_dag (rollback_merge iter b d r) d0"
proof -
  have "finite (newly_inserted r)" using u by (simp add: undoable_def)
  note it = hash_orderD [OF iter this]
  have "nodes (rollback_merge iter b d r) h = nodes d0 h" for h
  proof (cases "h \<in> restoring r")
    case True
    hence "h \<notin> set (interest_added r)" "h \<notin> set (traceparent_upgraded r)" using u by (auto simp: undoable_def)
    with True obtain s where "nodes d0 h = Some s" using undoable_saved [OF u] by (auto simp: restoring_def)
    thus ?thesis
      using True rollback_node_restored [OF True \<open>h \<notin> set (interest_added r)\<close> \<open>h \<notin> set (traceparent_upgraded r)\<close>]
      by (simp add: rollback_merge_fields(1) map_add_def saved_nodes [OF u])
  next
    case False
    note n = uninsert_fold(1) [OF it(2)] it(1) unlink_fold(3)
    show ?thesis
    proof (cases "h \<in> newly_inserted r")
      case True
      thus ?thesis using False u by (simp add: rollback_merge_fields(1) map_add_def saved_nodes [OF u] n undoable_def)
    next
      case new: False
      hence "nodes d0 h = map_option (undo_node b r h) (nodes d h)" using False u by (simp add: undoable_def)
      thus ?thesis using False new
        by (simp add: rollback_merge_fields(1) map_add_def saved_nodes [OF u] n rollback_node_keep [OF False] cong: option.map_cong)
    qed
  qed
  moreover have "kids (rollback_merge iter b d r) p = kids d0 p" for p
  proof -
    have k: "kids (d\<lparr>resubmit_floors := x\<rparr>) = kids d" for x by (rule kids_cong) simp
    have "kids d0 p = {}" if "p \<in> newly_inserted r - restoring r"
      using that u wf unfolding undoable_def dag_wf_def edges_in_def by fastforce
    thus ?thesis
      using u by (auto simp: rollback_merge_fields(3) uninsert_fold(3) [OF it(2)] it(1) unlink_fold(1) k undoable_def dag_edges_def)
  qed
  moreover have "pars (rollback_merge iter b d r) c = pars d0 c" for c
  proof -
    have k: "pars (d\<lparr>resubmit_floors := x\<rparr>) = pars d" for x by (rule pars_cong) simp
    have m: "p \<in> pars d0 c \<longleftrightarrow> (p, c) \<in> dag_edges d0" for p c using wf by (auto simp: dag_wf_def mirrored_def dag_edges_def)
    have "pars d0 c = {}" if "c \<in> newly_inserted r - restoring r"
      using that u wf unfolding undoable_def dag_wf_def edges_in_def mirrored_def by fastforce
    thus ?thesis
      using u by (auto simp: rollback_merge_fields(4) uninsert_fold(4) [OF it(2)] it(1) unlink_fold(2) k undoable_def m)
  qed
  ultimately show ?thesis
    using u rollback_paths [OF u wf iter]
    by (simp add: same_dag_def fun_eq_iff rollback_merge_fields(5,6) uninsert_fold(5,6) [OF it(2)] unlink_fold undoable_def)
qed

section \<open>The loop over the submitted nodes\<close>

definition undo_wanted :: "'u \<Rightarrow> string \<Rightarrow> (string \<times> string list option) list \<Rightarrow> ('u \<rightharpoonup> string list) \<Rightarrow> ('u \<rightharpoonup> string list)" where
  "undo_wanted b h xs w = fold (\<lambda>(h', prior) w. if h' = h then w(b := prior) else w) (rev xs) w"

definition backfills :: "string \<Rightarrow> (string \<times> bool) list \<Rightarrow> bool list" where
  "backfills h xs = map snd (filter (\<lambda>x. fst x = h) xs)"

lemma undo_node_record:
  "undo_node b r h s = s\<lparr>
     interested_builds := (if h \<in> set (interest_added r) then interested_builds s - {b} else interested_builds s),
     traceparent := (if h \<in> set (traceparent_upgraded r) then [] else traceparent s),
     drv_content := (if backfills h (drv_content_backfilled r) = [] then drv_content s else []),
     drv_input_srcs := (if backfills h (drv_content_backfilled r) = [] then drv_input_srcs s else []),
     drv_fetch_attempted := (if backfills h (drv_content_backfilled r) = [] then drv_fetch_attempted s
                             else last (backfills h (drv_content_backfilled r))),
     wanted_by_build := undo_wanted b h (contributions_recorded r) (wanted_by_build s)\<rparr>"
proof -
  have B: "fold (\<lambda>(h', pa) s. if h' = h then (clear_aterm s)\<lparr>drv_fetch_attempted := pa\<rparr> else s) xs s
      = s\<lparr>drv_content := (if backfills h xs = [] then drv_content s else []),
          drv_input_srcs := (if backfills h xs = [] then drv_input_srcs s else []),
          drv_fetch_attempted := (if backfills h xs = [] then drv_fetch_attempted s else last (backfills h xs))\<rparr>"
    for xs and s :: "('a, 'b, 'c) DagNode"
    by (induction xs arbitrary: s) (auto simp: backfills_def clear_aterm_def)
  have C: "fold (\<lambda>(h', prior) s. if h' = h then s\<lparr>wanted_by_build := (wanted_by_build s)(b := prior)\<rparr> else s) xs s
      = s\<lparr>wanted_by_build := fold (\<lambda>(h', prior) w. if h' = h then w(b := prior) else w) xs (wanted_by_build s)\<rparr>"
    for xs and s :: "('a, 'b, 'c) DagNode"
    by (induction xs arbitrary: s) auto
  show ?thesis by (simp add: undo_node_def B C undo_wanted_def Let_def)
qed

text \<open>What the branch for an existing node does to the node and to the log.\<close>

definition backfill_fires :: "DerivationNode \<Rightarrow> ('e, 'u, 'f) DagNode \<Rightarrow> bool" where
  "backfill_fires node s \<longleftrightarrow>
     drv_content s = [] \<and> nd_drv_content node \<noteq> [] \<and> parse_input_srcs (nd_drv_content node) \<noteq> None"

lemma merge_interest_eq:
  "merge_interest b h (s, r) =
     (s\<lparr>interested_builds := insert b (interested_builds s)\<rparr>,
      r\<lparr>interest_added := interest_added r @ (if b \<in> interested_builds s then [] else [h])\<rparr>)"
  by (simp add: merge_interest_def)

lemma merge_backfill_eq:
  "merge_backfill (nd_drv_content node) h (s, r) =
     (s\<lparr>drv_content := (if backfill_fires node s then nd_drv_content node else drv_content s),
        drv_input_srcs := (if backfill_fires node s then the (parse_input_srcs (nd_drv_content node)) else drv_input_srcs s),
        drv_fetch_attempted := (if backfill_fires node s then False else drv_fetch_attempted s)\<rparr>,
      r\<lparr>drv_content_backfilled := drv_content_backfilled r @ (if backfill_fires node s then [(h, drv_fetch_attempted s)] else [])\<rparr>)"
proof (cases "backfill_fires node s")
  case True
  then obtain srcs where srcs: "parse_input_srcs (nd_drv_content node) = Some srcs" by (auto simp: backfill_fires_def)
  have "drv_content s = [] \<and> nd_drv_content node \<noteq> []" using True by (simp add: backfill_fires_def)
  hence "merge_backfill (nd_drv_content node) h (s, r) =
     (s\<lparr>drv_content := nd_drv_content node, drv_input_srcs := srcs, drv_fetch_attempted := False\<rparr>,
      r\<lparr>drv_content_backfilled := drv_content_backfilled r @ [(h, drv_fetch_attempted s)]\<rparr>)"
    by (simp add: merge_backfill_def rehydrate_from_aterm_def srcs)
  with True show ?thesis by (simp only: if_True srcs option.sel)
next
  case False
  hence "merge_backfill (nd_drv_content node) h (s, r) = (s, r)"
    by (cases "parse_input_srcs (nd_drv_content node)") (auto simp: merge_backfill_def backfill_fires_def rehydrate_from_aterm_def)
  with False show ?thesis by (simp only: if_False append_Nil2) simp
qed

lemma merge_trace_eq:
  "merge_trace tp h (s, r) =
     (s\<lparr>traceparent := (if traceparent s = [] then tp else traceparent s)\<rparr>,
      r\<lparr>traceparent_upgraded := traceparent_upgraded r @ (if traceparent s = [] \<and> tp \<noteq> [] then [h] else [])\<rparr>)"
  by (auto simp: merge_trace_def)

definition grown :: "string list option \<Rightarrow> string list \<Rightarrow> string list" where
  "grown prior wanted = (case prior of Some w \<Rightarrow> union_wanted_saturating w wanted | None \<Rightarrow> wanted)"

lemma merge_existing_eq:
  "merge_existing b tp node h (s, r) =
     (s\<lparr>interested_builds := insert b (interested_builds s),
        drv_content := (if backfill_fires node s then nd_drv_content node else drv_content s),
        drv_input_srcs := (if backfill_fires node s then the (parse_input_srcs (nd_drv_content node)) else drv_input_srcs s),
        drv_fetch_attempted := (if backfill_fires node s then False else drv_fetch_attempted s),
        wanted_by_build := (wanted_by_build s)(b \<mapsto> grown (wanted_by_build s b) (nd_wanted_output_names node)),
        traceparent := (if traceparent s = [] then tp else traceparent s)\<rparr>,
      r\<lparr>interest_added := interest_added r @ (if b \<in> interested_builds s then [] else [h]),
        drv_content_backfilled := drv_content_backfilled r @ (if backfill_fires node s then [(h, drv_fetch_attempted s)] else []),
        contributions_recorded := contributions_recorded r @ [(h, wanted_by_build s b)],
        traceparent_upgraded := traceparent_upgraded r @ (if traceparent s = [] \<and> tp \<noteq> [] then [h] else [])\<rparr>)"
proof -
  have "backfill_fires node (s\<lparr>interested_builds := insert b (interested_builds s)\<rparr>) = backfill_fires node s"
    by (simp add: backfill_fires_def)
  thus ?thesis
    by (simp add: merge_existing_def merge_interest_eq merge_backfill_eq merge_trace_eq merge_contribution_def Let_def
        grown_def del: if_split)
qed

lemma merge_existing_undo:
  assumes m: "merge_existing b tp node h (s, r) = (s', r')"
    and n: "drv_content s \<noteq> [] \<or> drv_input_srcs s = []"
    and bf: "backfills h (drv_content_backfilled r) = [] \<or> drv_content s \<noteq> []"
  shows "undo_node b r' h s' = undo_node b r h s"
proof -
  have s': "s' = fst (merge_existing b tp node h (s, r))" and r': "r' = snd (merge_existing b tp node h (s, r))"
    using m by simp_all
  note sr = s' r' merge_existing_eq fst_conv snd_conv
  have f: "backfill_fires node s \<Longrightarrow> drv_content s = []" by (simp add: backfill_fires_def)
  have bs: "backfills h (drv_content_backfilled r') =
      backfills h (drv_content_backfilled r) @ (if backfill_fires node s then [drv_fetch_attempted s] else [])"
    by (simp add: sr backfills_def)
  have "(if h \<in> set (interest_added r') then interested_builds s' - {b} else interested_builds s')
      = (if h \<in> set (interest_added r) then interested_builds s - {b} else interested_builds s)"
    by (auto simp: sr)
  moreover have "(if h \<in> set (traceparent_upgraded r') then [] else traceparent s')
      = (if h \<in> set (traceparent_upgraded r) then [] else traceparent s)"
    by (auto simp: sr)
  moreover have "(if backfills h (drv_content_backfilled r') = [] then drv_content s' else [])
      = (if backfills h (drv_content_backfilled r) = [] then drv_content s else [])"
    using f by (auto simp: bs) (simp_all add: sr)
  moreover have "(if backfills h (drv_content_backfilled r') = [] then drv_input_srcs s' else [])
      = (if backfills h (drv_content_backfilled r) = [] then drv_input_srcs s else [])"
    using f n by (auto simp: bs) (simp_all add: sr)
  moreover have "(if backfills h (drv_content_backfilled r') = [] then drv_fetch_attempted s'
        else last (backfills h (drv_content_backfilled r')))
      = (if backfills h (drv_content_backfilled r) = [] then drv_fetch_attempted s
        else last (backfills h (drv_content_backfilled r)))"
    using f bf by (auto simp: bs) (simp_all add: sr)
  moreover have "undo_wanted b h (contributions_recorded r') (wanted_by_build s')
      = undo_wanted b h (contributions_recorded r) (wanted_by_build s)"
    by (simp add: sr undo_wanted_def)
  ultimately show ?thesis unfolding undo_node_record by (simp only: simp_thms) (simp add: sr del: if_split)
qed

lemma merge_existing_undo_other:
  assumes m: "merge_existing b tp node h (s, r) = (s', r')" and "h' \<noteq> h"
  shows "undo_node b r' h' = undo_node b r h'"
proof -
  have r': "r' = snd (merge_existing b tp node h (s, r))" using m by simp
  have "undo_wanted b h' (contributions_recorded r @ [(h, x)]) = undo_wanted b h' (contributions_recorded r)" for x
    unfolding undo_wanted_def using assms(2) by (simp add: fun_eq_iff)
  moreover have "backfills h' (drv_content_backfilled r @ (if c then [(h, x)] else [])) = backfills h' (drv_content_backfilled r)" for c x
    unfolding backfills_def using assms(2) by simp
  ultimately show ?thesis using assms(2) by (simp add: fun_eq_iff undo_node_record r' merge_existing_eq)
qed

text \<open>What inserting a fresh node does.\<close>

lemma parse_input_srcs_empty: "parse_input_srcs [] = None"
  by (simp add: parse_input_srcs_def bytes_text_def drv_parse_def parse_derivation_def expect_def and_then_def
      starts_with_def)

lemma try_from_node_ok:
  assumes "try_from_node node = Some (Inr s)"
  shows "full (drv_path s) = nd_drv_path node" "machine s = fresh_machine" "interested_builds s = {}"
    "wanted_by_build s = Map.empty" "node_ok (nd_drv_hash node) s"
proof -
  obtain sp where sp: "parse (nd_drv_path node) = Some (Inr sp)"
    using assms by (auto simp: try_from_node_def split: option.splits sum.splits)
  note s = assms [unfolded try_from_node_def sp, simplified, symmetric]
  show "full (drv_path s) = nd_drv_path node" using parse_Some [OF sp] by (simp add: s)
  show "machine s = fresh_machine" "interested_builds s = {}" "wanted_by_build s = Map.empty" by (simp_all add: s)
  show "node_ok (nd_drv_hash node) s"
    by (cases "nd_drv_content node = []") (simp_all add: s node_ok_def parse_input_srcs_empty)
qed

lemma apply_soft_features_keeps:
  "drv_path (apply_soft_features d s) = drv_path s" "machine (apply_soft_features d s) = machine s"
  "interested_builds (apply_soft_features d s) = interested_builds s"
  "wanted_by_build (apply_soft_features d s) = wanted_by_build s"
  "node_ok h s \<Longrightarrow> node_ok h (apply_soft_features d s)"
  by (simp_all add: apply_soft_features_def Let_def set_soft_features_def set_required_features_def node_ok_def)

definition seed_cycles :: "('e, 'u, 'f) DerivationDag \<Rightarrow> string \<Rightarrow> ('e, 'u, 'f) DagNode option \<Rightarrow> u32 \<Rightarrow> u32" where
  "seed_cycles d h prior fresh =
     (case prior of Some old \<Rightarrow> resubmit_cycles (machine old) + 1
      | None \<Rightarrow> (case resubmit_floors d h of Some fl \<Rightarrow> fl | None \<Rightarrow> fresh))"

lemma merge_fresh_dag:
  assumes m: "merge_fresh b tp node h prior s d r = (d', r')" and ok: "node_ok h s" and i: "interested_builds s = {}"
  obtains n where "nodes d' = (nodes d)(h \<mapsto> n)" "path_to_hash d' = (path_to_hash d)(full (drv_path s) \<mapsto> h)"
    "drv_path n = drv_path s" "node_ok h n" "traceparent n = tp"
    "machine n = (machine s)\<lparr>resubmit_cycles := seed_cycles d h prior (resubmit_cycles (machine s))\<rparr>"
    "interested_builds n = insert b (case prior of None \<Rightarrow> {} | Some old \<Rightarrow> interested_builds old)"
    "children d' = children d" "parents d' = parents d" "dag_soft_features d' = dag_soft_features d"
proof -
  have d: "d' = fst (merge_fresh b tp node h prior s d r)" using m by simp
  note f = d merge_fresh_def Let_def apply_soft_features_keeps node_ok_def seed_cycles_def i
  have ok': "node_ok h (apply_soft_features d s)" by (rule apply_soft_features_keeps(5) [OF ok])
  show ?thesis
  proof (rule that [of "the (nodes d' h)"])
    show "node_ok h (the (nodes d' h))"
      using ok' by (simp add: f split: option.splits)
    show "machine (the (nodes d' h)) = (machine s)\<lparr>resubmit_cycles := seed_cycles d h prior (resubmit_cycles (machine s))\<rparr>"
      by (simp add: f split: option.splits)
  qed (simp_all add: f split: option.splits)
qed

lemma merge_fresh_log:
  assumes "merge_fresh b tp node h prior s d r = (d', r')"
  shows "newly_inserted r' = insert h (newly_inserted r)" "removed_retriable r' = removed_retriable r"
    "new_edges r' = new_edges r" "interest_added r' = interest_added r" "traceparent_upgraded r' = traceparent_upgraded r"
    "contributions_recorded r' = contributions_recorded r" "drv_content_backfilled r' = drv_content_backfilled r"
    "prior = None \<Longrightarrow> resubmit_floors d h = Some fl \<Longrightarrow> floors_consumed r' = floors_consumed r @ [(h, fl)]
       \<and> resubmit_floors d' = (resubmit_floors d)(h := None)"
    "prior \<noteq> None \<or> resubmit_floors d h = None \<Longrightarrow> floors_consumed r' = floors_consumed r
       \<and> resubmit_floors d' = resubmit_floors d"
  using assms by (auto simp: merge_fresh_def Let_def split: option.splits)

end
