(* ===== verification/Sched_MergeOk.thy ===== *)
theory Sched_MergeOk
  imports Sched_Merge
begin

section \<open>The loop invariant\<close>

lemma one_to_oneD: "one_to_one P \<Longrightarrow> (h, p) \<in> P \<Longrightarrow> (h', p') \<in> P \<Longrightarrow> h = h' \<longleftrightarrow> p = p'"
  unfolding one_to_one_def by blast

lemma one_to_one_subset: "one_to_one P \<Longrightarrow> Q \<subseteq> P \<Longrightarrow> one_to_one Q"
  using one_to_oneD [of P] unfolding one_to_one_def [of Q] by blast

lemma undoableI:
  assumes "finite (newly_inserted r)"
    "dag_soft_features d = dag_soft_features d0"
    "(\<forall>h s. (h, s) \<in> set (removed_retriable r) \<longrightarrow> nodes d0 h = Some s)"
    "(\<forall>h \<in> newly_inserted r - restoring r. nodes d0 h = None)"
    "(\<forall>h \<in> restoring r - newly_inserted r. nodes d h = None)"
    "(set (interest_added r) \<union> set (traceparent_upgraded r)) \<inter> restoring r = {}"
    "(\<forall>h. h \<notin> newly_inserted r \<longrightarrow> h \<notin> restoring r \<longrightarrow> nodes d0 h = map_option (undo_node b r h) (nodes d h))"
    "resubmit_floors d0 = resubmit_floors d ++ map_of (rev (floors_consumed r))"
    "(\<forall>p h. path_to_hash d p = Some h \<longleftrightarrow> (h, p) \<in> live d \<union> saved r)"
    "one_to_one (live d0 \<union> live d)"
    "(\<forall>p. kids d p = kids d0 p \<union> {c. (p, c) \<in> set (new_edges r)})"
    "(\<forall>c. pars d c = pars d0 c \<union> {p. (p, c) \<in> set (new_edges r)})"
    "set (new_edges r) \<inter> dag_edges d0 = {}"
  shows "undoable b d0 d r"
  unfolding undoable_def using assms by (intro conjI) assumption+

lemma undoable_parts:
  assumes "undoable b d0 d r"
  shows "finite (newly_inserted r)"
    "dag_soft_features d = dag_soft_features d0"
    "(\<forall>h s. (h, s) \<in> set (removed_retriable r) \<longrightarrow> nodes d0 h = Some s)"
    "(\<forall>h \<in> newly_inserted r - restoring r. nodes d0 h = None)"
    "(\<forall>h \<in> restoring r - newly_inserted r. nodes d h = None)"
    "(set (interest_added r) \<union> set (traceparent_upgraded r)) \<inter> restoring r = {}"
    "(\<forall>h. h \<notin> newly_inserted r \<longrightarrow> h \<notin> restoring r \<longrightarrow> nodes d0 h = map_option (undo_node b r h) (nodes d h))"
    "resubmit_floors d0 = resubmit_floors d ++ map_of (rev (floors_consumed r))"
    "(\<forall>p h. path_to_hash d p = Some h \<longleftrightarrow> (h, p) \<in> live d \<union> saved r)"
    "one_to_one (live d0 \<union> live d)"
    "(\<forall>p. kids d p = kids d0 p \<union> {c. (p, c) \<in> set (new_edges r)})"
    "(\<forall>c. pars d c = pars d0 c \<union> {p. (p, c) \<in> set (new_edges r)})"
    "set (new_edges r) \<inter> dag_edges d0 = {}"
  using assms unfolding undoable_def by - (elim conjE, assumption)+

lemmas undoableD = undoable_parts [rule_format]

lemma undo_node_cong:
  "interest_added r' = interest_added r \<Longrightarrow> traceparent_upgraded r' = traceparent_upgraded r \<Longrightarrow>
   contributions_recorded r' = contributions_recorded r \<Longrightarrow> drv_content_backfilled r' = drv_content_backfilled r \<Longrightarrow>
   undo_node b r' = undo_node b r"
  by (simp add: fun_eq_iff undo_node_record)

lemma undo_node_unlogged:
  assumes "h \<notin> set (interest_added r)" "h \<notin> set (traceparent_upgraded r)" "h \<notin> fst ` set (contributions_recorded r)"
    "backfills h (drv_content_backfilled r) = []"
  shows "undo_node b r h s = s"
proof -
  have "fold (\<lambda>(h', prior) w. if h' = h then w(b := prior) else w) xs w = w" if "h \<notin> fst ` set xs" for xs w
    using that by (induction xs) (auto simp: image_iff)
  from this [of "rev (contributions_recorded r)"]
  have "undo_wanted b h (contributions_recorded r) w = w" for w using assms(3) by (simp add: undo_wanted_def)
  thus ?thesis using assms by (simp add: undo_node_record)
qed

text \<open>The machine a submission leaves at a node, from the graph before it.\<close>

definition merged_machine ::
  "string set \<Rightarrow> ('e, 'u, 'f) DerivationDag \<Rightarrow> string \<Rightarrow> string \<Rightarrow> ('e, 'u) DerivationState" where
  "merged_machine sub d0 h p =
     (case nodes d0 h of
        None \<Rightarrow> fresh_machine\<lparr>resubmit_cycles := (case resubmit_floors d0 h of None \<Rightarrow> 0 | Some fl \<Rightarrow> fl)\<rparr>
      | Some s0 \<Rightarrow> if mints_epoch_on_resubmit (machine s0) (p \<notin> sub)
                   then fresh_machine\<lparr>resubmit_cycles := resubmit_cycles (machine s0) + 1\<rparr> else machine s0)"

definition prior_interest :: "('e, 'u, 'f) DerivationDag \<Rightarrow> string \<Rightarrow> 'u set" where
  "prior_interest d0 h = (case nodes d0 h of None \<Rightarrow> {} | Some s0 \<Rightarrow> interested_builds s0)"

definition merge_inv ::
  "'u \<Rightarrow> string \<Rightarrow> string set \<Rightarrow> (string \<times> string) set \<Rightarrow> ('e, 'u, 'f) DerivationDag \<Rightarrow> ('e, 'u, 'f) DerivationDag
   \<Rightarrow> ('e, 'u, 'f) MergeResult \<Rightarrow> bool" where
  "merge_inv b tp sub P d0 d r \<longleftrightarrow>
     undoable b d0 d r \<and> finite (dom (nodes d)) \<and> restoring r \<subseteq> newly_inserted r \<and> new_edges r = []
     \<and> (\<forall>h s. nodes d h = Some s \<longrightarrow> node_ok h s) \<and> live d \<subseteq> P
     \<and> (\<forall>h\<in>newly_inserted r. \<exists>s. nodes d h = Some s \<and> traceparent s = tp
          \<and> machine s = merged_machine sub d0 h (full (drv_path s)) \<and> interested_builds s = insert b (prior_interest d0 h))
     \<and> set (interest_added r) \<union> set (traceparent_upgraded r) \<subseteq> fst ` set (contributions_recorded r) - newly_inserted r
     \<and> (\<forall>h\<in>fst ` set (contributions_recorded r) - newly_inserted r. \<exists>s. nodes d h = Some s
          \<and> b \<in> interested_builds s \<and> \<not> mints_epoch_on_resubmit (machine s) (full (drv_path s) \<notin> sub))
     \<and> (\<forall>h s. nodes d h = Some s \<longrightarrow> h \<notin> newly_inserted r \<longrightarrow> backfills h (drv_content_backfilled r) = [] \<or> drv_content s \<noteq> [])
     \<and> (\<forall>h. h \<notin> fst ` set (contributions_recorded r) \<longrightarrow> backfills h (drv_content_backfilled r) = [])
     \<and> fst ` set (floors_consumed r) \<inter> dom (resubmit_floors d) = {}
     \<and> fst ` set (floors_consumed r) \<subseteq> newly_inserted r"

lemma merge_inv_parts:
  assumes "merge_inv b tp sub P d0 d r"
  shows "undoable b d0 d r"
    "finite (dom (nodes d))"
    "restoring r \<subseteq> newly_inserted r"
    "new_edges r = []"
    "(\<forall>h s. nodes d h = Some s \<longrightarrow> node_ok h s)"
    "live d \<subseteq> P"
    "(\<forall>h\<in>newly_inserted r. \<exists>s. nodes d h = Some s \<and> traceparent s = tp
          \<and> machine s = merged_machine sub d0 h (full (drv_path s)) \<and> interested_builds s = insert b (prior_interest d0 h))"
    "set (interest_added r) \<union> set (traceparent_upgraded r) \<subseteq> fst ` set (contributions_recorded r) - newly_inserted r"
    "(\<forall>h\<in>fst ` set (contributions_recorded r) - newly_inserted r. \<exists>s. nodes d h = Some s
          \<and> b \<in> interested_builds s \<and> \<not> mints_epoch_on_resubmit (machine s) (full (drv_path s) \<notin> sub))"
    "(\<forall>h s. nodes d h = Some s \<longrightarrow> h \<notin> newly_inserted r \<longrightarrow> backfills h (drv_content_backfilled r) = [] \<or> drv_content s \<noteq> [])"
    "(\<forall>h. h \<notin> fst ` set (contributions_recorded r) \<longrightarrow> backfills h (drv_content_backfilled r) = [])"
    "fst ` set (floors_consumed r) \<inter> dom (resubmit_floors d) = {}"
    "fst ` set (floors_consumed r) \<subseteq> newly_inserted r"
  using assms unfolding merge_inv_def by - (elim conjE, assumption)+

lemmas merge_invD = merge_inv_parts [rule_format]

lemma live_iff: "(h, p) \<in> live d \<longleftrightarrow> (\<exists>s. nodes d h = Some s \<and> full (drv_path s) = p)"
  by (auto simp: live_def)

lemma live_upd:
  "live (d\<lparr>nodes := (nodes d)(h \<mapsto> n)\<rparr>) = {(h', p). (h', p) \<in> live d \<and> h' \<noteq> h} \<union> {(h, full (drv_path n))}"
  by (auto simp: live_def)

lemma live_cong: "nodes d = nodes d' \<Longrightarrow> live d = live d'"
  by (simp add: live_def)

lemma live_same_path: "nodes d h = Some s \<Longrightarrow> drv_path n = drv_path s \<Longrightarrow> live (d\<lparr>nodes := (nodes d)(h \<mapsto> n)\<rparr>) = live d"
  unfolding live_upd by (auto simp: live_def)

lemma merge_log_new_fields [simp]:
  "newly_inserted merge_log_new = {}" "new_edges merge_log_new = []" "interest_added merge_log_new = []"
  "removed_retriable merge_log_new = []" "traceparent_upgraded merge_log_new = []"
  "contributions_recorded merge_log_new = []" "floors_consumed merge_log_new = []"
  "drv_content_backfilled merge_log_new = []" "restoring merge_log_new = {}" "saved merge_log_new = {}"
  by (simp_all add: merge_log_new_def restoring_def saved_def)

lemma merge_inv_start:
  assumes "dag_wf d0" "live d0 \<subseteq> P" "one_to_one P"
  shows "merge_inv b tp sub P d0 d0 merge_log_new"
proof -
  have u: "map_option (undo_node b merge_log_new h) x = x" for h and x :: "('a, 'b, 'c) DagNode option"
    by (cases x) (simp_all add: undo_node_unlogged backfills_def)
  have p: "path_to_hash d0 p = Some h \<longleftrightarrow> (h, p) \<in> live d0" for p h
    using assms(1) by (auto simp: dag_wf_def path_index_exact_def live_def)
  have "undoable b d0 d0 merge_log_new"
    using one_to_one_subset [OF assms(3,2)] unfolding undoable_def
    by (simp add: u p)
  thus ?thesis using assms unfolding merge_inv_def dag_wf_def by (simp add: backfills_def)
qed

text \<open>An existing node keeps the invariant.\<close>

lemma kids_nodes [simp]: "kids (d\<lparr>nodes := x\<rparr>) = kids d" "pars (d\<lparr>nodes := x\<rparr>) = pars d"
  by (simp_all add: kids_def pars_def fun_eq_iff)

lemma merge_existing_logs:
  assumes "merge_existing b tp node h (s, r) = (s', r')"
  shows "newly_inserted r' = newly_inserted r" "removed_retriable r' = removed_retriable r" "restoring r' = restoring r"
    "saved r' = saved r" "new_edges r' = new_edges r" "floors_consumed r' = floors_consumed r"
    "set (interest_added r') = set (interest_added r) \<union> (if b \<in> interested_builds s then {} else {h})"
    "set (traceparent_upgraded r') = set (traceparent_upgraded r) \<union> (if traceparent s = [] \<and> tp \<noteq> [] then {h} else {})"
    "fst ` set (contributions_recorded r') = insert h (fst ` set (contributions_recorded r))"
    "h' \<noteq> h \<Longrightarrow> backfills h' (drv_content_backfilled r') = backfills h' (drv_content_backfilled r)"
    "backfills h (drv_content_backfilled r') = [] \<longleftrightarrow> backfills h (drv_content_backfilled r) = [] \<and> \<not> backfill_fires node s"
proof -
  have r': "r' = snd (merge_existing b tp node h (s, r))" using assms by simp
  show "newly_inserted r' = newly_inserted r" "removed_retriable r' = removed_retriable r" "restoring r' = restoring r"
    "saved r' = saved r" "new_edges r' = new_edges r" "floors_consumed r' = floors_consumed r"
    "set (interest_added r') = set (interest_added r) \<union> (if b \<in> interested_builds s then {} else {h})"
    "set (traceparent_upgraded r') = set (traceparent_upgraded r) \<union> (if traceparent s = [] \<and> tp \<noteq> [] then {h} else {})"
    "fst ` set (contributions_recorded r') = insert h (fst ` set (contributions_recorded r))"
    "h' \<noteq> h \<Longrightarrow> backfills h' (drv_content_backfilled r') = backfills h' (drv_content_backfilled r)"
    "backfills h (drv_content_backfilled r') = [] \<longleftrightarrow> backfills h (drv_content_backfilled r) = [] \<and> \<not> backfill_fires node s"
    by (auto simp: r' merge_existing_eq restoring_def saved_def backfills_def)
qed

lemma merge_existing_fields:
  assumes "merge_existing b tp node h (s, r) = (s', r')"
  shows "drv_path s' = drv_path s" "machine s' = machine s" "interested_builds s' = insert b (interested_builds s)"
    "traceparent s' = (if traceparent s = [] then tp else traceparent s)"
    "drv_content s' = (if backfill_fires node s then nd_drv_content node else drv_content s)"
    "backfill_fires node s \<Longrightarrow> drv_content s' \<noteq> []"
    "node_ok h s \<Longrightarrow> node_ok h s'"
proof -
  have s': "s' = fst (merge_existing b tp node h (s, r))" using assms by simp
  show "drv_path s' = drv_path s" "machine s' = machine s" "interested_builds s' = insert b (interested_builds s)"
    "traceparent s' = (if traceparent s = [] then tp else traceparent s)"
    "drv_content s' = (if backfill_fires node s then nd_drv_content node else drv_content s)"
    by (simp_all add: s' merge_existing_eq)
  show "backfill_fires node s \<Longrightarrow> drv_content s' \<noteq> []" by (simp add: s' merge_existing_eq) (simp add: backfill_fires_def)
  show "node_ok h s \<Longrightarrow> node_ok h s'"
    by (cases "backfill_fires node s") (simp_all add: s' merge_existing_eq node_ok_def backfill_fires_def)
qed

lemma existing_undoable:
  assumes inv: "merge_inv b tp sub P d0 d r" and h: "nodes d h = Some s"
    and m: "merge_existing b tp node h (s, r) = (s', r')"
  shows "undoable b d0 (d\<lparr>nodes := (nodes d)(h \<mapsto> s')\<rparr>) r'"
proof -
  let ?d = "d\<lparr>nodes := (nodes d)(h \<mapsto> s')\<rparr>"
  note u = merge_invD(1) [OF inv] and L = merge_existing_logs [OF m]
  have live: "live ?d = live d" by (rule live_same_path [OF h merge_existing_fields(1) [OF m]])
  have fresh: "b \<in> interested_builds s \<and> (traceparent s = [] \<longrightarrow> tp = [])" if "h \<in> newly_inserted r"
    using merge_invD(7) [OF inv that] h by auto
  have "(set (interest_added r') \<union> set (traceparent_upgraded r')) \<inter> restoring r' = {}"
    using u fresh merge_invD(3) [OF inv] unfolding L(3,7,8) undoable_def by auto
  moreover have "nodes d0 h' = map_option (undo_node b r' h') (nodes ?d h')"
    if "h' \<notin> newly_inserted r" "h' \<notin> restoring r" for h'
  proof (cases "h' = h")
    case True
    have "node_ok h s" by (rule merge_invD(5) [OF inv h])
    moreover have "backfills h (drv_content_backfilled r) = [] \<or> drv_content s \<noteq> []"
      using merge_invD(10) [OF inv h] that(1) True by simp
    ultimately have "undo_node b r' h s' = undo_node b r h s"
      by (intro merge_existing_undo [OF m]) (auto simp: node_ok_def)
    thus ?thesis using True u that h by (simp add: undoable_def)
  next
    case False
    thus ?thesis using u that merge_existing_undo_other [OF m] by (simp add: undoable_def)
  qed
  moreover have "nodes ?d h' = None" if "h' \<in> restoring r - newly_inserted r" for h'
    using that merge_invD(3) [OF inv] by blast
  ultimately show ?thesis
    using u unfolding undoable_def L(1-6) live kids_nodes by simp
qed

lemma existing_step:
  assumes inv: "merge_inv b tp sub P d0 d r" and h: "nodes d h = Some s"
    and m: "merge_existing b tp node h (s, r) = (s', r')"
    and no: "h \<notin> newly_inserted r \<Longrightarrow> \<not> mints_epoch_on_resubmit (machine s) (full (drv_path s) \<notin> sub)"
  shows "merge_inv b tp sub P d0 (d\<lparr>nodes := (nodes d)(h \<mapsto> s')\<rparr>) r'"
proof -
  let ?d = "d\<lparr>nodes := (nodes d)(h \<mapsto> s')\<rparr>"
  note L = merge_existing_logs [OF m] and F = merge_existing_fields [OF m]
  have live: "live ?d = live d" by (rule live_same_path [OF h F(1)])
  have n: "\<exists>s. nodes ?d h' = Some s \<and> traceparent s = tp \<and> machine s = merged_machine sub d0 h' (full (drv_path s))
      \<and> interested_builds s = insert b (prior_interest d0 h')" if "h' \<in> newly_inserted r" for h'
    using merge_invD(7) [OF inv that] h F(1-4) by (cases "h' = h") auto
  have fresh: "b \<in> interested_builds s \<and> (traceparent s = [] \<longrightarrow> tp = [])" if "h \<in> newly_inserted r"
    using merge_invD(7) [OF inv that] h by auto
  have i: "set (interest_added r') \<union> set (traceparent_upgraded r') \<subseteq> fst ` set (contributions_recorded r') - newly_inserted r"
    using merge_invD(8) [OF inv] fresh unfolding L(7-9) by auto
  have c: "\<exists>s. nodes ?d h' = Some s \<and> b \<in> interested_builds s \<and> \<not> mints_epoch_on_resubmit (machine s) (full (drv_path s) \<notin> sub)"
    if "h' \<in> fst ` set (contributions_recorded r') - newly_inserted r" for h'
    using that merge_invD(9) [OF inv, of h'] no F(1-3) unfolding L(9) by (cases "h' = h") auto
  have bf: "backfills h' (drv_content_backfilled r') = [] \<or> drv_content t \<noteq> []"
    if "nodes ?d h' = Some t" "h' \<notin> newly_inserted r" for h' t
    using that merge_invD(10) [OF inv, of h'] h F(5,6) L(10,11) by (cases "h' = h") (auto split: if_splits)
  have bn: "backfills h' (drv_content_backfilled r') = []" if "h' \<notin> fst ` set (contributions_recorded r')" for h'
    using that merge_invD(11) [OF inv, of h'] L(10) unfolding L(9) by auto
  have ok: "node_ok h' t" if "nodes ?d h' = Some t" for h' t
    using that F(7) [OF merge_invD(5) [OF inv h]] merge_invD(5) [OF inv, of h'] by (cases "h' = h") auto
  have "undoable b d0 ?d r'" by (rule existing_undoable [OF inv h m])
  thus ?thesis
    using n i c bf bn ok merge_invD(2,3,4,6,12,13) [OF inv] unfolding merge_inv_def L(1-6) live by simp
qed

text \<open>Taking a node out for a fresh demand epoch.\<close>

lemma unlogged_same:
  assumes inv: "merge_inv b tp sub P d0 d r" and "h \<notin> newly_inserted r" "h \<notin> fst ` set (contributions_recorded r)"
  shows "nodes d0 h = nodes d h"
proof -
  have "h \<notin> restoring r" using merge_invD(3) [OF inv] assms(2) by blast
  hence "nodes d0 h = map_option (undo_node b r h) (nodes d h)"
    using merge_invD(1) [OF inv] assms(2) by (simp add: undoable_def)
  moreover have "undo_node b r h s = s" for s
    using merge_invD(8,11) [OF inv] assms(3) by (intro undo_node_unlogged) auto
  ultimately show ?thesis by (cases "nodes d h") auto
qed

lemma prior_step:
  assumes inv: "merge_inv b tp sub P d0 d r" and h: "nodes d h = Some old" "h \<notin> newly_inserted r"
    and mint: "mints_epoch_on_resubmit (machine old) (full (drv_path old) \<notin> sub)"
  defines "d1 \<equiv> d\<lparr>nodes := (nodes d)(h := None)\<rparr>"
    and "r1 \<equiv> r\<lparr>removed_retriable := removed_retriable r @ [(h, old)]\<rparr>"
  shows "undoable b d0 d1 r1" "nodes d0 h = Some old" "h \<notin> fst ` set (contributions_recorded r)"
proof -
  note u = merge_invD(1) [OF inv]
  show c: "h \<notin> fst ` set (contributions_recorded r)" using merge_invD(9) [OF inv, of h] h mint by auto
  show old: "nodes d0 h = Some old" using unlogged_same [OF inv h(2) c] h(1) by simp
  have R: "restoring r1 = insert h (restoring r)" "saved r1 = insert (h, full (drv_path old)) (saved r)"
    "newly_inserted r1 = newly_inserted r"
    by (auto simp: r1_def restoring_def saved_def)
  have l: "live d = insert (h, full (drv_path old)) (live d1)"
  proof (rule set_eqI)
    fix x
    show "x \<in> live d \<longleftrightarrow> x \<in> insert (h, full (drv_path old)) (live d1)"
      using h(1) by (cases x; cases "fst x = h") (auto simp: live_iff d1_def)
  qed
  have i: "(set (interest_added r1) \<union> set (traceparent_upgraded r1)) \<inter> restoring r1 = {}"
    using u merge_invD(8) [OF inv] c unfolding R undoable_def by (auto simp: r1_def)
  have un: "undo_node b r1 = undo_node b r" by (rule undo_node_cong) (simp_all add: r1_def)
  have n: "nodes d1 h' = None" if "h' \<in> restoring r1 - newly_inserted r1" for h'
    using that merge_invD(3) [OF inv] unfolding R by (auto simp: d1_def)
  have o: "one_to_one (live d0 \<union> live d1)"
    using u l by (auto simp: undoable_def intro: one_to_one_subset)
  have "nodes d0 h' = map_option (undo_node b r1 h') (nodes d1 h')" if "h' \<notin> newly_inserted r1" "h' \<notin> restoring r1" for h'
    using that u unfolding R un by (simp add: d1_def undoable_def)
  moreover have "nodes d0 h' = Some s'" if "(h', s') \<in> set (removed_retriable r1)" for h' s'
    using that old undoableD(3) [OF u] by (auto simp: r1_def)
  moreover have "nodes d0 h' = None" if "h' \<in> newly_inserted r1 - restoring r1" for h'
    using that undoableD(4) [OF u] unfolding R by blast
  moreover have "path_to_hash d1 p = Some k \<longleftrightarrow> (k, p) \<in> live d1 \<union> saved r1" for p k
    using undoableD(9) [OF u] unfolding R l by (auto simp: d1_def)
  ultimately show "undoable b d0 d1 r1"
    using undoable_parts(1,2,8,11-13) [OF u] i n o by (intro undoableI) (simp_all add: d1_def r1_def)
qed

lemma fresh_step:
  assumes u: "undoable b d0 d1 r1" and h: "nodes d1 h = None" "h \<notin> newly_inserted r1" "h \<notin> restoring r1 \<Longrightarrow> nodes d0 h = None"
    and P: "one_to_one P" "live d1 \<subseteq> P" "live d0 \<subseteq> P" "(h, full (drv_path s)) \<in> P"
    and f: "fst ` set (floors_consumed r1) \<inter> dom (resubmit_floors d1) = {}"
    and m: "merge_fresh b tp node h prior s d1 r1 = (d', r')" and ok: "node_ok h s" "interested_builds s = {}"
  shows "undoable b d0 d' r' \<and> live d' \<subseteq> P \<and> fst ` set (floors_consumed r') \<inter> dom (resubmit_floors d') = {}"
proof -
  obtain n where n: "nodes d' = (nodes d1)(h \<mapsto> n)" "path_to_hash d' = (path_to_hash d1)(full (drv_path s) \<mapsto> h)"
    "drv_path n = drv_path s" "children d' = children d1" "parents d' = parents d1" "dag_soft_features d' = dag_soft_features d1"
    by (rule merge_fresh_dag [OF m ok]) blast
  note L = merge_fresh_log [OF m]
  have R: "restoring r' = restoring r1" "saved r' = saved r1" by (simp_all add: restoring_def saved_def L(2))
  have live: "live d' = insert (h, full (drv_path s)) (live d1)"
  proof -
    have "(h, p) \<notin> live d1" for p using h(1) by (simp add: live_def)
    hence "{(h', p). (h', p) \<in> live d1 \<and> h' \<noteq> h} = live d1" by auto
    thus ?thesis using live_upd [of d1 h n] live_cong [of d' "d1\<lparr>nodes := (nodes d1)(h \<mapsto> n)\<rparr>"] n(1,3) by simp
  qed
  have fl: "resubmit_floors d' ++ map_of (rev (floors_consumed r')) = resubmit_floors d1 ++ map_of (rev (floors_consumed r1))
      \<and> fst ` set (floors_consumed r') \<inter> dom (resubmit_floors d') = {}"
  proof (cases "prior = None \<and> resubmit_floors d1 h \<noteq> None")
    case True
    then obtain x where x: "resubmit_floors d1 h = Some x" by blast
    hence none: "h \<notin> fst ` set (floors_consumed r1)" using f by blast
    have "((resubmit_floors d1)(h := None) ++ map_of (rev (floors_consumed r1)))(h \<mapsto> x)
        = resubmit_floors d1 ++ map_of (rev (floors_consumed r1))"
    proof
      fix k
      have "map_of (rev (floors_consumed r1)) h = None" using none by (simp add: map_of_eq_None_iff)
      thus "(((resubmit_floors d1)(h := None) ++ map_of (rev (floors_consumed r1)))(h \<mapsto> x)) k
        = (resubmit_floors d1 ++ map_of (rev (floors_consumed r1))) k" using x by (cases "k = h") (simp_all add: map_add_def split: option.splits)
    qed
    thus ?thesis using L(8) [OF _ x] True f by auto
  next
    case False
    thus ?thesis using L(9) f by simp
  qed
  have path: "path_to_hash d' p = Some k \<longleftrightarrow> (k, p) \<in> live d' \<union> saved r'" for p k
  proof (cases "p = full (drv_path s)")
    case True
    have "k = h" if "(k, p) \<in> live d1 \<union> saved r1"
    proof -
      have "(k, p) \<in> P" using that P(2,3) saved_live [OF u] by blast
      thus ?thesis using one_to_oneD [OF P(1) _ P(4)] True by blast
    qed
    thus ?thesis using True unfolding n(2) live R by auto
  next
    case False
    thus ?thesis using u unfolding n(2) live R by (simp add: undoable_def)
  qed
  have un: "undo_node b r' = undo_node b r1" by (rule undo_node_cong) (simp_all add: L)
  have o: "one_to_one (live d0 \<union> live d')" using P live by (auto intro: one_to_one_subset)
  have same: "nodes d0 k = map_option (undo_node b r' k) (nodes d' k)" if "k \<notin> newly_inserted r'" "k \<notin> restoring r'" for k
    using that u unfolding L(1) R un n(1) by (simp add: undoable_def)
  have k: "kids d' = kids d1" "pars d' = pars d1" using n(4,5) by (auto intro: kids_cong pars_cong)
  have "undoable b d0 d' r'"
    using u h path o same fl n(6) unfolding undoable_def L(1-5) R k by (auto simp: n(1))
  thus ?thesis using P(2,4) live fl by simp
qed

definition resubmit_prior ::
  "string set \<Rightarrow> DerivationNode \<Rightarrow> ('e, 'u, 'f) DerivationDag \<Rightarrow> ('e, 'u, 'f) MergeResult \<Rightarrow> ('e, 'u, 'f) DagNode option" where
  "resubmit_prior sub node d r =
     (if nd_drv_hash node \<in> newly_inserted r then None
      else case nodes d (nd_drv_hash node) of
             None \<Rightarrow> None
           | Some s \<Rightarrow> if mints_epoch_on_resubmit (machine s) (nd_drv_path node \<notin> sub) then Some s else None)"

lemma vacate_none:
  assumes inv: "merge_inv b tp sub P d0 d r" and h: "nodes d h = None"
  shows "h \<notin> newly_inserted r" "h \<notin> fst ` set (contributions_recorded r)" "nodes d0 h = None"
proof -
  show n: "h \<notin> newly_inserted r" using merge_invD(7) [OF inv, of h] h by auto
  show c: "h \<notin> fst ` set (contributions_recorded r)" using merge_invD(9) [OF inv, of h] n h by auto
  show "nodes d0 h = None" using unlogged_same [OF inv n c] h by simp
qed

lemma fresh_inv:
  assumes inv: "merge_inv b tp sub P d0 d r"
    and u: "undoable b d0 d1 r1" and d1: "nodes d1 = (nodes d)(h := None)" "resubmit_floors d1 = resubmit_floors d"
    and r1: "newly_inserted r1 = newly_inserted r" "new_edges r1 = new_edges r" "interest_added r1 = interest_added r"
      "traceparent_upgraded r1 = traceparent_upgraded r" "contributions_recorded r1 = contributions_recorded r"
      "drv_content_backfilled r1 = drv_content_backfilled r" "floors_consumed r1 = floors_consumed r"
      "restoring r1 = restoring r \<union> (if prior = None then {} else {h})"
    and h: "h \<notin> newly_inserted r" "h \<notin> fst ` set (contributions_recorded r)" "nodes d0 h = prior"
    and mint: "\<And>old. prior = Some old \<Longrightarrow> mints_epoch_on_resubmit (machine old) (full (drv_path s) \<notin> sub)"
    and P: "one_to_one P" "live d0 \<subseteq> P" "(h, full (drv_path s)) \<in> P"
    and m: "merge_fresh b tp node h prior s d1 r1 = (d', r')"
    and ok: "node_ok h s" "interested_builds s = {}" "machine s = fresh_machine"
  shows "merge_inv b tp sub P d0 d' r'"
proof -
  note L = merge_fresh_log [OF m]
  obtain n where n: "nodes d' = (nodes d1)(h \<mapsto> n)" "drv_path n = drv_path s" "node_ok h n" "traceparent n = tp"
    "machine n = (machine s)\<lparr>resubmit_cycles := seed_cycles d1 h prior (resubmit_cycles (machine s))\<rparr>"
    "interested_builds n = insert b (case prior of None \<Rightarrow> {} | Some old \<Rightarrow> interested_builds old)"
    by (rule merge_fresh_dag [OF m ok(1,2)]) blast
  have live1: "live d1 \<subseteq> P" using merge_invD(6) [OF inv] d1(1) by (auto simp: live_iff split: if_splits)
  have fl: "fst ` set (floors_consumed r1) \<inter> dom (resubmit_floors d1) = {}" using merge_invD(12) [OF inv] r1(7) d1(2) by simp
  have U: "undoable b d0 d' r' \<and> live d' \<subseteq> P \<and> fst ` set (floors_consumed r') \<inter> dom (resubmit_floors d') = {}"
    by (rule fresh_step [OF u _ _ _ P(1) live1 P(2,3) fl m ok(1,2)]) (use d1(1) r1(1,8) h in \<open>auto split: if_splits\<close>)
  have "resubmit_floors d0 h = resubmit_floors d1 h"
  proof -
    have "h \<notin> fst ` set (floors_consumed r1)" using merge_invD(13) [OF inv] h(1) r1(7) by auto
    thus ?thesis using u by (simp add: undoable_def map_add_def map_of_eq_None_iff [THEN iffD2])
  qed
  hence mach: "machine n = merged_machine sub d0 h (full (drv_path n))"
    using mint h(3) unfolding n(5,2) ok(3) merged_machine_def seed_cycles_def
    by (auto simp: fresh_machine_def split: option.splits)
  have new: "\<exists>s. nodes d' k = Some s \<and> traceparent s = tp \<and> machine s = merged_machine sub d0 k (full (drv_path s))
      \<and> interested_builds s = insert b (prior_interest d0 k)" if "k \<in> newly_inserted r'" for k
  proof (cases "k = h")
    case True
    have "insert b (case prior of None \<Rightarrow> {} | Some old \<Rightarrow> interested_builds old) = insert b (prior_interest d0 h)"
      unfolding prior_interest_def h(3) by (rule refl)
    thus ?thesis using True n(1,4,6) mach by simp
  next
    case False
    thus ?thesis using merge_invD(7) [OF inv, of k] that n(1) d1(1) unfolding L(1) r1(1) by simp
  qed
  have c: "\<exists>s. nodes d' k = Some s \<and> b \<in> interested_builds s \<and> \<not> mints_epoch_on_resubmit (machine s) (full (drv_path s) \<notin> sub)"
    if "k \<in> fst ` set (contributions_recorded r') - newly_inserted r'" for k
    using merge_invD(9) [OF inv, of k] that n(1) d1(1) unfolding L(1,6) r1(1,5) by simp
  have bf: "backfills k (drv_content_backfilled r') = [] \<or> drv_content t \<noteq> []"
    if "nodes d' k = Some t" "k \<notin> newly_inserted r'" for k t
    using merge_invD(10) [OF inv, of k t] that n(1) d1(1) unfolding L(1,7) r1(1,6) by simp
  have o: "node_ok k t" if "nodes d' k = Some t" for k t
    using merge_invD(5) [OF inv, of k t] that n(1,3) d1(1) by (cases "k = h") auto
  have "restoring r' = restoring r1" by (simp add: restoring_def L(2))
  hence R: "restoring r' \<subseteq> newly_inserted r'" using merge_invD(3) [OF inv] r1(1,8) L(1) by (auto split: if_splits)
  have fc: "fst ` set (floors_consumed r') \<subseteq> newly_inserted r'"
  proof -
    have "fst ` set (floors_consumed r') \<subseteq> insert h (fst ` set (floors_consumed r))"
      using L(8,9) r1(7) by (cases "prior = None \<and> resubmit_floors d1 h \<noteq> None") auto
    thus ?thesis using merge_invD(13) [OF inv] L(1) r1(1) by blast
  qed
  have "finite (dom (nodes d'))" using merge_invD(2) [OF inv] n(1) d1(1) by (simp add: dom_if)
  thus ?thesis
    using U new c bf o R fc merge_invD(4,8,11) [OF inv] h(2) unfolding merge_inv_def L(3-7) r1(2-6) L(1) r1(1) by auto
qed

lemma parse_total: "parse s \<noteq> None"
proof
  assume n: "parse s = None"
  then obtain rest bs where r: "\<not> length rest < HASH_CHARS + 1" "decode (take HASH_CHARS rest) = Inr bs" "length bs \<noteq> HASH_BYTES"
    unfolding parse_def by (auto simp: Let_def split: option.splits if_splits sum.splits)
  have "length (take HASH_CHARS rest) = HASH_CHARS" using r(1) by simp
  from decode_hash_length [OF this r(2)] r(3) show False by simp
qed

lemma merge_node_unfold:
  "merge_node b tp sub node d r =
     (let h = nd_drv_hash node; prior = resubmit_prior sub node d r;
          (d, r) = (case prior of
                      None \<Rightarrow> (d, r)
                    | Some old \<Rightarrow> (d\<lparr>nodes := (nodes d)(h := None)\<rparr>,
                                   r\<lparr>removed_retriable := removed_retriable r @ [(h, old)]\<rparr>))
      in case nodes d h of
           Some existing \<Rightarrow>
             (let (s, r) = merge_existing b tp node h (existing, r)
              in Some (d\<lparr>nodes := (nodes d)(h \<mapsto> s)\<rparr>, r, None))
         | None \<Rightarrow>
             (case try_from_node node of
                None \<Rightarrow> None
              | Some (Inl source) \<Rightarrow> Some (d, r, Some (InvalidDrvPath (nd_drv_path node) source))
              | Some (Inr s) \<Rightarrow> (let (d, r) = merge_fresh b tp node h prior s d r in Some (d, r, None))))"
  unfolding merge_node_def resubmit_prior_def Let_def by (rule refl)

definition node_outcome ::
  "'u \<Rightarrow> string \<Rightarrow> string set \<Rightarrow> (string \<times> string) set \<Rightarrow> ('e, 'u, 'f) DerivationDag \<Rightarrow> DerivationNode
   \<Rightarrow> ('e, 'u, 'f) MergeResult \<Rightarrow> ('e, 'u, 'f) DerivationDag \<times> ('e, 'u, 'f) MergeResult \<times> DagError option \<Rightarrow> bool" where
  "node_outcome b tp sub P d0 node r = (\<lambda>(d', r', e).
     case e of
       Some err \<Rightarrow> undoable b d0 d' r' \<and> (\<exists>source. err = InvalidDrvPath (nd_drv_path node) source
                     \<and> parse (nd_drv_path node) = Some (Inl source))
     | None \<Rightarrow> merge_inv b tp sub P d0 d' r'
         \<and> newly_inserted r' \<union> fst ` set (contributions_recorded r')
           = insert (nd_drv_hash node) (newly_inserted r \<union> fst ` set (contributions_recorded r)))"

lemma fresh_outcome:
  fixes d1 :: "('e, 'u, 'f::zero) DerivationDag"
  assumes u: "undoable b d0 d1 r1" and n: "nodes d1 (nd_drv_hash node) = None"
    and inv: "\<And>s d' r'. try_from_node node = Some (Inr s) \<Longrightarrow>
        merge_fresh b tp node (nd_drv_hash node) prior s d1 r1 = (d', r') \<Longrightarrow> merge_inv b tp sub P d0 d' r'"
    and l: "newly_inserted r1 = newly_inserted r" "contributions_recorded r1 = contributions_recorded r"
  shows "\<exists>x. (case try_from_node node of
                None \<Rightarrow> None
              | Some (Inl source) \<Rightarrow> Some (d1, r1, Some (InvalidDrvPath (nd_drv_path node) source))
              | Some (Inr s) \<Rightarrow> (let (d, r) = merge_fresh b tp node (nd_drv_hash node) prior s d1 r1 in Some (d, r, None))) = Some x
      \<and> node_outcome b tp sub P d0 node r x"
proof (cases "parse (nd_drv_path node)")
  case None
  thus ?thesis using parse_total by simp
next
  case (Some res)
  show ?thesis
  proof (cases res)
    case (Inl source)
    with Some have "try_from_node node = Some (Inl source :: StorePathError + ('e, 'u, 'f) DagNode)" by (simp add: try_from_node_def)
    thus ?thesis using u Some Inl by (simp add: node_outcome_def)
  next
    case (Inr sp)
    with Some obtain s :: "('e, 'u, 'f) DagNode" where s: "try_from_node node = Some (Inr s)" by (simp add: try_from_node_def)
    obtain d' r' where m: "merge_fresh b tp node (nd_drv_hash node) prior s d1 r1 = (d', r')" by fastforce
    show ?thesis using inv [OF s m] merge_fresh_log(1,6) [OF m] l by (simp add: s m node_outcome_def)
  qed
qed

lemma merge_node_outcome:
  fixes d :: "('e, 'u, 'f::zero) DerivationDag"
  assumes inv: "merge_inv b tp sub P d0 d r" and P: "one_to_one P" "live d0 \<subseteq> P" "(nd_drv_hash node, nd_drv_path node) \<in> P"
  shows "\<exists>x. merge_node b tp sub node d r = Some x \<and> node_outcome b tp sub P d0 node r x"
proof -
  let ?h = "nd_drv_hash node"
  have fresh: "full (drv_path s) = nd_drv_path node \<and> node_ok ?h s \<and> interested_builds s = {} \<and> machine s = fresh_machine"
    if "try_from_node node = Some (Inr s)" for s :: "('e, 'u, 'f) DagNode" using try_from_node_ok [OF that] by simp
  have path: "full (drv_path s) = nd_drv_path node" if "nodes d ?h = Some s" for s
    using that merge_invD(6) [OF inv] one_to_oneD [OF P(1) _ P(3)] by (force simp: live_def)
  consider (mint) old where "resubmit_prior sub node d r = Some old"
    | (new) "resubmit_prior sub node d r = None" "nodes d ?h = None"
    | (old) s where "resubmit_prior sub node d r = None" "nodes d ?h = Some s" by (metis not_None_eq)
  thus ?thesis
  proof cases
    case (mint old)
    hence o: "nodes d ?h = Some old" "?h \<notin> newly_inserted r" "mints_epoch_on_resubmit (machine old) (full (drv_path old) \<notin> sub)"
      using path by (auto simp: resubmit_prior_def split: if_splits option.splits)
    let ?d = "d\<lparr>nodes := (nodes d)(?h := None)\<rparr>" and ?r = "r\<lparr>removed_retriable := removed_retriable r @ [(?h, old)]\<rparr>"
    note pr = prior_step [OF inv o]
    have R: "restoring ?r = restoring r \<union> {?h}" by (simp add: restoring_def)
    have inv': "merge_inv b tp sub P d0 d' r'"
      if t: "try_from_node node = Some (Inr s)" and m: "merge_fresh b tp node ?h (Some old) s ?d ?r = (d', r')" for s d' r'
    proof (rule fresh_inv [OF inv pr(1) _ _ _ _ _ _ _ _ _ _ o(2) pr(3,2) _ P(1,2) _ m])
      show "mints_epoch_on_resubmit (machine old') (full (drv_path s) \<notin> sub)" if "Some old = Some old'" for old'
        using that o(3) fresh [OF t] path [OF o(1)] by simp
    qed (use fresh [OF t] P(3) R in simp_all)
    have n: "nodes ?d ?h = None" by simp
    show ?thesis
      unfolding merge_node_unfold mint Let_def option.case prod.case n
      by (rule fresh_outcome [OF pr(1) n, unfolded Let_def], use inv' in simp_all)
  next
    case new
    note v = vacate_none [OF inv new(2)]
    have inv': "merge_inv b tp sub P d0 d' r'"
      if t: "try_from_node node = Some (Inr s)" and m: "merge_fresh b tp node ?h None s d r = (d', r')" for s d' r'
      by (rule fresh_inv [OF inv merge_invD(1) [OF inv] _ _ _ _ _ _ _ _ _ _ v _ P(1,2) _ m])
        (use new(2) fresh [OF t] P(3) in \<open>simp_all add: fun_upd_idem\<close>)
    show ?thesis
      unfolding merge_node_unfold new Let_def option.case prod.case
      by (rule fresh_outcome [OF merge_invD(1) [OF inv] new(2), unfolded Let_def], use inv' in simp_all)
  next
    case (old s)
    obtain s' r' where m: "merge_existing b tp node ?h (s, r) = (s', r')" by fastforce
    have "\<not> mints_epoch_on_resubmit (machine s) (full (drv_path s) \<notin> sub)" if "?h \<notin> newly_inserted r"
      using that old path [OF old(2)] by (auto simp: resubmit_prior_def split: if_splits)
    from existing_step [OF inv old(2) m this] show ?thesis
      using merge_existing_logs(1,9) [OF m] by (simp add: merge_node_unfold old m node_outcome_def)
  qed
qed

text \<open>The whole loop: it never panics, and it either keeps the invariant or stops at a bad path in an undoable state.\<close>

lemma merge_nodes_outcome:
  fixes d :: "('e, 'u, 'f::zero) DerivationDag"
  assumes P: "one_to_one P" "live d0 \<subseteq> P"
  shows "merge_inv b tp sub P d0 d r \<Longrightarrow> \<forall>n\<in>set ns. (nd_drv_hash n, nd_drv_path n) \<in> P \<Longrightarrow>
    \<exists>d' r' e. merge_nodes b tp sub ns d r = Some (d', r', e)
      \<and> (case e of
           None \<Rightarrow> merge_inv b tp sub P d0 d' r' \<and> newly_inserted r' \<union> fst ` set (contributions_recorded r')
             = nd_drv_hash ` set ns \<union> (newly_inserted r \<union> fst ` set (contributions_recorded r))
         | Some err \<Rightarrow> undoable b d0 d' r'
             \<and> (\<exists>n\<in>set ns. \<exists>source. err = InvalidDrvPath (nd_drv_path n) source \<and> parse (nd_drv_path n) = Some (Inl source)))"
proof (induction ns arbitrary: d r)
  case (Cons n ns)
  have "(nd_drv_hash n, nd_drv_path n) \<in> P" using Cons.prems(2) by simp
  from merge_node_outcome [OF Cons.prems(1) P this]
  obtain x where x: "merge_node b tp sub n d r = Some x" "node_outcome b tp sub P d0 n r x" by blast
  obtain d1 r1 e where [simp]: "x = (d1, r1, e)" by (cases x)
  show ?case
  proof (cases e)
    case None
    hence o: "merge_inv b tp sub P d0 d1 r1" "newly_inserted r1 \<union> fst ` set (contributions_recorded r1)
           = insert (nd_drv_hash n) (newly_inserted r \<union> fst ` set (contributions_recorded r))"
      using x(2) by (simp_all add: node_outcome_def)
    obtain d' r' e' where i: "merge_nodes b tp sub ns d1 r1 = Some (d', r', e')"
      "case e' of
           None \<Rightarrow> merge_inv b tp sub P d0 d' r' \<and> newly_inserted r' \<union> fst ` set (contributions_recorded r')
             = nd_drv_hash ` set ns \<union> (newly_inserted r1 \<union> fst ` set (contributions_recorded r1))
         | Some err \<Rightarrow> undoable b d0 d' r'
             \<and> (\<exists>n\<in>set ns. \<exists>source. err = InvalidDrvPath (nd_drv_path n) source \<and> parse (nd_drv_path n) = Some (Inl source))"
      using Cons.IH [OF o(1)] Cons.prems(2) by auto
    have "merge_nodes b tp sub (n # ns) d r = Some (d', r', e')" using x None i(1) by simp
    moreover have "case e' of
           None \<Rightarrow> merge_inv b tp sub P d0 d' r' \<and> newly_inserted r' \<union> fst ` set (contributions_recorded r')
             = nd_drv_hash ` set (n # ns) \<union> (newly_inserted r \<union> fst ` set (contributions_recorded r))
         | Some err \<Rightarrow> undoable b d0 d' r'
             \<and> (\<exists>n\<in>set (n # ns). \<exists>source. err = InvalidDrvPath (nd_drv_path n) source \<and> parse (nd_drv_path n) = Some (Inl source))"
      using i(2) o(2) by (cases e') auto
    ultimately show ?thesis by blast
  next
    case (Some err)
    thus ?thesis using x by (auto simp: node_outcome_def)
  qed
qed simp

section \<open>Wanted outputs\<close>

text \<open>
  What a build asked of a node before the merge, and what of it a submission keeps: an epoch minted
  for the node drops the build's earlier contribution.
\<close>

definition prior_wanted :: "('e, 'u, 'f) DerivationDag \<Rightarrow> string \<Rightarrow> 'u \<Rightarrow> string list option" where
  "prior_wanted d0 h b = (case nodes d0 h of None \<Rightarrow> None | Some s0 \<Rightarrow> wanted_by_build s0 b)"

definition kept_wanted ::
  "string set \<Rightarrow> ('e, 'u, 'f) DerivationDag \<Rightarrow> string \<Rightarrow> string \<Rightarrow> 'u \<Rightarrow> string list option" where
  "kept_wanted sub d0 h p b =
     (case nodes d0 h of
        None \<Rightarrow> None
      | Some s0 \<Rightarrow> if mints_epoch_on_resubmit (machine s0) (p \<notin> sub) then None else wanted_by_build s0 b)"

definition asked :: "DerivationNode list \<Rightarrow> string \<Rightarrow> string \<Rightarrow> bool" where
  "asked ns h nm \<longleftrightarrow> (\<exists>n\<in>set ns. nd_drv_hash n = h \<and> wants (nd_wanted_output_names n) nm)"

definition wanted_ok ::
  "'u \<Rightarrow> string set \<Rightarrow> ('e, 'u, 'f) DerivationDag \<Rightarrow> DerivationNode list \<Rightarrow> string \<Rightarrow> ('e, 'u, 'f) DagNode \<Rightarrow> bool" where
  "wanted_ok b sub d0 ns h s \<longleftrightarrow>
     (\<forall>b'. b' \<noteq> b \<longrightarrow> wanted_by_build s b' = prior_wanted d0 h b')
     \<and> (h \<in> nd_drv_hash ` set ns \<longrightarrow>
          (\<exists>w. wanted_by_build s b = Some w
             \<and> (\<forall>nm. wants w nm \<longleftrightarrow> asked ns h nm
                  \<or> (\<exists>w0. kept_wanted sub d0 h (full (drv_path s)) b = Some w0 \<and> wants w0 nm))))"

definition wanted_inv ::
  "'u \<Rightarrow> string set \<Rightarrow> ('e, 'u, 'f) DerivationDag \<Rightarrow> DerivationNode list \<Rightarrow> ('e, 'u, 'f) DerivationDag \<Rightarrow> bool" where
  "wanted_inv b sub d0 ns d \<longleftrightarrow> (\<forall>h s. nodes d h = Some s \<longrightarrow> wanted_ok b sub d0 ns h s)"

lemma wanted_inv_start: "wanted_inv b sub d0 [] d0"
  by (simp add: wanted_inv_def wanted_ok_def prior_wanted_def)

lemma asked_snoc: "asked (ns @ [n]) h nm \<longleftrightarrow> asked ns h nm \<or> nd_drv_hash n = h \<and> wants (nd_wanted_output_names n) nm"
  by (auto simp: asked_def)

lemma asked_none: "h \<notin> nd_drv_hash ` set ns \<Longrightarrow> \<not> asked ns h nm"
  by (auto simp: asked_def)

lemma wanted_ok_other:
  assumes "wanted_ok b sub d0 ns h s" "nd_drv_hash n \<noteq> h"
  shows "wanted_ok b sub d0 (ns @ [n]) h s"
  using assms unfolding wanted_ok_def asked_snoc by auto

lemma wanted_inv_upd:
  assumes "wanted_inv b sub d0 ns d" "nodes d' = (nodes d)(nd_drv_hash n \<mapsto> s)"
    "wanted_ok b sub d0 (ns @ [n]) (nd_drv_hash n) s"
  shows "wanted_inv b sub d0 (ns @ [n]) d'"
  unfolding wanted_inv_def
proof (intro allI impI)
  fix h t assume t: "nodes d' h = Some t"
  show "wanted_ok b sub d0 (ns @ [n]) h t"
  proof (cases "h = nd_drv_hash n")
    case True
    thus ?thesis using t assms(2,3) by simp
  next
    case False
    hence "wanted_ok b sub d0 ns h t" using t assms(1,2) by (simp add: wanted_inv_def)
    thus ?thesis using False by (intro wanted_ok_other) simp_all
  qed
qed

lemma merge_fresh_wanted:
  assumes "merge_fresh b tp node h prior s d r = (d', r')" "wanted_by_build s = Map.empty"
  obtains n where "nodes d' = (nodes d)(h \<mapsto> n)" "drv_path n = drv_path s"
    "wanted_by_build n = (case prior of None \<Rightarrow> Map.empty | Some old \<Rightarrow> wanted_by_build old)(b \<mapsto> nd_wanted_output_names node)"
proof -
  have d: "d' = fst (merge_fresh b tp node h prior s d r)" using assms(1) by simp
  show ?thesis
    by (rule that [of "the (nodes d' h)"])
      (simp_all add: d merge_fresh_def Let_def apply_soft_features_keeps assms(2) split: option.splits)
qed

text \<open>A fresh node holds the submission's contribution for the build, and the old ones of the others.\<close>

lemma fresh_wanted_ok:
  assumes "nd_drv_hash n \<notin> nd_drv_hash ` set ns" "nodes d0 (nd_drv_hash n) = prior"
    "\<And>old. prior = Some old \<Longrightarrow> mints_epoch_on_resubmit (machine old) (full (drv_path s) \<notin> sub)"
    "wanted_by_build s = (case prior of None \<Rightarrow> Map.empty | Some old \<Rightarrow> wanted_by_build old)(b \<mapsto> nd_wanted_output_names n)"
  shows "wanted_ok b sub d0 (ns @ [n]) (nd_drv_hash n) s"
  using assms asked_none [OF assms(1)]
  by (cases prior) (simp_all add: wanted_ok_def asked_snoc prior_wanted_def kept_wanted_def)

lemma existing_wanted_ok:
  assumes ok: "wanted_ok b sub d0 ns (nd_drv_hash n) s"
    and first: "nd_drv_hash n \<notin> nd_drv_hash ` set ns \<Longrightarrow>
      nodes d0 (nd_drv_hash n) = Some s \<and> \<not> mints_epoch_on_resubmit (machine s) (full (drv_path s) \<notin> sub)"
    and m: "merge_existing b tp n (nd_drv_hash n) (s, r) = (s', r')"
  shows "wanted_ok b sub d0 (ns @ [n]) (nd_drv_hash n) s'"
proof -
  have s': "drv_path s' = drv_path s"
    "wanted_by_build s' = (wanted_by_build s)(b \<mapsto> grown (wanted_by_build s b) (nd_wanted_output_names n))"
    using m by (auto simp: merge_existing_eq)
  show ?thesis
  proof (cases "nd_drv_hash n \<in> nd_drv_hash ` set ns")
    case True
    thus ?thesis using ok by (auto simp: wanted_ok_def asked_snoc s' grown_def wants_union)
  next
    case False
    thus ?thesis using ok first asked_none [OF False]
      by (auto simp: wanted_ok_def asked_snoc s' grown_def wants_union kept_wanted_def split: option.split)
  qed
qed

lemma merge_node_wanted:
  fixes d :: "('e, 'u, 'f::zero) DerivationDag"
  assumes inv: "merge_inv b tp sub P d0 d r" and P: "one_to_one P" "(nd_drv_hash n, nd_drv_path n) \<in> P"
    and seen: "newly_inserted r \<union> fst ` set (contributions_recorded r) = nd_drv_hash ` set ns"
    and W: "wanted_inv b sub d0 ns d" and m: "merge_node b tp sub n d r = Some (d', r', None)"
  shows "wanted_inv b sub d0 (ns @ [n]) d'"
proof -
  let ?h = "nd_drv_hash n"
  have path: "full (drv_path s) = nd_drv_path n" if "nodes d ?h = Some s" for s
    using that merge_invD(6) [OF inv] one_to_oneD [OF P(1) _ P(2)] by (force simp: live_def)
  have fresh: "wanted_inv b sub d0 (ns @ [n]) d'"
    if v: "?h \<notin> newly_inserted r" "?h \<notin> fst ` set (contributions_recorded r)" "nodes d0 ?h = prior"
      and mint: "\<And>old. prior = Some old \<Longrightarrow> mints_epoch_on_resubmit (machine old) (nd_drv_path n \<notin> sub)"
      and t: "try_from_node n = Some (Inr s)" and f: "merge_fresh b tp n ?h prior s d1 r1 = (d', r')"
      and d1: "nodes d1 = (nodes d)(?h := None)" for prior s d1 r1
  proof -
    note ok = try_from_node_ok [OF t]
    obtain x where x: "nodes d' = (nodes d1)(?h \<mapsto> x)" "drv_path x = drv_path s"
      "wanted_by_build x = (case prior of None \<Rightarrow> Map.empty | Some old \<Rightarrow> wanted_by_build old)(b \<mapsto> nd_wanted_output_names n)"
      by (rule merge_fresh_wanted [OF f ok(4)])
    have "?h \<notin> nd_drv_hash ` set ns" using v(1,2) seen by blast
    from fresh_wanted_ok [OF this v(3) _ x(3), of sub] have "wanted_ok b sub d0 (ns @ [n]) ?h x"
      using mint x(2) ok(1) by simp
    thus ?thesis using wanted_inv_upd [OF W, of d' n x] x(1) d1 by simp
  qed
  consider (mint) old where "resubmit_prior sub n d r = Some old"
    | (new) "resubmit_prior sub n d r = None" "nodes d ?h = None"
    | (old) s where "resubmit_prior sub n d r = None" "nodes d ?h = Some s" by (metis not_None_eq)
  thus ?thesis
  proof cases
    case (mint old)
    hence o: "nodes d ?h = Some old" "?h \<notin> newly_inserted r" "mints_epoch_on_resubmit (machine old) (full (drv_path old) \<notin> sub)"
      using path by (auto simp: resubmit_prior_def split: if_splits option.splits)
    note pr = prior_step [OF inv o]
    show ?thesis
      using m fresh [OF o(2) pr(3,2)] o(3) path [OF o(1)]
      by (auto simp: merge_node_unfold mint Let_def split: option.splits sum.splits prod.splits)
  next
    case new
    show ?thesis
      using m fresh [OF vacate_none [OF inv new(2)], of _ d] new(2)
      by (auto simp: merge_node_unfold new Let_def fun_upd_idem split: option.splits sum.splits prod.splits)
  next
    case (old s)
    obtain s' r1 where e: "merge_existing b tp n ?h (s, r) = (s', r1)" by fastforce
    have d': "nodes d' = (nodes d)(?h \<mapsto> s')" using m by (auto simp: merge_node_unfold old e)
    have first: "nodes d0 ?h = Some s \<and> \<not> mints_epoch_on_resubmit (machine s) (full (drv_path s) \<notin> sub)"
      if "?h \<notin> nd_drv_hash ` set ns"
    proof -
      have v: "?h \<notin> newly_inserted r" "?h \<notin> fst ` set (contributions_recorded r)" using that seen by blast+
      thus ?thesis using unlogged_same [OF inv v] old path [OF old(2)] by (auto simp: resubmit_prior_def split: if_splits)
    qed
    have "wanted_ok b sub d0 ns ?h s" using W old(2) by (simp add: wanted_inv_def)
    from existing_wanted_ok [OF this first e] show ?thesis by (rule wanted_inv_upd [OF W d'])
  qed
qed

lemma merge_nodes_wanted:
  fixes d :: "('e, 'u, 'f::zero) DerivationDag"
  assumes P: "one_to_one P" "live d0 \<subseteq> P"
  shows "merge_inv b tp sub P d0 d r \<Longrightarrow> \<forall>n\<in>set ns. (nd_drv_hash n, nd_drv_path n) \<in> P \<Longrightarrow>
    newly_inserted r \<union> fst ` set (contributions_recorded r) = nd_drv_hash ` set ms \<Longrightarrow> wanted_inv b sub d0 ms d \<Longrightarrow>
    merge_nodes b tp sub ns d r = Some (d', r', None) \<Longrightarrow> wanted_inv b sub d0 (ms @ ns) d'"
proof (induction ns arbitrary: ms d r)
  case (Cons n ns)
  have n: "(nd_drv_hash n, nd_drv_path n) \<in> P" using Cons.prems(2) by simp
  obtain d1 r1 where x: "merge_node b tp sub n d r = Some (d1, r1, None)" "merge_nodes b tp sub ns d1 r1 = Some (d', r', None)"
    using Cons.prems(5) by (auto split: option.splits)
  from merge_node_outcome [OF Cons.prems(1) P n] x(1)
  have o: "merge_inv b tp sub P d0 d1 r1" "newly_inserted r1 \<union> fst ` set (contributions_recorded r1) = nd_drv_hash ` set (ms @ [n])"
    using Cons.prems(3) by (auto simp: node_outcome_def)
  have "wanted_inv b sub d0 (ms @ [n]) d1" by (rule merge_node_wanted [OF Cons.prems(1) P(1) n Cons.prems(3,4) x(1)])
  from Cons.IH [OF o(1) _ o(2) this x(2)] Cons.prems(2) show ?case by simp
qed simp

section \<open>Edges and the cycle check\<close>

lemma undoable_mirrored: "undoable b d0 d r \<Longrightarrow> mirrored d0 \<Longrightarrow> mirrored d"
  unfolding undoable_def mirrored_def by simp

definition resolved :: "('e, 'u, 'f) DerivationDag \<Rightarrow> DerivationEdge list \<Rightarrow> (string \<times> string) set" where
  "resolved d es = {(p, c). \<exists>e\<in>set es. path_to_hash d (parent_drv_path e) = Some p \<and> path_to_hash d (child_drv_path e) = Some c}"

lemma merge_edge_cases:
  assumes "merge_edge e (d, r) = (d', r')" "mirrored d"
  obtains (skip) "d' = d" "r' = r" "resolved d [e] = {}"
    | (seen) p c where "resolved d [e] = {(p, c)}" "c \<in> kids d p" "r' = r" "nodes d' = nodes d"
      "path_to_hash d' = path_to_hash d" "dag_soft_features d' = dag_soft_features d" "resubmit_floors d' = resubmit_floors d"
      "kids d' = kids d" "pars d' = pars d"
    | (new) p c where "resolved d [e] = {(p, c)}" "c \<notin> kids d p" "r' = r\<lparr>new_edges := new_edges r @ [(p, c)]\<rparr>" "nodes d' = nodes d"
      "path_to_hash d' = path_to_hash d" "dag_soft_features d' = dag_soft_features d" "resubmit_floors d' = resubmit_floors d"
      "kids d' = (kids d)(p := insert c (kids d p))" "pars d' = (pars d)(c := insert p (pars d c))"
proof (cases "path_to_hash d (parent_drv_path e)")
  case None
  thus ?thesis using assms skip by (simp add: merge_edge_def resolved_def)
next
  case p: (Some p)
  show ?thesis
  proof (cases "path_to_hash d (child_drv_path e)")
    case None
    thus ?thesis using p assms skip by (simp add: merge_edge_def resolved_def)
  next
    case c: (Some c)
    have res: "resolved d [e] = {(p, c)}" using p c by (auto simp: resolved_def)
    have d': "d' = d\<lparr>children := (children d)(p \<mapsto> insert c (kids d p)), parents := (parents d)(c \<mapsto> insert p (pars d c))\<rparr>"
      and r': "r' = (if c \<notin> kids d p then r\<lparr>new_edges := new_edges r @ [(p, c)]\<rparr> else r)"
      using assms(1) p c by (auto simp: merge_edge_def Let_def)
    have k: "kids d' = (kids d)(p := insert c (kids d p))" "pars d' = (pars d)(c := insert p (pars d c))"
      by (auto simp: d' kids_def pars_def fun_eq_iff)
    show ?thesis
    proof (cases "c \<in> kids d p")
      case True
      hence "p \<in> pars d c" using assms(2) by (simp add: mirrored_def)
      with True show ?thesis using k r' by (intro seen [OF res]) (simp_all add: d' insert_absorb fun_upd_idem)
    next
      case False
      thus ?thesis using k r' by (intro new [OF res]) (simp_all add: d')
    qed
  qed
qed

lemma resolved_Cons: "resolved d (e # es) = resolved d [e] \<union> resolved d es"
  by (auto simp: resolved_def)

lemma resolved_cong: "path_to_hash d' = path_to_hash d \<Longrightarrow> resolved d' es = resolved d es"
  by (simp add: resolved_def)

lemma merge_edge_undoable:
  assumes m: "merge_edge e (d, r) = (d', r')" and u: "undoable b d0 d r" and mir: "mirrored d0"
  shows "undoable b d0 d' r' \<and> nodes d' = nodes d \<and> path_to_hash d' = path_to_hash d
    \<and> dag_edges d' = dag_edges d \<union> resolved d [e] \<and> newly_inserted r' = newly_inserted r"
  using m undoable_mirrored [OF u mir]
proof (cases rule: merge_edge_cases)
  case skip
  thus ?thesis using u by simp
next
  case (seen p c)
  have "dag_edges d' = dag_edges d \<union> {(p, c)}" using seen(2) by (auto simp: dag_edges_def seen(8))
  thus ?thesis using u seen live_cong [of d' d] by (simp add: undoable_def)
next
  case (new p c)
  have L: "restoring r' = restoring r" "saved r' = saved r" "undo_node b r' = undo_node b r"
    using new by (simp_all add: restoring_def saved_def fun_eq_iff undo_node_record)
  have "dag_edges d' = dag_edges d \<union> {(p, c)}" by (auto simp: dag_edges_def new(8) split: if_splits)
  moreover have "(p, c) \<notin> dag_edges d0" using u new(2) by (auto simp: undoable_def dag_edges_def)
  moreover have "kids d' q = kids d0 q \<union> {x. (q, x) \<in> set (new_edges r')}"
    "pars d' x = pars d0 x \<union> {q. (q, x) \<in> set (new_edges r')}" for q x
    using undoableD(11,12) [OF u] by (auto simp: new(3,8,9))
  moreover have "new_edges r' = new_edges r @ [(p, c)]" using new(3) by simp
  moreover have "undoable b d0 d' r'"
    by (rule undoableI) (use undoable_parts [OF u] L live_cong [OF new(4)] calculation new in simp_all)
  ultimately show ?thesis by (simp add: new(1,3-5))
qed

lemma merge_edges_undoable:
  assumes mir: "mirrored d0"
  shows "merge_edges es (d, r) = (d', r') \<Longrightarrow> undoable b d0 d r \<Longrightarrow>
    undoable b d0 d' r' \<and> nodes d' = nodes d \<and> path_to_hash d' = path_to_hash d
    \<and> dag_edges d' = dag_edges d \<union> resolved d es \<and> newly_inserted r' = newly_inserted r"
proof (induction es arbitrary: d r)
  case Nil
  thus ?case by (simp add: merge_edges_def resolved_def)
next
  case (Cons e es)
  obtain d1 r1 where m: "merge_edge e (d, r) = (d1, r1)" by fastforce
  note s = merge_edge_undoable [OF m Cons.prems(2) mir]
  have "merge_edges es (d1, r1) = (d', r')" using Cons.prems(1) m by (simp add: merge_edges_def)
  from Cons.IH [OF this] s show ?case
    using resolved_cong [of d1 d es] by (auto simp: resolved_Cons [of d e es])
qed

lemma new_edge_on_cycle:
  assumes "(x, y) \<in> (R \<union> N)\<^sup>+"
  shows "(x, y) \<in> R\<^sup>+ \<or> (\<exists>(p, c)\<in>N. (x, p) \<in> (R \<union> N)\<^sup>* \<and> (c, y) \<in> (R \<union> N)\<^sup>*)"
  using assms
proof induction
  case (base y)
  thus ?case by auto
next
  case (step y z)
  show ?case
  proof (cases "(y, z) \<in> N")
    case True
    have "(x, y) \<in> (R \<union> N)\<^sup>*" using step.hyps(1) by (rule trancl_into_rtrancl)
    with True show ?thesis by auto
  next
    case False
    hence "(y, z) \<in> R" using step.hyps(2) by simp
    with step.IH show ?thesis by (auto intro: trancl_into_trancl rtrancl_into_rtrancl)
  qed
qed

lemma cycle_through_new:
  assumes "acyclic R" "\<not> acyclic (R \<union> N)"
  shows "\<exists>(p, c)\<in>N. (p, p) \<in> (R \<union> N)\<^sup>+"
proof -
  obtain x where x: "(x, x) \<in> (R \<union> N)\<^sup>+" using assms(2) by (auto simp: acyclic_def)
  from new_edge_on_cycle [OF this] assms(1)
  obtain p c where p: "(p, c) \<in> N" "(x, p) \<in> (R \<union> N)\<^sup>*" "(c, x) \<in> (R \<union> N)\<^sup>*" by (auto simp: acyclic_def)
  have "(p, c) \<in> (R \<union> N)\<^sup>+" using p(1) by auto
  also have "(c, p) \<in> (R \<union> N)\<^sup>*" using p(2,3) by (rule rtrancl_trans [rotated])
  finally show ?thesis using p(1) by auto
qed

text \<open>Searching from the parents of the new edges finds a cycle exactly when there is one.\<close>

lemma search_from_new:
  assumes iter: "hash_order iter" and wf: "dag_wf d" and acyc: "acyclic R" and e: "dag_edges d = R \<union> set (new_edges r)"
    and new: "newly_inserted r \<subseteq> dom (nodes d)" "finite (newly_inserted r)"
  shows "any_cycle_from (get_children iter d)
      (iter (newly_inserted r) @ map fst (filter (\<lambda>(p, _). p \<notin> newly_inserted r) (new_edges r))) Map.empty
    = Some (\<not> acyclic (dag_edges d))"
proof -
  let ?ss = "iter (newly_inserted r) @ map fst (filter (\<lambda>(p, _). p \<notin> newly_inserted r) (new_edges r))"
  have arcs: "arcs (get_children iter d) = dag_edges d" by (simp add: arcs_def dag_edges_def set_get_children [OF iter wf])
  have in_nodes: "p \<in> dom (nodes d) \<and> c \<in> dom (nodes d)" if "(p, c) \<in> dag_edges d" for p c
    using wf that unfolding dag_wf_def edges_in_def dag_edges_def by blast
  have ss: "set ?ss = newly_inserted r \<union> fst ` set (new_edges r)"
    using hash_orderD(1) [OF iter new(2)] by force
  have "any_cycle_from (get_children iter d) ?ss Map.empty = Some (\<exists>s\<in>set ?ss. cycle_below (get_children iter d) s)"
  proof (rule any_cycle_from_exact [where U = "dom (nodes d)"])
    show "finite (dom (nodes d))" using wf by (simp add: dag_wf_def)
    show "set (get_children iter d n) \<subseteq> dom (nodes d)" for n
      using in_nodes [of n] by (auto simp: set_get_children [OF iter wf] dag_edges_def)
    show "set ?ss \<subseteq> dom (nodes d)" unfolding ss using new(1) in_nodes e by force
  qed
  moreover have "(\<exists>s\<in>set ?ss. cycle_below (get_children iter d) s) \<longleftrightarrow> \<not> acyclic (dag_edges d)"
  proof
    assume "\<not> acyclic (dag_edges d)"
    then obtain p c where "(p, c) \<in> set (new_edges r)" "(p, p) \<in> (dag_edges d)\<^sup>+"
      using cycle_through_new [OF acyc] unfolding e by blast
    hence "p \<in> set ?ss" "cycle_below (get_children iter d) p"
      unfolding ss cycle_below_def arcs by (force, blast)
    thus "\<exists>s\<in>set ?ss. cycle_below (get_children iter d) s" by blast
  qed (auto simp: cycle_below_def arcs acyclic_def)
  ultimately show ?thesis by simp
qed

section \<open>Merging is all or nothing\<close>

text \<open>
  The hashes and paths a graph and a submission name. The gateway uses the store path of a derivation
  as its hash, so hashes and paths name each other one to one.
\<close>

definition named :: "('e, 'u, 'f) DerivationDag \<Rightarrow> DerivationNode list \<Rightarrow> (string \<times> string) set" where
  "named d ns = live d \<union> (\<lambda>n. (nd_drv_hash n, nd_drv_path n)) ` set ns"

definition submitted_edges ::
  "('e, 'u, 'f) DerivationDag \<Rightarrow> DerivationNode list \<Rightarrow> DerivationEdge list \<Rightarrow> (string \<times> string) set" where
  "submitted_edges d ns es =
     {(p, c). \<exists>e\<in>set es. (p, parent_drv_path e) \<in> named d ns \<and> (c, child_drv_path e) \<in> named d ns}"

text \<open>The loop over the nodes has run to its end.\<close>

definition merge_done ::
  "'u \<Rightarrow> string \<Rightarrow> string set \<Rightarrow> ('e, 'u, 'f) DerivationDag \<Rightarrow> DerivationNode list \<Rightarrow> ('e, 'u, 'f) DerivationDag
   \<Rightarrow> ('e, 'u, 'f) MergeResult \<Rightarrow> bool" where
  "merge_done b tp sub d0 ns d r \<longleftrightarrow>
     one_to_one (named d0 ns) \<and> merge_inv b tp sub (named d0 ns) d0 d r
     \<and> newly_inserted r \<union> fst ` set (contributions_recorded r) = nd_drv_hash ` set ns"

lemma merge_doneD:
  assumes "merge_done b tp sub d0 ns d r"
  shows "one_to_one (named d0 ns)" "merge_inv b tp sub (named d0 ns) d0 d r"
    "newly_inserted r \<union> fst ` set (contributions_recorded r) = nd_drv_hash ` set ns"
  using assms by (simp_all add: merge_done_def)

lemma untouched_nodes:
  assumes "merge_done b tp sub d0 ns d r" "h \<notin> nd_drv_hash ` set ns"
  shows "nodes d h = nodes d0 h"
proof -
  have "h \<notin> newly_inserted r" "h \<notin> fst ` set (contributions_recorded r)"
    using merge_doneD(3) [OF assms(1)] assms(2) by blast+
  from unlogged_same [OF merge_doneD(2) [OF assms(1)] this] show ?thesis by simp
qed

lemma merged_dom:
  assumes D: "merge_done b tp sub d0 ns d r"
  shows "dom (nodes d) = dom (nodes d0) \<union> nd_drv_hash ` set ns"
proof (rule set_eqI)
  fix h
  note inv = merge_doneD(2) [OF D] and all = merge_doneD(3) [OF D]
  consider (new) "h \<in> newly_inserted r" | (old) "h \<in> fst ` set (contributions_recorded r)" "h \<notin> newly_inserted r"
    | (out) "h \<notin> nd_drv_hash ` set ns" using all by blast
  thus "h \<in> dom (nodes d) \<longleftrightarrow> h \<in> dom (nodes d0) \<union> nd_drv_hash ` set ns"
  proof cases
    case new
    moreover have "h \<in> nd_drv_hash ` set ns" using all new by blast
    ultimately show ?thesis using merge_invD(7) [OF inv new] by auto
  next
    case old
    moreover have "h \<in> nd_drv_hash ` set ns" using all old(1) by blast
    ultimately show ?thesis using merge_invD(9) [OF inv, of h] by auto
  next
    case out
    thus ?thesis using untouched_nodes [OF D out] by auto
  qed
qed

lemma merged_live:
  assumes D: "merge_done b tp sub d0 ns d r"
  shows "live d = named d0 ns"
proof
  note inv = merge_doneD(2) [OF D]
  show "live d \<subseteq> named d0 ns" by (rule merge_invD(6) [OF inv])
  show "named d0 ns \<subseteq> live d"
  proof
    fix x assume x: "x \<in> named d0 ns"
    obtain h p where [simp]: "x = (h, p)" by (cases x)
    have "h \<in> dom (nodes d)" using x unfolding merged_dom [OF D] by (auto simp: named_def live_def)
    then obtain s where s: "nodes d h = Some s" by blast
    hence l: "(h, full (drv_path s)) \<in> live d" by (auto simp: live_def)
    hence "(h, full (drv_path s)) \<in> named d0 ns" using merge_invD(6) [OF inv] by blast
    hence "p = full (drv_path s)" using one_to_oneD [OF merge_doneD(1) [OF D]] x by auto
    thus "x \<in> live d" using l by simp
  qed
qed

lemma merged_paths:
  assumes D: "merge_done b tp sub d0 ns d r"
  shows "path_to_hash d p = Some h \<longleftrightarrow> (h, p) \<in> named d0 ns"
proof -
  note u = merge_invD(1) [OF merge_doneD(2) [OF D]]
  have "saved r \<subseteq> live d0" using saved_live [OF u] by auto
  thus ?thesis using undoableD(9) [OF u] unfolding merged_live [OF D] by (auto simp: named_def)
qed

lemma merged_resolved: "merge_done b tp sub d0 ns d r \<Longrightarrow> resolved d es = submitted_edges d0 ns es"
  by (simp add: resolved_def submitted_edges_def merged_paths)

lemma merged_node:
  assumes D: "merge_done b tp sub d0 ns d r" and n: "n \<in> set ns"
  shows "\<exists>s. nodes d (nd_drv_hash n) = Some s \<and> machine s = merged_machine sub d0 (nd_drv_hash n) (nd_drv_path n)
    \<and> interested_builds s = insert b (prior_interest d0 (nd_drv_hash n)) \<and> full (drv_path s) = nd_drv_path n"
proof -
  let ?h = "nd_drv_hash n"
  note inv = merge_doneD(2) [OF D]
  have path: "full (drv_path s) = nd_drv_path n" if "nodes d ?h = Some s" for s
  proof -
    have "(?h, full (drv_path s)) \<in> named d0 ns" using that merged_live [OF D] by (auto simp: live_def)
    moreover have "(?h, nd_drv_path n) \<in> named d0 ns" using n by (auto simp: named_def)
    ultimately show ?thesis using one_to_oneD [OF merge_doneD(1) [OF D]] by blast
  qed
  show ?thesis
  proof (cases "?h \<in> newly_inserted r")
    case True
    thus ?thesis using merge_invD(7) [OF inv True] path by auto
  next
    case False
    hence "?h \<in> fst ` set (contributions_recorded r)" using merge_doneD(3) [OF D] n by blast
    then obtain s where s: "nodes d ?h = Some s" "b \<in> interested_builds s"
      "\<not> mints_epoch_on_resubmit (machine s) (full (drv_path s) \<notin> sub)"
      using merge_invD(9) [OF inv, of ?h] False by auto
    have "?h \<notin> restoring r" using merge_invD(3) [OF inv] False by blast
    hence s0: "nodes d0 ?h = Some (undo_node b r ?h s)"
      using undoableD(7) [OF merge_invD(1) [OF inv] False] s(1) by simp
    have "insert b (interested_builds (undo_node b r ?h s)) = interested_builds s"
      using s(2) by (auto simp: undo_node_record)
    thus ?thesis using s s0 path [OF s(1)] by (simp add: merged_machine_def prior_interest_def)
  qed
qed

lemma merged_wf:
  assumes wf: "dag_wf d0" and D: "merge_done b tp sub d0 ns d r"
    and d': "undoable b d0 d' r'" "nodes d' = nodes d" "path_to_hash d' = path_to_hash d"
      "dag_edges d' = dag_edges d \<union> resolved d es"
  shows "dag_wf d'" "dag_edges d' = dag_edges d0 \<union> submitted_edges d0 ns es"
proof -
  note inv = merge_doneD(2) [OF D]
  have "kids d = kids d0" using undoableD(11) [OF merge_invD(1) [OF inv]] merge_invD(4) [OF inv] by (simp add: fun_eq_iff)
  hence "dag_edges d = dag_edges d0" by (simp add: dag_edges_def)
  thus e: "dag_edges d' = dag_edges d0 \<union> submitted_edges d0 ns es" using d'(4) merged_resolved [OF D, of es] by simp
  have "path_index_exact d'"
    unfolding path_index_exact_def d'(2,3) merged_paths [OF D] merged_live [OF D, symmetric] live_iff by simp
  moreover have "mirrored d'" using undoable_mirrored [OF d'(1)] wf by (simp add: dag_wf_def)
  moreover have "edges_in d'"
  proof -
    have "p \<in> dom (nodes d) \<and> c \<in> dom (nodes d)" if "(p, c) \<in> dag_edges d0" for p c
      using that wf unfolding merged_dom [OF D] dag_wf_def edges_in_def dag_edges_def by blast
    moreover have "p \<in> dom (nodes d) \<and> c \<in> dom (nodes d)" if "(p, c) \<in> submitted_edges d0 ns es" for p c
      using that unfolding submitted_edges_def merged_live [OF D, symmetric] by (auto simp: live_def)
    ultimately have "p \<in> dom (nodes d) \<and> c \<in> dom (nodes d)" if "(p, c) \<in> dag_edges d'" for p c using that e by blast
    thus ?thesis by (simp add: edges_in_def dag_edges_def d'(2))
  qed
  ultimately show "dag_wf d'" using merge_invD(2,5) [OF inv] by (simp add: dag_wf_def d'(2))
qed

definition merge_verdict ::
  "(string set \<Rightarrow> string list) \<Rightarrow> 'u \<Rightarrow> DerivationNode list \<Rightarrow> DerivationEdge list \<Rightarrow> ('e, 'u, 'f) DerivationDag
   \<Rightarrow> ('e, 'u, 'f) DerivationDag \<Rightarrow> DagError + ('e, 'u, 'f) MergeResult \<Rightarrow> bool" where
  "merge_verdict iter b ns es d d' res =
     (case res of
        Inl e \<Rightarrow> same_dag d' d
          \<and> (case e of
               CycleDetected \<Rightarrow> \<not> acyclic (dag_edges d \<union> submitted_edges d ns es)
             | InvalidDrvPath p source \<Rightarrow> p \<in> nd_drv_path ` set ns \<and> parse p = Some (Inl source))
      | Inr r \<Rightarrow> same_dag (rollback_merge iter b d' r) d)"

lemma merge_runs:
  fixes d :: "('e, 'u, 'f::zero) DerivationDag"
  assumes iter: "hash_order iter" and wf: "dag_wf d" and acyc: "acyclic (dag_edges d)" and one: "one_to_one (named d ns)"
  shows "\<exists>d' res. merge iter b ns es tp d = Some (d', res) \<and> merge_verdict iter b ns es d d' res
    \<and> (case res of
         Inl _ \<Rightarrow> True
       | Inr r \<Rightarrow> dag_wf d' \<and> acyclic (dag_edges d') \<and> dag_edges d' = dag_edges d \<union> submitted_edges d ns es
           \<and> wanted_inv b (child_drv_path ` set es) d ns d'
           \<and> (\<exists>d1 r1. merge_done b tp (child_drv_path ` set es) d ns d1 r1 \<and> nodes d' = nodes d1))"
proof -
  let ?sub = "child_drv_path ` set es" and ?P = "named d ns"
  have P: "live d \<subseteq> ?P" "\<forall>n\<in>set ns. (nd_drv_hash n, nd_drv_path n) \<in> ?P" by (auto simp: named_def)
  obtain d1 r1 e where m: "merge_nodes b tp ?sub ns d merge_log_new = Some (d1, r1, e)"
    and o: "case e of
           None \<Rightarrow> merge_inv b tp ?sub ?P d d1 r1 \<and> newly_inserted r1 \<union> fst ` set (contributions_recorded r1) = nd_drv_hash ` set ns
         | Some err \<Rightarrow> undoable b d d1 r1
             \<and> (\<exists>n\<in>set ns. \<exists>source. err = InvalidDrvPath (nd_drv_path n) source \<and> parse (nd_drv_path n) = Some (Inl source))"
    using merge_nodes_outcome [OF one P(1) merge_inv_start [OF wf P(1) one] P(2), of b tp ?sub]
    unfolding merge_log_new_fields list.set image_empty Un_empty_right by blast
  show ?thesis
  proof (cases e)
    case (Some err)
    hence u: "undoable b d d1 r1"
      and "\<exists>n\<in>set ns. \<exists>source. err = InvalidDrvPath (nd_drv_path n) source \<and> parse (nd_drv_path n) = Some (Inl source)"
      using o by simp_all
    moreover have "merge iter b ns es tp d = Some (rollback_merge iter b d1 r1, Inl err)" using m Some by (simp add: merge_def)
    ultimately show ?thesis using rollback_restores [OF u wf iter] by (auto simp: merge_verdict_def)
  next
    case None
    hence D: "merge_done b tp ?sub d ns d1 r1" using o one by (simp add: merge_done_def)
    note inv = merge_doneD(2) [OF D]
    have "newly_inserted merge_log_new \<union> fst ` set (contributions_recorded merge_log_new) = nd_drv_hash ` set []" by simp
    from merge_nodes_wanted [OF one P(1) merge_inv_start [OF wf P(1) one] P(2) this wanted_inv_start] m None
    have w1: "wanted_inv b ?sub d ns d1" by simp
    obtain d2 r2 where e2: "merge_edges es (d1, r1) = (d2, r2)" by fastforce
    have "mirrored d" using wf by (simp add: dag_wf_def)
    note E = merge_edges_undoable [OF this e2 merge_invD(1) [OF inv]]
    have W: "dag_wf d2" "dag_edges d2 = dag_edges d \<union> submitted_edges d ns es"
      using merged_wf [OF wf D, of d2 r2 es] E by blast+
    have U: "undoable b d d2 r2" using E by blast
    have w2: "wanted_inv b ?sub d ns d2" using w1 E by (simp add: wanted_inv_def)
    have "dag_edges d2 = dag_edges d \<union> set (new_edges r2)"
      by (auto simp: dag_edges_def undoableD(11) [OF U])
    moreover have "newly_inserted r2 \<subseteq> dom (nodes d2)" using E merge_doneD(3) [OF D] merged_dom [OF D] by auto
    moreover have "finite (newly_inserted r2)" using undoableD(1) [OF U] .
    ultimately have c: "any_cycle_from (get_children iter d2)
        (iter (newly_inserted r2) @ map fst (filter (\<lambda>(p, _). p \<notin> newly_inserted r2) (new_edges r2))) Map.empty
      = Some (\<not> acyclic (dag_edges d2))"
      by (intro search_from_new [OF iter W(1) acyc])
    have run: "merge iter b ns es tp d = (if acyclic (dag_edges d2) then Some (d2, Inr r2)
        else Some (rollback_merge iter b d2 r2, Inl CycleDetected))"
      using m None e2 c by (simp add: merge_def)
    have "same_dag (rollback_merge iter b d2 r2) d" using E by (intro rollback_restores [OF _ wf iter]) blast
    thus ?thesis using run W D E w2 by (cases "acyclic (dag_edges d2)") (auto simp: merge_verdict_def)
  qed
qed

lemma ex_dag_live: "live ex_dag = {(''p'', ''p''), (''c'', ''c'')}"
  by (auto simp: live_def ex_dag_def ex_node_def)

lemma ex_dag_named: "one_to_one (named ex_dag [])"
  by (auto simp: named_def ex_dag_live one_to_one_def)

text \<open>
  C5. Merging a submission is all or nothing. On a well-formed acyclic graph, with hashes and paths
  naming each other one to one, \<open>merge\<close> never panics and always returns. When it rejects, the graph is
  what it was before, and the reason is true: some submitted path does not parse, or the
  submitted edges close a cycle. When it accepts, a later rollback with the returned log, as
  the caller does when persisting fails, also gives back the graph before the merge.
\<close>

theorem merge_all_or_nothing:
  fixes d :: "('e, 'u, 'f::zero) DerivationDag"
  assumes "hash_order iter" "dag_wf d" "acyclic (dag_edges d)" "one_to_one (named d ns)"
  shows "\<exists>d' res. merge iter b ns es tp d = Some (d', res) \<and> merge_verdict iter b ns es d d' res"
  using merge_runs [OF assms, of b es tp] by blast

theorem merge_all_or_nothing_witness:
  "\<exists>d'. merge sorted_list_of_set 7 [] [\<lparr>parent_drv_path = ''c'', child_drv_path = ''p''\<rparr>] [] ex_dag
        = Some (d', Inl CycleDetected) \<and> same_dag d' ex_dag"
proof -
  let ?es = "[\<lparr>parent_drv_path = ''c'', child_drv_path = ''p''\<rparr>]"
  note h = sorted_hash_order ex_dag_wf ex_dag_acyclic ex_dag_named
  obtain d' res where m: "merge sorted_list_of_set 7 [] ?es [] ex_dag = Some (d', res)"
    and v: "merge_verdict sorted_list_of_set 7 [] ?es ex_dag d' res"
    using merge_all_or_nothing [OF h, of 7 ?es "[]"] by blast
  have "(''p'', ''c'') \<in> dag_edges ex_dag \<union> submitted_edges ex_dag [] ?es"
    "(''c'', ''p'') \<in> dag_edges ex_dag \<union> submitted_edges ex_dag [] ?es"
    by (simp_all add: ex_dag_edges submitted_edges_def named_def ex_dag_live)
  hence "(''p'', ''p'') \<in> (dag_edges ex_dag \<union> submitted_edges ex_dag [] ?es)\<^sup>+"
    by (meson r_into_trancl trancl_into_trancl)
  hence "\<not> acyclic (dag_edges ex_dag \<union> submitted_edges ex_dag [] ?es)" by (auto simp: acyclic_def)
  hence "\<not> isl res \<Longrightarrow> False" using merge_runs [OF h, of 7 ?es "[]"] m by (auto split: sum.splits)
  then obtain e where "res = Inl e" by (cases res) auto
  thus ?thesis using m v by (cases e) (auto simp: merge_verdict_def)
qed

text \<open>
  C13. What an accepted merge does. The new graph is well-formed and acyclic; its edges are the old
  ones and exactly the submitted ones whose ends are known; its nodes are the old ones and the
  submitted ones, and only submitted nodes are touched. A submitted node ends with the
  submitting build among its interested builds, and its status machine is untouched unless
  the node is new or its state mints a fresh demand epoch: then it starts over as Created with the
  parked floor, or one cycle more than before. It ends with a wanted-outputs contribution of the
  build that asks for exactly the outputs some submitted node of that hash asks for, together with
  those the build asked for before unless a fresh epoch was minted; the contributions of
  the other builds are kept.
\<close>

theorem merge_accepts_exactly:
  fixes d :: "('e, 'u, 'f::zero) DerivationDag"
  assumes "hash_order iter" "dag_wf d" "acyclic (dag_edges d)" "one_to_one (named d ns)"
    and "merge iter b ns es tp d = Some (d', Inr r)"
  shows "dag_wf d' \<and> acyclic (dag_edges d') \<and> dag_edges d' = dag_edges d \<union> submitted_edges d ns es
    \<and> dom (nodes d') = dom (nodes d) \<union> nd_drv_hash ` set ns
    \<and> (\<forall>h. h \<notin> nd_drv_hash ` set ns \<longrightarrow> nodes d' h = nodes d h)
    \<and> (\<forall>n\<in>set ns. \<exists>s w. nodes d' (nd_drv_hash n) = Some s
         \<and> machine s = merged_machine (child_drv_path ` set es) d (nd_drv_hash n) (nd_drv_path n)
         \<and> interested_builds s = insert b (prior_interest d (nd_drv_hash n))
         \<and> wanted_by_build s b = Some w
         \<and> (\<forall>nm. wants w nm \<longleftrightarrow>
              (\<exists>n'\<in>set ns. nd_drv_hash n' = nd_drv_hash n \<and> wants (nd_wanted_output_names n') nm)
              \<or> (\<exists>w0. kept_wanted (child_drv_path ` set es) d (nd_drv_hash n) (nd_drv_path n) b = Some w0 \<and> wants w0 nm))
         \<and> (\<forall>b'. b' \<noteq> b \<longrightarrow> wanted_by_build s b' = prior_wanted d (nd_drv_hash n) b'))"
proof -
  let ?sub = "child_drv_path ` set es"
  obtain d1 r1 where W: "dag_wf d'" "acyclic (dag_edges d')" "dag_edges d' = dag_edges d \<union> submitted_edges d ns es"
    and w: "wanted_inv b ?sub d ns d'" and D: "merge_done b tp ?sub d ns d1 r1" and n: "nodes d' = nodes d1"
    using merge_runs [OF assms(1-4), of b es tp] assms(5) by auto
  have "\<exists>s w. nodes d' (nd_drv_hash n) = Some s
         \<and> machine s = merged_machine ?sub d (nd_drv_hash n) (nd_drv_path n)
         \<and> interested_builds s = insert b (prior_interest d (nd_drv_hash n)) \<and> wanted_by_build s b = Some w
         \<and> (\<forall>nm. wants w nm \<longleftrightarrow> asked ns (nd_drv_hash n) nm
              \<or> (\<exists>w0. kept_wanted ?sub d (nd_drv_hash n) (nd_drv_path n) b = Some w0 \<and> wants w0 nm))
         \<and> (\<forall>b'. b' \<noteq> b \<longrightarrow> wanted_by_build s b' = prior_wanted d (nd_drv_hash n) b')" if q: "n \<in> set ns" for n
  proof -
    obtain s where s: "nodes d' (nd_drv_hash n) = Some s" "machine s = merged_machine ?sub d (nd_drv_hash n) (nd_drv_path n)"
      "interested_builds s = insert b (prior_interest d (nd_drv_hash n))" "full (drv_path s) = nd_drv_path n"
      using merged_node [OF D q] \<open>nodes d' = nodes d1\<close> by auto
    have "wanted_ok b ?sub d ns (nd_drv_hash n) s" using w s(1) by (simp add: wanted_inv_def)
    thus ?thesis using s q by (auto simp: wanted_ok_def)
  qed
  thus ?thesis using W n merged_dom [OF D] untouched_nodes [OF D] by (simp add: asked_def)
qed

definition ex_submission :: DerivationNode where
  "ex_submission = \<lparr>nd_drv_path = ''c'', nd_drv_hash = ''c'', nd_pname = [], nd_system = [], nd_required_features = [],
     nd_output_names = [''out''], nd_is_fixed_output = False, nd_expected_output_paths = [], nd_wanted_output_names = [''out''],
     nd_drv_content = []\<rparr>"

lemma ex_submission_merges:
  "\<exists>d' r. merge sorted_list_of_set 7 [ex_submission] [\<lparr>parent_drv_path = ''p'', child_drv_path = ''c''\<rparr>] [] ex_dag = Some (d', Inr r)"
  by (simp add: merge_def merge_node_def ex_submission_def ex_dag_def ex_node_def merge_log_new_def merge_existing_eq
      backfill_fires_def mints_epoch_on_resubmit_def resubmit_disposition_def fresh_machine_def merge_edges_def merge_edge_def
      kids_def pars_def Let_def)

theorem merge_accepts_exactly_witness:
  "\<exists>d' r s. merge sorted_list_of_set 7 [ex_submission] [\<lparr>parent_drv_path = ''p'', child_drv_path = ''c''\<rparr>] [] ex_dag = Some (d', Inr r)
     \<and> dag_wf d' \<and> nodes d' ''c'' = Some s \<and> interested_builds s = {5, 7}
     \<and> (\<exists>w. wanted_by_build s 7 = Some w \<and> (\<forall>nm. wants w nm \<longleftrightarrow> nm = ''out''))"
proof -
  let ?es = "[\<lparr>parent_drv_path = ''p'', child_drv_path = ''c''\<rparr>]"
  obtain d' r where m: "merge sorted_list_of_set 7 [ex_submission] ?es [] ex_dag = Some (d', Inr r)"
    using ex_submission_merges by blast
  have "one_to_one (named ex_dag [ex_submission])"
    by (auto simp: named_def ex_dag_live one_to_one_def ex_submission_def)
  note x = merge_accepts_exactly [OF sorted_hash_order ex_dag_wf ex_dag_acyclic this m]
  then obtain s w where s: "nodes d' ''c'' = Some s" "interested_builds s = insert 7 (prior_interest ex_dag ''c'')"
    "wanted_by_build s 7 = Some w"
    "\<forall>nm. wants w nm \<longleftrightarrow> wants [''out''] nm \<or> (\<exists>w0. kept_wanted {''c''} ex_dag ''c'' ''c'' 7 = Some w0 \<and> wants w0 nm)"
    by (auto simp: ex_submission_def)
  moreover have "prior_interest ex_dag ''c'' = {5}" "kept_wanted {''c''} ex_dag ''c'' ''c'' 7 = None"
    by (simp_all add: prior_interest_def kept_wanted_def ex_dag_def ex_node_def)
  ultimately have "nodes d' ''c'' = Some s" "interested_builds s = {5, 7}"
    "\<exists>w. wanted_by_build s 7 = Some w \<and> (\<forall>nm. wants w nm \<longleftrightarrow> nm = ''out'')" by (auto simp: wants_def)
  with m conjunct1 [OF x] show ?thesis by (intro exI [of _ d'] exI [of _ r] exI [of _ s]) simp
qed

end
