(* ===== verification/Sched_Topo.thy ===== *)
theory Sched_Topo
  imports Sched_Dag
begin

text \<open>
  Topological order and critical-path priorities (\<open>kahn_topo\<close> in \<open>rio-scheduler/src/dag/mod.rs\<close> and
  \<open>rio-scheduler/src/critical_path.rs\<close>). \<open>None\<close> is the underflow panic of an in-degree, which the
  lemmas exclude. Durations have a type \<open>'f\<close> with a zero, an addition and a linear order and no law that
  relates them, as finite floating-point numbers do. The lookups of the duration estimator
  are the arguments \<open>ref_estimate\<close> and \<open>peek_t_min\<close>, the fallback duration, 60 seconds in the code,
  is \<open>default_duration\<close>, and \<open>uuid_string\<close> and \<open>tenant_of\<close> print a tenant and look up that of a build.
\<close>

section \<open>Kahn's algorithm\<close>

fun kahn_relax :: "string list \<Rightarrow> (string \<rightharpoonup> nat) \<Rightarrow> string list \<Rightarrow> ((string \<rightharpoonup> nat) \<times> string list) option" where
  "kahn_relax [] deg q = Some (deg, q)"
| "kahn_relax (p # ps) deg q =
     (case deg p of
        None \<Rightarrow> kahn_relax ps deg q
      | Some k \<Rightarrow>
          if k = 0 then None
          else kahn_relax ps (deg(p \<mapsto> k - 1)) (if k - 1 = 0 then q @ [p] else q))"

partial_function (option) kahn_loop ::
  "(string \<Rightarrow> string list) \<Rightarrow> string list \<Rightarrow> (string \<rightharpoonup> nat) \<Rightarrow> string list \<Rightarrow> string list option" where
  "kahn_loop parents_of q deg order =
     (case q of
        [] \<Rightarrow> Some order
      | h # q' \<Rightarrow>
          (case kahn_relax (parents_of h) deg q' of
             None \<Rightarrow> None
           | Some (deg', q'') \<Rightarrow> kahn_loop parents_of q'' deg' (order @ [h])))"

definition kahn_topo ::
  "(string set \<Rightarrow> string list) \<Rightarrow> ('e, 'u, 'f) DerivationDag \<Rightarrow> string set \<Rightarrow> string list option" where
  "kahn_topo iter d scope =
     (let in_degree = (\<lambda>h. if h \<in> scope then Some (length (filter (\<lambda>c. c \<in> scope) (get_children iter d h))) else None);
          queue = filter (\<lambda>h. in_degree h = Some 0) (iter scope)
      in kahn_loop (get_parents iter d) queue in_degree [])"

section \<open>Priorities\<close>

definition nonterminal_child_max ::
  "(string set \<Rightarrow> string list) \<Rightarrow> ('e, 'u, 'f::{zero, linorder}) DerivationDag \<Rightarrow> string \<Rightarrow> 'f" where
  "nonterminal_child_max iter d h =
     foldl max 0
       (List.map_filter
         (\<lambda>c. case nodes d c of
                None \<Rightarrow> None
              | Some n \<Rightarrow> if status_is_terminal (node_status n) then None else Some (priority n))
         (get_children iter d h))"

definition recompute_node ::
  "(string set \<Rightarrow> string list) \<Rightarrow> string \<Rightarrow> ('e, 'u, 'f::{zero, plus, linorder}) DerivationDag \<Rightarrow> ('e, 'u, 'f) DerivationDag" where
  "recompute_node iter h d =
     (let max_child = nonterminal_child_max iter d h
      in modify_node h (\<lambda>s. s\<lparr>priority := est_duration s + max_child\<rparr>) d)"

definition topo_recompute ::
  "(string set \<Rightarrow> string list) \<Rightarrow> ('e, 'u, 'f::{zero, plus, linorder}) DerivationDag \<Rightarrow> string set
   \<Rightarrow> ('e, 'u, 'f) DerivationDag option" where
  "topo_recompute iter d scope =
     (case kahn_topo iter d scope of None \<Rightarrow> None | Some order \<Rightarrow> Some (fold (recompute_node iter) order d))"

partial_function (option) cone_loop ::
  "(string \<Rightarrow> string list) \<Rightarrow> string list \<Rightarrow> string set \<Rightarrow> string set option" where
  "cone_loop parents_of q cone =
     (case q of
        [] \<Rightarrow> Some cone
      | h # q' \<Rightarrow> if h \<in> cone then cone_loop parents_of q' cone
                  else cone_loop parents_of (q' @ parents_of h) (insert h cone))"

definition update_ancestors ::
  "(string set \<Rightarrow> string list) \<Rightarrow> ('e, 'u, 'f::{zero, plus, linorder}) DerivationDag \<Rightarrow> string
   \<Rightarrow> ('e, 'u, 'f) DerivationDag option" where
  "update_ancestors iter d from =
     (case cone_loop (get_parents iter d) (get_parents iter d from) {} of
        None \<Rightarrow> None
      | Some cone \<Rightarrow> topo_recompute iter d cone)"

record ModelKey =
  mk_pname :: string
  mk_system :: string
  mk_tenant :: string

definition attributed_tenant :: "('u \<Rightarrow> 'u option) \<Rightarrow> ('e, 'u::linorder, 'f) DagNode \<Rightarrow> 'u option" where
  "attributed_tenant tenant_of s =
     (let tenants = {u. \<exists>b\<in>interested_builds s. tenant_of b = Some u}
      in if tenants = {} then None else Some (Min tenants))"

definition model_key_for ::
  "('u \<Rightarrow> string) \<Rightarrow> ('u \<Rightarrow> 'u option) \<Rightarrow> ('e, 'u::linorder, 'f) DagNode \<Rightarrow> ModelKey option" where
  "model_key_for uuid_string tenant_of s =
     (case pname s of
        None \<Rightarrow> None
      | Some p \<Rightarrow> Some \<lparr>mk_pname = p, mk_system = drv_system s,
          mk_tenant = (case attributed_tenant tenant_of s of None \<Rightarrow> [] | Some u \<Rightarrow> uuid_string u)\<rparr>)"

text \<open>\<open>model_key_for(..).and_then(lookup)\<close>, the argument of \<open>unwrap_or\<close> in both entry points.\<close>

definition key_estimate ::
  "('u \<Rightarrow> string) \<Rightarrow> ('u \<Rightarrow> 'u option) \<Rightarrow> (ModelKey \<Rightarrow> 'f option) \<Rightarrow> ('e, 'u::linorder, 'f) DagNode \<Rightarrow> 'f option" where
  "key_estimate uuid_string tenant_of lookup s =
     (case model_key_for uuid_string tenant_of s of None \<Rightarrow> None | Some k \<Rightarrow> lookup k)"

text \<open>Step 1 of both entry points: the estimate and the number of direct dependents, a \<open>usize\<close> cast to \<open>u32\<close>.\<close>

definition set_estimate ::
  "(('e, 'u, 'f) DagNode \<Rightarrow> 'f option) \<Rightarrow> 'f \<Rightarrow> string \<Rightarrow> ('e, 'u, 'f) DerivationDag \<Rightarrow> ('e, 'u, 'f) DerivationDag" where
  "set_estimate estimate default_duration h d =
     (let n = parents_count d h
      in modify_node h (\<lambda>s. s\<lparr>est_duration := (case estimate s of Some t \<Rightarrow> t | None \<Rightarrow> default_duration),
                              unblocks := of_nat n\<rparr>) d)"

definition full_sweep ::
  "(string set \<Rightarrow> string list) \<Rightarrow> ('u \<Rightarrow> string) \<Rightarrow> ('u \<Rightarrow> 'u option) \<Rightarrow> (ModelKey \<Rightarrow> 'f option) \<Rightarrow> 'f
   \<Rightarrow> ('e, 'u::linorder, 'f::{zero, plus, linorder}) DerivationDag \<Rightarrow> ('e, 'u, 'f) DerivationDag option" where
  "full_sweep iter uuid_string tenant_of peek_t_min default_duration d =
     (let non_terminal = {h. \<exists>s. nodes d h = Some s \<and> \<not> status_is_terminal (node_status s)}
      in if non_terminal = {} then Some d
         else topo_recompute iter
                (fold (set_estimate (key_estimate uuid_string tenant_of peek_t_min) default_duration) (iter non_terminal) d) non_terminal)"

fun propagate_tops ::
  "(string set \<Rightarrow> string list) \<Rightarrow> string set \<Rightarrow> string list \<Rightarrow> ('e, 'u, 'f::{zero, plus, linorder}) DerivationDag
   \<Rightarrow> ('e, 'u, 'f) DerivationDag option" where
  "propagate_tops iter new [] d = Some d"
| "propagate_tops iter new (h # hs) d =
     (if list_ex (\<lambda>p. p \<notin> new) (get_parents iter d h)
      then (case update_ancestors iter d h of None \<Rightarrow> None | Some d' \<Rightarrow> propagate_tops iter new hs d')
      else propagate_tops iter new hs d)"

definition compute_initial ::
  "(string set \<Rightarrow> string list) \<Rightarrow> ('u \<Rightarrow> string) \<Rightarrow> ('u \<Rightarrow> 'u option) \<Rightarrow> (ModelKey \<Rightarrow> 'f option) \<Rightarrow> 'f \<Rightarrow> string set
   \<Rightarrow> ('e, 'u::linorder, 'f::{zero, plus, linorder}) DerivationDag \<Rightarrow> ('e, 'u, 'f) DerivationDag option" where
  "compute_initial iter uuid_string tenant_of ref_estimate default_duration new d =
     (if new = {} then Some d
      else case topo_recompute iter
                  (fold (set_estimate (key_estimate uuid_string tenant_of ref_estimate) default_duration) (iter new) d) new of
             None \<Rightarrow> None
           | Some d' \<Rightarrow> propagate_tops iter new (iter new) d')"

section \<open>The order is complete and children-first\<close>

lemma kahn_relax_run:
  assumes "distinct ps" "\<forall>p\<in>set ps. deg p \<noteq> Some 0"
  shows "kahn_relax ps deg q =
    Some (\<lambda>p. if p \<in> set ps then map_option (\<lambda>k. k - 1) (deg p) else deg p, q @ filter (\<lambda>p. deg p = Some 1) ps)"
  using assms
proof (induction ps arbitrary: deg q)
  case (Cons p ps)
  show ?case
  proof (cases "deg p")
    case None
    thus ?thesis using Cons by (auto simp: fun_eq_iff)
  next
    case (Some k)
    let ?deg = "deg(p \<mapsto> k - 1)" and ?q = "if k - 1 = 0 then q @ [p] else q"
    have k: "k \<noteq> 0" and p: "p \<notin> set ps" using Some Cons.prems by auto
    have "kahn_relax (p # ps) deg q = kahn_relax ps ?deg ?q" using Some k by simp
    also have "\<dots> = Some (\<lambda>x. if x \<in> set ps then map_option (\<lambda>k. k - 1) (?deg x) else ?deg x, ?q @ filter (\<lambda>x. ?deg x = Some 1) ps)"
      using Cons.prems p by (intro Cons.IH) auto
    also have "(\<lambda>x. if x \<in> set ps then map_option (\<lambda>k. k - 1) (?deg x) else ?deg x)
        = (\<lambda>x. if x \<in> set (p # ps) then map_option (\<lambda>k. k - 1) (deg x) else deg x)"
      using Some p by auto
    also have "filter (\<lambda>x. ?deg x = Some 1) ps = filter (\<lambda>x. deg x = Some 1) ps" using p by (intro filter_cong) auto
    also have "?q @ filter (\<lambda>x. deg x = Some 1) ps = q @ filter (\<lambda>x. deg x = Some 1) (p # ps)" using Some k by simp
    finally show ?thesis .
  qed
qed (simp add: fun_eq_iff)

text \<open>A list in which every node comes after its children in the scope.\<close>

fun children_first :: "('e, 'u, 'f) DerivationDag \<Rightarrow> string set \<Rightarrow> string set \<Rightarrow> string list \<Rightarrow> bool" where
  "children_first d scope done [] = True"
| "children_first d scope done (h # hs) = (kids d h \<inter> scope \<subseteq> done \<and> children_first d scope (insert h done) hs)"

lemma children_first_snoc:
  "children_first d scope D (hs @ [h]) \<longleftrightarrow> children_first d scope D hs \<and> kids d h \<inter> scope \<subseteq> D \<union> set hs"
  by (induction hs arbitrary: D) auto

definition kahn_inv ::
  "('e, 'u, 'f) DerivationDag \<Rightarrow> string set \<Rightarrow> string list \<Rightarrow> (string \<rightharpoonup> nat) \<Rightarrow> string list \<Rightarrow> bool" where
  "kahn_inv d scope q deg order \<longleftrightarrow>
     distinct (order @ q) \<and> set (order @ q) \<subseteq> scope \<and> children_first d scope {} order
     \<and> (\<forall>h. deg h = (if h \<in> scope then Some (card (kids d h \<inter> scope - set order)) else None))
     \<and> (\<forall>h\<in>scope. kids d h \<inter> scope \<subseteq> set order \<longleftrightarrow> h \<in> set (order @ q))"

lemma kahn_step:
  assumes iter: "hash_order iter" and wf: "dag_wf d" and fin: "finite scope" and inv: "kahn_inv d scope (h # q) deg order"
  obtains deg' q' where "kahn_relax (get_parents iter d h) deg q = Some (deg', q')" "kahn_inv d scope q' deg' (order @ [h])"
proof -
  let ?ps = "get_parents iter d h" and ?left = "\<lambda>p. kids d p \<inter> scope - set order"
  have ps: "set ?ps = pars d h" "distinct ?ps" using set_get_parents [OF iter wf] distinct_get_parents [OF iter wf] by auto
  have m: "c \<in> kids d p \<longleftrightarrow> p \<in> pars d c" for p c using wf by (simp add: dag_wf_def mirrored_def)
  have i: "distinct (order @ h # q)" "set (order @ h # q) \<subseteq> scope" "children_first d scope {} order"
    and deg: "\<And>p. deg p = (if p \<in> scope then Some (card (?left p)) else None)"
    and ready: "\<And>p. p \<in> scope \<Longrightarrow> kids d p \<inter> scope \<subseteq> set order \<longleftrightarrow> p \<in> set (order @ h # q)"
    using inv by (auto simp: kahn_inv_def)
  have hl: "h \<in> ?left p" if "p \<in> pars d h" for p using that i(1,2) m by auto
  have fl: "finite (?left p)" for p using fin by auto
  have pos: "card (?left p) \<noteq> 0" if "p \<in> pars d h" for p using hl [OF that] fl [of p] by auto
  have left': "kids d p \<inter> scope - set (order @ [h]) = ?left p - {h}" for p by auto
  let ?deg = "\<lambda>p. if p \<in> set ?ps then map_option (\<lambda>k. k - 1) (deg p) else deg p"
  let ?q = "q @ filter (\<lambda>p. deg p = Some 1) ?ps"
  have r: "kahn_relax ?ps deg q = Some (?deg, ?q)" using pos deg ps by (intro kahn_relax_run) auto
  have deg': "?deg p = (if p \<in> scope then Some (card (kids d p \<inter> scope - set (order @ [h]))) else None)" for p
  proof (cases "p \<in> pars d h")
    case True
    thus ?thesis using hl [OF True] unfolding left' by (simp add: deg ps(1))
  next
    case False
    hence "?left p - {h} = ?left p" using m [of h p] by auto
    thus ?thesis using False unfolding left' by (simp add: deg ps(1))
  qed
  have one: "deg p = Some 1 \<longleftrightarrow> p \<in> scope \<and> ?left p = {h}" if "p \<in> pars d h" for p
  proof -
    have "card (?left p) = 1 \<longleftrightarrow> ?left p = {h}" using hl [OF that] by (metis card_1_singletonE is_singletonI is_singleton_altdef singletonD)
    thus ?thesis by (simp add: deg)
  qed
  have ready': "kids d p \<inter> scope \<subseteq> set (order @ [h]) \<longleftrightarrow> p \<in> set (order @ [h] @ ?q)" if p: "p \<in> scope" for p
  proof (cases "p \<in> pars d h")
    case True
    hence "p \<notin> set (order @ h # q)" using ready [OF p] hl [OF True] by auto
    moreover have "kids d p \<inter> scope \<subseteq> set (order @ [h]) \<longleftrightarrow> ?left p = {h}" using hl [OF True] by auto
    moreover have "p \<in> set (order @ [h] @ ?q) \<longleftrightarrow> p \<in> set (order @ h # q) \<or> deg p = Some 1" using True ps(1) by auto
    ultimately show ?thesis using one [OF True] p by blast
  next
    case False
    hence "p \<in> set (order @ [h] @ ?q) \<longleftrightarrow> p \<in> set (order @ h # q)" using ps(1) by auto
    moreover have "kids d p \<inter> scope \<subseteq> set (order @ [h]) \<longleftrightarrow> kids d p \<inter> scope \<subseteq> set order"
      using m [of h p] False by auto
    ultimately show ?thesis using ready [OF p] by blast
  qed
  have new: "p \<in> scope \<and> p \<notin> set (order @ h # q)" if "p \<in> set (filter (\<lambda>p. deg p = Some 1) ?ps)" for p
  proof -
    have p: "p \<in> pars d h" "deg p = Some 1" using that ps(1) by auto
    hence "p \<in> scope" "\<not> kids d p \<inter> scope \<subseteq> set order" using one [OF p(1)] by auto
    thus ?thesis using ready [of p] by blast
  qed
  have "distinct ((order @ [h]) @ ?q)" using i(1) new ps(2) by (auto simp: distinct_filter)
  moreover have "set ((order @ [h]) @ ?q) \<subseteq> scope" using i(2) new by auto
  moreover have "children_first d scope {} (order @ [h])"
    using i(2,3) ready [of h] by (simp add: children_first_snoc)
  ultimately have "kahn_inv d scope ?q ?deg (order @ [h])"
    unfolding kahn_inv_def using deg' ready' by (intro conjI allI ballI) (assumption | simp)+
  with r show ?thesis by (rule that)
qed

lemma dag_edges_finite: "dag_wf d \<Longrightarrow> finite (dag_edges d)"
  by (rule finite_subset [of _ "dom (nodes d) \<times> dom (nodes d)"]) (auto simp: dag_wf_def edges_in_def dag_edges_def)

lemma dag_wf_down: "dag_wf d \<Longrightarrow> acyclic (dag_edges d) \<Longrightarrow> wf ((dag_edges d)\<inverse>)"
  by (rule finite_acyclic_wf_converse [OF dag_edges_finite])

lemma kahn_finished:
  assumes wf: "dag_wf d" and acyc: "acyclic (dag_edges d)" and inv: "kahn_inv d scope [] deg order"
  shows "set order = scope"
proof (rule ccontr)
  assume "set order \<noteq> scope"
  hence "scope - set order \<noteq> {}" using inv by (auto simp: kahn_inv_def)
  then obtain h where h: "h \<in> scope - set order" "\<And>c. (c, h) \<in> (dag_edges d)\<inverse> \<Longrightarrow> c \<notin> scope - set order"
    using wfE_min' [OF dag_wf_down [OF wf acyc]] by metis
  hence "kids d h \<inter> scope \<subseteq> set order" by (auto simp: dag_edges_def)
  moreover have "\<forall>h\<in>scope. kids d h \<inter> scope \<subseteq> set order \<longleftrightarrow> h \<in> set (order @ [])"
    using inv by (simp add: kahn_inv_def)
  ultimately show False using h(1) by simp
qed

lemma kahn_loop_exact:
  assumes "hash_order iter" "dag_wf d" "acyclic (dag_edges d)" "finite scope"
  shows "kahn_inv d scope q deg order \<Longrightarrow>
    \<exists>order'. kahn_loop (get_parents iter d) q deg order = Some order'
      \<and> distinct order' \<and> set order' = scope \<and> children_first d scope {} order'"
proof (induction "card (scope - set order)" arbitrary: q deg order rule: less_induct)
  case less
  show ?case
  proof (cases q)
    case Nil
    hence "set order = scope" using less.prems kahn_finished [OF assms(2,3)] by blast
    moreover have "distinct order" "children_first d scope {} order" using less.prems by (simp_all add: kahn_inv_def)
    ultimately show ?thesis using Nil by (subst kahn_loop.simps) simp
  next
    case (Cons h q0)
    from less.prems [unfolded Cons]
    obtain deg' q' where r: "kahn_relax (get_parents iter d h) deg q0 = Some (deg', q')" "kahn_inv d scope q' deg' (order @ [h])"
      by (rule kahn_step [OF assms(1,2,4)])
    have "h \<in> scope - set order" using less.prems Cons by (simp add: kahn_inv_def)
    hence "card (scope - set (order @ [h])) < card (scope - set order)"
      using assms(4) by (intro psubset_card_mono) auto
    from less.hyps [OF this r(2)] show ?thesis using r(1) Cons by (subst kahn_loop.simps) auto
  qed
qed

lemma kahn_topo_exact:
  assumes "hash_order iter" "dag_wf d" "acyclic (dag_edges d)" "finite scope"
  obtains order where "kahn_topo iter d scope = Some order" "distinct order" "set order = scope" "children_first d scope {} order"
proof -
  let ?deg = "\<lambda>h. if h \<in> scope then Some (length (filter (\<lambda>c. c \<in> scope) (get_children iter d h))) else None"
  have "distinct (get_children iter d h)" for h
    using kids_finite [OF assms(2), of h] hash_orderD(2) [OF assms(1)] by (auto simp: get_children_def kids_def split: option.splits)
  hence len: "length (filter (\<lambda>c. c \<in> scope) (get_children iter d h)) = card (kids d h \<inter> scope)" for h
    by (simp add: distinct_length_filter set_get_children [OF assms(1,2)] Int_commute)
  have "finite (kids d h \<inter> scope)" for h using assms(4) by blast
  hence "kahn_inv d scope (filter (\<lambda>h. ?deg h = Some 0) (iter scope)) ?deg []"
    using hash_orderD [OF assms(1,4)] by (auto simp: kahn_inv_def len)
  from kahn_loop_exact [OF assms this] that show ?thesis by (auto simp: kahn_topo_def)
qed

section \<open>What a recomputation leaves\<close>

text \<open>
  \<open>child_max\<close> is the largest priority of the unfinished children, and \<open>reprio S p d\<close> the graph whose
  nodes in \<open>S\<close> have the priorities \<open>p\<close>. A set of nodes is settled when each has its own duration on
  top of its \<open>child_max\<close>.
\<close>

definition unfinished :: "('e, 'u, 'f) DerivationDag \<Rightarrow> string set" where
  "unfinished d = {h. \<exists>s. nodes d h = Some s \<and> \<not> status_is_terminal (node_status s)}"

definition child_max :: "('e, 'u, 'f::{zero, linorder}) DerivationDag \<Rightarrow> string \<Rightarrow> 'f" where
  "child_max d h = Max (insert 0 ((\<lambda>c. priority (the (nodes d c))) ` (kids d h \<inter> unfinished d)))"

definition settled :: "('e, 'u, 'f::{zero, plus, linorder}) DerivationDag \<Rightarrow> string set \<Rightarrow> bool" where
  "settled d S \<longleftrightarrow> (\<forall>h\<in>S. \<forall>s. nodes d h = Some s \<longrightarrow> priority s = est_duration s + child_max d h)"

definition reprio :: "string set \<Rightarrow> (string \<Rightarrow> 'f) \<Rightarrow> ('e, 'u, 'f) DerivationDag \<Rightarrow> ('e, 'u, 'f) DerivationDag" where
  "reprio S p d = d\<lparr>nodes := \<lambda>h. if h \<in> S then map_option (\<lambda>s. s\<lparr>priority := p h\<rparr>) (nodes d h) else nodes d h\<rparr>"

definition ancestors :: "('e, 'u, 'f) DerivationDag \<Rightarrow> string \<Rightarrow> string set" where
  "ancestors d h = {a. (a, h) \<in> (dag_edges d)\<^sup>+}"

lemma reprio_simps [simp]:
  "kids (reprio S p d) = kids d" "pars (reprio S p d) = pars d" "dag_edges (reprio S p d) = dag_edges d"
  "dom (nodes (reprio S p d)) = dom (nodes d)" "get_parents iter (reprio S p d) = get_parents iter d"
  "ancestors (reprio S p d) = ancestors d"
  by (auto simp: reprio_def kids_def pars_def dag_edges_def get_parents_def fun_eq_iff ancestors_def split: if_splits)

lemma reprio_nodes:
  "nodes (reprio S p d) h = (if h \<in> S then map_option (\<lambda>s. s\<lparr>priority := p h\<rparr>) (nodes d h) else nodes d h)"
  by (simp add: reprio_def)

lemma reprio_empty [simp]: "reprio {} p d = d"
  by (simp add: reprio_def)

lemma reprio_reprio: "reprio T q (reprio S p d) = reprio (S \<union> T) (\<lambda>h. if h \<in> T then q h else p h) d"
  by (auto simp: reprio_def fun_eq_iff option.map_comp comp_def)

lemma reprio_unfinished [simp]: "unfinished (reprio S p d) = unfinished d"
  by (auto simp: unfinished_def reprio_nodes node_status_def split: if_splits)

lemma reprio_wf: "dag_wf d \<Longrightarrow> dag_wf (reprio S p d)"
  unfolding dag_wf_def mirrored_def edges_in_def path_index_exact_def
  by (simp add: reprio_nodes node_ok_def) (auto simp: reprio_def)

lemma foldl_max: "foldl max a xs = Max (insert a (set xs))" for a :: "'a::linorder"
proof (induction xs arbitrary: a)
  case (Cons x xs)
  show ?case unfolding foldl_Cons Cons.IH by (cases "xs = []") (simp_all add: max.assoc Max_insert insert_commute)
qed simp

lemma set_map_filter: "set (List.map_filter f xs) = {y. \<exists>x\<in>set xs. f x = Some y}"
  by (force simp: map_filter_def image_iff)

lemma nonterminal_child_max_eq:
  assumes "hash_order iter" "dag_wf d"
  shows "nonterminal_child_max iter d h = child_max d h"
proof -
  have "kids d h \<subseteq> dom (nodes d)" using assms(2) by (auto simp: dag_wf_def edges_in_def)
  hence "set (List.map_filter
         (\<lambda>c. case nodes d c of
                None \<Rightarrow> None
              | Some n \<Rightarrow> if status_is_terminal (node_status n) then None else Some (priority n))
         (get_children iter d h)) = (\<lambda>c. priority (the (nodes d c))) ` (kids d h \<inter> unfinished d)"
    (is "set (List.map_filter ?f _) = _")
    unfolding set_map_filter set_get_children [OF assms]
  proof (intro set_eqI iffI)
    fix y assume "y \<in> (\<lambda>c. priority (the (nodes d c))) ` (kids d h \<inter> unfinished d)"
    then obtain c s where "c \<in> kids d h" "nodes d c = Some s" "\<not> status_is_terminal (node_status s)" "y = priority s"
      by (auto simp: unfinished_def)
    thus "y \<in> {y. \<exists>c\<in>kids d h. ?f c = Some y}" by (intro CollectI bexI [of _ c]) simp_all
  next
    fix y assume "y \<in> {y. \<exists>c\<in>kids d h. ?f c = Some y}"
    then obtain c where c: "c \<in> kids d h" "?f c = Some y" by blast
    then obtain s where "nodes d c = Some s" "\<not> status_is_terminal (node_status s)" "y = priority s"
      by (cases "nodes d c") (simp_all split: if_split_asm)
    thus "y \<in> (\<lambda>c. priority (the (nodes d c))) ` (kids d h \<inter> unfinished d)" using c(1)
      by (intro image_eqI [of _ _ c]) (simp_all add: unfinished_def)
  qed
  thus ?thesis by (simp add: nonterminal_child_max_def child_max_def foldl_max)
qed

lemma child_max_reprio: "kids d h \<inter> S = {} \<Longrightarrow> child_max (reprio S p d) h = child_max d h"
proof -
  assume "kids d h \<inter> S = {}"
  hence "(\<lambda>c. priority (the (nodes (reprio S p d) c))) ` (kids d h \<inter> unfinished d)
    = (\<lambda>c. priority (the (nodes d c))) ` (kids d h \<inter> unfinished d)"
    by (intro image_cong) (auto simp: reprio_nodes)
  thus ?thesis by (simp add: child_max_def)
qed

lemma settled_reprio:
  assumes "settled d T" "\<And>h. h \<in> T \<Longrightarrow> h \<notin> S \<and> kids d h \<inter> S = {}"
  shows "settled (reprio S p d) T"
  unfolding settled_def
proof (intro ballI allI impI)
  fix h s assume h: "h \<in> T" "nodes (reprio S p d) h = Some s"
  have "nodes d h = Some s" "child_max (reprio S p d) h = child_max d h"
    using h assms(2) [OF h(1)] child_max_reprio [of d h S p] by (simp_all add: reprio_nodes)
  thus "priority s = est_duration s + child_max (reprio S p d) h" using h(1) assms(1) by (simp add: settled_def)
qed

lemma recompute_node_eq:
  assumes "hash_order iter" "dag_wf d"
  shows "recompute_node iter h d =
    reprio {h} (\<lambda>h. est_duration (the (nodes d h)) + child_max d h) d"
  unfolding recompute_node_def Let_def nonterminal_child_max_eq [OF assms] modify_node_def reprio_def
  by (cases "nodes d h") (auto simp: fun_eq_iff intro!: DerivationDag.equality)

lemma recompute_fold:
  assumes "hash_order iter" "dag_wf d"
  shows "distinct order \<Longrightarrow> set order \<subseteq> S \<Longrightarrow> children_first d S {} order \<Longrightarrow>
    \<exists>p. fold (recompute_node iter) order d = reprio (set order) p d \<and> settled (reprio (set order) p d) (set order)"
proof (induction order rule: rev_induct)
  case Nil
  show ?case by (simp add: settled_def)
next
  case (snoc h hs)
  then obtain p where p: "fold (recompute_node iter) hs d = reprio (set hs) p d" "settled (reprio (set hs) p d) (set hs)"
    by (auto simp: children_first_snoc)
  let ?d = "reprio (set hs) p d" and ?q = "\<lambda>x. est_duration (the (nodes (reprio (set hs) p d) x)) + child_max (reprio (set hs) p d) x"
  have run: "fold (recompute_node iter) (hs @ [h]) d = reprio {h} ?q ?d"
    using p(1) by (simp add: recompute_node_eq [OF assms(1) reprio_wf [OF assms(2)]])
  have before: "kids d x \<inter> S \<subseteq> set hs" if "x \<in> set (hs @ [h])" for x
  proof -
    have "children_first d S D ys \<Longrightarrow> x \<in> set ys \<Longrightarrow> kids d x \<inter> S \<subseteq> D \<union> set (butlast ys)" for D ys
      by (induction ys arbitrary: D) (auto split: if_splits)
    from this [OF snoc.prems(3) that] show ?thesis by simp
  qed
  have h: "h \<notin> set hs" "h \<in> S" using snoc.prems by auto
  hence out: "x \<in> set (hs @ [h]) \<Longrightarrow> kids d x \<inter> {h} = {}" for x using before [of x] by blast
  have "settled (reprio {h} ?q ?d) (set hs)"
    using out h(1) by (intro settled_reprio p(2)) auto
  moreover have "settled (reprio {h} ?q ?d) {h}"
    using out [of h] child_max_reprio [of ?d h "{h}" ?q] by (auto simp: settled_def reprio_nodes)
  ultimately have "settled (reprio {h} ?q ?d) (set (hs @ [h]))" by (auto simp: settled_def)
  thus ?case unfolding run reprio_reprio by (intro exI) (auto simp: Un_commute)
qed

lemma topo_recompute_settles:
  assumes "hash_order iter" "dag_wf d" "acyclic (dag_edges d)" "finite S"
  obtains p where "topo_recompute iter d S = Some (reprio S p d)" "settled (reprio S p d) S"
proof -
  obtain order where o: "kahn_topo iter d S = Some order" "distinct order" "set order = S" "children_first d S {} order"
    using kahn_topo_exact [OF assms] .
  with recompute_fold [OF assms(1,2) o(2) _ o(4)] that show ?thesis by (auto simp: topo_recompute_def)
qed

section \<open>The incremental updates reach the same priorities\<close>

lemma cone_loop_exact:
  assumes "finite U" "\<And>x. x \<in> U \<Longrightarrow> set (ps x) \<subseteq> U"
  shows "set q \<union> cone \<subseteq> U \<Longrightarrow> (\<And>x. x \<in> cone \<Longrightarrow> set (ps x) \<subseteq> cone \<union> set q) \<Longrightarrow>
    \<exists>C. cone_loop ps q cone = Some C \<and> set q \<union> cone \<subseteq> C \<and> C \<subseteq> U \<and> (\<forall>x\<in>C. set (ps x) \<subseteq> C)
      \<and> (\<forall>A. set q \<union> cone \<subseteq> A \<longrightarrow> (\<forall>x\<in>A. set (ps x) \<subseteq> A) \<longrightarrow> C \<subseteq> A)"
proof (induction "(card (U - cone), length q)" arbitrary: q cone rule: wf_induct_rule [OF wf_lex_prod [OF wf_less_than wf_less_than]])
  case 1
  note IH = 1(1) and q = 1(2) and closed = 1(3)
  show ?case
  proof (cases q)
    case Nil
    thus ?thesis using q closed by (subst cone_loop.simps) auto
  next
    case (Cons h q')
    show ?thesis
    proof (cases "h \<in> cone")
      case True
      have "\<exists>C. cone_loop ps q' cone = Some C \<and> set q' \<union> cone \<subseteq> C \<and> C \<subseteq> U \<and> (\<forall>x\<in>C. set (ps x) \<subseteq> C)
        \<and> (\<forall>A. set q' \<union> cone \<subseteq> A \<longrightarrow> (\<forall>x\<in>A. set (ps x) \<subseteq> A) \<longrightarrow> C \<subseteq> A)"
        using q closed Cons True by (intro IH) auto
      moreover have "set q \<union> cone = set q' \<union> cone" using Cons True by auto
      ultimately show ?thesis using Cons True by (subst cone_loop.simps) simp
    next
      case False
      have U: "h \<in> U" "set (ps h) \<subseteq> U" using q Cons assms(2) [of h] by auto
      have "card (U - insert h cone) < card (U - cone)" using U(1) False assms(1) by (intro psubset_card_mono) auto
      hence less: "((card (U - insert h cone), length (q' @ ps h)), card (U - cone), length q) \<in> less_than <*lex*> less_than" by simp
      have c1: "set (q' @ ps h) \<union> insert h cone \<subseteq> U" using q Cons U by auto
      have c2: "set (ps x) \<subseteq> insert h cone \<union> set (q' @ ps h)" if "x \<in> insert h cone" for x
      proof (cases "x = h")
        case False
        thus ?thesis using that closed [of x] Cons by auto
      qed auto
      have "\<exists>C. cone_loop ps (q' @ ps h) (insert h cone) = Some C \<and> set (q' @ ps h) \<union> insert h cone \<subseteq> C \<and> C \<subseteq> U
        \<and> (\<forall>x\<in>C. set (ps x) \<subseteq> C) \<and> (\<forall>A. set (q' @ ps h) \<union> insert h cone \<subseteq> A \<longrightarrow> (\<forall>x\<in>A. set (ps x) \<subseteq> A) \<longrightarrow> C \<subseteq> A)"
        by (rule IH [OF less c1 c2])
      then obtain C where C: "cone_loop ps (q' @ ps h) (insert h cone) = Some C" "set (q' @ ps h) \<union> insert h cone \<subseteq> C" "C \<subseteq> U"
        "\<forall>x\<in>C. set (ps x) \<subseteq> C" and least: "\<And>A. set (q' @ ps h) \<union> insert h cone \<subseteq> A \<Longrightarrow> \<forall>x\<in>A. set (ps x) \<subseteq> A \<Longrightarrow> C \<subseteq> A"
        by (elim exE conjE) (rule that, assumption+, elim allE impE, assumption+)
      have "cone_loop ps q cone = Some C" using C(1) Cons False by (subst cone_loop.simps) simp
      moreover have "set q \<union> cone \<subseteq> C" using C(2) Cons by auto
      moreover have "C \<subseteq> A" if "set q \<union> cone \<subseteq> A" "\<forall>x\<in>A. set (ps x) \<subseteq> A" for A
        using that Cons by (intro least) auto
      ultimately show ?thesis using C(3,4) by blast
    qed
  qed
qed

lemma ancestors_step: "p \<in> pars d x \<Longrightarrow> dag_wf d \<Longrightarrow> x = h \<or> x \<in> ancestors d h \<Longrightarrow> p \<in> ancestors d h"
proof -
  assume p: "p \<in> pars d x" "dag_wf d" "x = h \<or> x \<in> ancestors d h"
  hence "(p, x) \<in> dag_edges d" by (simp add: dag_edges_def dag_wf_def mirrored_def)
  thus ?thesis using p(3) by (auto simp: ancestors_def intro: trancl_into_trancl2)
qed

lemma ancestors_least:
  assumes "dag_wf d" "pars d h \<subseteq> A" "\<And>x. x \<in> A \<Longrightarrow> pars d x \<subseteq> A"
  shows "ancestors d h \<subseteq> A"
proof
  fix a assume "a \<in> ancestors d h"
  hence "(a, h) \<in> (dag_edges d)\<^sup>+" by (simp add: ancestors_def)
  thus "a \<in> A"
  proof (induction rule: converse_trancl_induct)
    case (base y)
    thus ?case using assms(1,2) by (auto simp: dag_edges_def dag_wf_def mirrored_def)
  next
    case (step y z)
    hence "y \<in> pars d z" using assms(1) by (auto simp: dag_edges_def dag_wf_def mirrored_def)
    thus ?case using assms(3) [OF step.IH] by blast
  qed
qed

lemma pars_in: "dag_wf d \<Longrightarrow> pars d h \<subseteq> dom (nodes d)"
  unfolding dag_wf_def edges_in_def mirrored_def by blast

lemma ancestors_in: "dag_wf d \<Longrightarrow> ancestors d h \<subseteq> dom (nodes d)"
  by (rule ancestors_least) (use pars_in in auto)

lemma ancestors_finite: "dag_wf d \<Longrightarrow> finite (ancestors d h)"
  using ancestors_in [of d h] by (auto simp: dag_wf_def intro: finite_subset)

lemma cone_exact:
  assumes "hash_order iter" "dag_wf d"
  shows "cone_loop (get_parents iter d) (get_parents iter d h) {} = Some (ancestors d h)"
proof -
  note ps = set_get_parents [OF assms]
  have U: "finite (dom (nodes d))" "\<And>x. set (get_parents iter d x) \<subseteq> dom (nodes d)"
    using assms(2) pars_in unfolding ps by (auto simp: dag_wf_def)
  have "\<exists>C. cone_loop (get_parents iter d) (get_parents iter d h) {} = Some C \<and> set (get_parents iter d h) \<union> {} \<subseteq> C
    \<and> C \<subseteq> dom (nodes d) \<and> (\<forall>x\<in>C. set (get_parents iter d x) \<subseteq> C)
    \<and> (\<forall>A. set (get_parents iter d h) \<union> {} \<subseteq> A \<longrightarrow> (\<forall>x\<in>A. set (get_parents iter d x) \<subseteq> A) \<longrightarrow> C \<subseteq> A)"
    by (rule cone_loop_exact) (simp_all add: U)
  then obtain C where C: "cone_loop (get_parents iter d) (get_parents iter d h) {} = Some C" "pars d h \<subseteq> C" "\<forall>x\<in>C. pars d x \<subseteq> C"
    and least: "\<And>A. pars d h \<subseteq> A \<Longrightarrow> \<forall>x\<in>A. pars d x \<subseteq> A \<Longrightarrow> C \<subseteq> A"
    unfolding ps by auto
  have "C \<subseteq> ancestors d h" using ancestors_step [OF _ assms(2)] by (intro least) blast+
  moreover have "ancestors d h \<subseteq> C" using C(2,3) by (intro ancestors_least assms(2)) auto
  ultimately show ?thesis using C(1) by simp
qed

text \<open>One walk up the graph: the settled nodes stay settled, and the ancestors join them.\<close>

lemma update_ancestors_settles:
  assumes "hash_order iter" "dag_wf d" "acyclic (dag_edges d)" "settled d T"
  obtains p where "update_ancestors iter d h = Some (reprio (ancestors d h) p d)"
    "settled (reprio (ancestors d h) p d) (T \<union> ancestors d h)"
proof -
  obtain p where p: "topo_recompute iter d (ancestors d h) = Some (reprio (ancestors d h) p d)"
    "settled (reprio (ancestors d h) p d) (ancestors d h)"
    using topo_recompute_settles [OF assms(1-3) ancestors_finite [OF assms(2)]] .
  have "kids d x \<inter> ancestors d h = {}" if "x \<notin> ancestors d h" for x
    using that ancestors_step [OF _ assms(2)] assms(2) by (auto simp: dag_wf_def mirrored_def)
  moreover have "settled d (T - ancestors d h)" using assms(4) by (simp add: settled_def)
  ultimately have "settled (reprio (ancestors d h) p d) (T - ancestors d h)" by (intro settled_reprio) auto
  with p(2) have "settled (reprio (ancestors d h) p d) (T \<union> ancestors d h)" by (auto simp: settled_def)
  moreover have "update_ancestors iter d h = Some (reprio (ancestors d h) p d)"
    using p(1) by (simp add: update_ancestors_def cone_exact [OF assms(1,2)])
  ultimately show ?thesis by (rule that [rotated])
qed

text \<open>On an acyclic graph the settled priorities of the unfinished nodes are unique.\<close>

lemma settled_unique:
  assumes "dag_wf d" "acyclic (dag_edges d)" "settled (reprio S p d) (unfinished d)" "settled (reprio T q d) (unfinished d)"
  shows "x \<in> unfinished d \<Longrightarrow> nodes (reprio S p d) x = nodes (reprio T q d) x"
proof (induction x rule: wf_induct_rule [OF dag_wf_down [OF assms(1,2)]])
  case (1 x)
  have "(\<lambda>c. priority (the (nodes (reprio S p d) c))) ` (kids d x \<inter> unfinished d)
    = (\<lambda>c. priority (the (nodes (reprio T q d) c))) ` (kids d x \<inter> unfinished d)"
    by (intro image_cong refl) (simp add: 1(1) dag_edges_def)
  hence m: "child_max (reprio S p d) x = child_max (reprio T q d) x" by (simp add: child_max_def)
  obtain s where s: "nodes d x = Some s" using 1(2) by (auto simp: unfinished_def)
  have form: "nodes (reprio A r d) x = Some (s\<lparr>priority := est_duration s + child_max (reprio A r d) x\<rparr>)"
    if A: "settled (reprio A r d) (unfinished d)" for A r
  proof -
    have "\<exists>v. nodes (reprio A r d) x = Some (s\<lparr>priority := v\<rparr>)"
      using s by (cases "x \<in> A") (auto simp: reprio_nodes intro: exI [of _ "priority s"])
    then obtain v where v: "nodes (reprio A r d) x = Some (s\<lparr>priority := v\<rparr>)" by blast
    thus ?thesis using A 1(2) by (simp add: settled_def)
  qed
  show ?case using form [OF assms(3)] form [OF assms(4)] m by simp
qed

text \<open>The first step of both entry points on a set of nodes.\<close>

definition estimated ::
  "(('e, 'u, 'f) DagNode \<Rightarrow> 'f option) \<Rightarrow> 'f \<Rightarrow> nat \<Rightarrow> ('e, 'u, 'f) DagNode \<Rightarrow> ('e, 'u, 'f) DagNode" where
  "estimated estimate default_duration n s =
     s\<lparr>est_duration := (case estimate s of Some t \<Rightarrow> t | None \<Rightarrow> default_duration), unblocks := of_nat n\<rparr>"

definition restimate ::
  "(('e, 'u, 'f) DagNode \<Rightarrow> 'f option) \<Rightarrow> 'f \<Rightarrow> string set \<Rightarrow> ('e, 'u, 'f) DerivationDag \<Rightarrow> ('e, 'u, 'f) DerivationDag" where
  "restimate estimate default_duration S d =
     d\<lparr>nodes := \<lambda>h. if h \<in> S then map_option (estimated estimate default_duration (card (pars d h))) (nodes d h) else nodes d h\<rparr>"

lemma restimate_simps [simp]:
  "kids (restimate e t S d) = kids d" "pars (restimate e t S d) = pars d" "dag_edges (restimate e t S d) = dag_edges d"
  "dom (nodes (restimate e t S d)) = dom (nodes d)" "get_parents iter (restimate e t S d) = get_parents iter d"
  "ancestors (restimate e t S d) = ancestors d" "unfinished (restimate e t S d) = unfinished d"
  by (auto simp: restimate_def estimated_def kids_def pars_def dag_edges_def get_parents_def fun_eq_iff ancestors_def
        unfinished_def node_status_def split: if_splits)

lemma restimate_wf: "dag_wf d \<Longrightarrow> dag_wf (restimate e t S d)"
  unfolding dag_wf_def mirrored_def edges_in_def path_index_exact_def
  by (simp add: node_ok_def) (auto simp: restimate_def estimated_def)

lemma set_estimate_fold: "distinct hs \<Longrightarrow> fold (set_estimate e t) hs d = restimate e t (set hs) d"
proof (induction hs arbitrary: d)
  case Nil
  show ?case by (simp add: restimate_def)
next
  case (Cons h hs)
  have "set_estimate e t h d = restimate e t {h} d"
    unfolding set_estimate_def restimate_def modify_node_def Let_def parents_count_card estimated_def
    by (cases "nodes d h") (auto simp: fun_eq_iff intro!: DerivationDag.equality)
  moreover have "restimate e t (set hs) (restimate e t {h} d) = restimate e t (set (h # hs)) d"
    using Cons.prems by (auto simp: restimate_def pars_def fun_eq_iff)
  ultimately show ?case using Cons by simp
qed

lemma child_max_restimate: "child_max (restimate e t S d) h = child_max d h"
proof -
  have "(\<lambda>c. priority (the (nodes (restimate e t S d) c))) ` (kids d h \<inter> unfinished d)
    = (\<lambda>c. priority (the (nodes d c))) ` (kids d h \<inter> unfinished d)"
    by (intro image_cong) (auto simp: restimate_def estimated_def unfinished_def)
  thus ?thesis by (simp add: child_max_def)
qed

text \<open>\<open>propagate_tops\<close> walks up from every new node that has an old parent.\<close>

lemma propagate_tops_settles:
  assumes "hash_order iter"
  shows "dag_wf d \<Longrightarrow> acyclic (dag_edges d) \<Longrightarrow> settled d T \<Longrightarrow>
    \<exists>p S. propagate_tops iter new hs d = Some (reprio S p d)
      \<and> S = (\<Union>h\<in>{h \<in> set hs. \<not> pars d h \<subseteq> new}. ancestors d h) \<and> settled (reprio S p d) (T \<union> S)"
proof (induction hs arbitrary: d T)
  case Nil
  thus ?case by simp
next
  case (Cons h hs)
  have top: "list_ex (\<lambda>p. p \<notin> new) (get_parents iter d h) \<longleftrightarrow> \<not> pars d h \<subseteq> new"
    using set_get_parents [OF assms Cons.prems(1), of h] by (auto simp: list_ex_iff)
  show ?case
  proof (cases "pars d h \<subseteq> new")
    case True
    hence "{x \<in> set (h # hs). \<not> pars d x \<subseteq> new} = {x \<in> set hs. \<not> pars d x \<subseteq> new}" by auto
    thus ?thesis using Cons.IH [OF Cons.prems] top True by simp
  next
    case False
    obtain p where p: "update_ancestors iter d h = Some (reprio (ancestors d h) p d)"
      "settled (reprio (ancestors d h) p d) (T \<union> ancestors d h)"
      using update_ancestors_settles [OF assms Cons.prems] .
    let ?d = "reprio (ancestors d h) p d" and ?S = "\<Union>x\<in>{x \<in> set hs. \<not> pars d x \<subseteq> new}. ancestors d x"
    obtain q where q: "propagate_tops iter new hs ?d = Some (reprio ?S q ?d)" "settled (reprio ?S q ?d) (T \<union> ancestors d h \<union> ?S)"
      using Cons.IH [OF reprio_wf [OF Cons.prems(1)] _ p(2)] Cons.prems(2) by auto
    have "{x \<in> set (h # hs). \<not> pars d x \<subseteq> new} = insert h {x \<in> set hs. \<not> pars d x \<subseteq> new}" using False by auto
    hence S: "(\<Union>x\<in>{x \<in> set (h # hs). \<not> pars d x \<subseteq> new}. ancestors d x) = ancestors d h \<union> ?S" by simp
    have "propagate_tops iter new (h # hs) d = Some (reprio ?S q ?d)" using p(1) q(1) top False by simp
    thus ?thesis unfolding S using q(2) unfolding reprio_reprio by (auto simp: Un_assoc)
  qed
qed

lemma old_ancestor_above_top:
  assumes "dag_wf d" "n \<in> new" "a \<in> ancestors d n" "a \<notin> new"
  shows "\<exists>h\<in>new. \<not> pars d h \<subseteq> new \<and> a \<in> ancestors d h"
proof -
  have "(a, n) \<in> (dag_edges d)\<^sup>+" using assms(3) by (simp add: ancestors_def)
  thus ?thesis using assms(2)
  proof (induction rule: trancl_induct)
    case (base y)
    thus ?case using assms(1,4) by (auto simp: ancestors_def dag_edges_def dag_wf_def mirrored_def)
  next
    case (step y z)
    show ?case
    proof (cases "y \<in> new")
      case True
      thus ?thesis by (rule step.IH)
    next
      case False
      hence "\<not> pars d z \<subseteq> new" using step.hyps(2) assms(1) by (auto simp: dag_edges_def dag_wf_def mirrored_def)
      moreover have "a \<in> ancestors d z" using step.hyps by (simp add: ancestors_def)
      ultimately show ?thesis using step.prems by blast
    qed
  qed
qed

lemma ex_dag_parts: "unfinished ex_dag = {''p''}" "ancestors ex_dag ''c'' = {''p''}" "kids ex_dag ''p'' = {''c''}"
proof -
  show "unfinished ex_dag = {''p''}"
    by (auto simp: unfinished_def ex_dag_def ex_node_def node_status_def status_is_terminal_def split: if_splits)
  have "a = ''p''" if "(a, ''c'') \<in> (dag_edges ex_dag)\<^sup>+" for a
    using that unfolding ex_dag_edges by (cases rule: converse_tranclE) auto
  moreover have "(''p'', ''c'') \<in> (dag_edges ex_dag)\<^sup>+" unfolding ex_dag_edges by blast
  ultimately show "ancestors ex_dag ''c'' = {''p''}" unfolding ancestors_def by blast
qed (simp add: kids_def ex_dag_def)

section \<open>Properties\<close>

text \<open>
  C22. The periodic sweep recomputes every priority exactly: it returns, it leaves the graph, the
  finished nodes and every field but three as they are, and every unfinished node gets the current
  estimate of its duration, the number of its direct dependents, and as priority its duration on top of
  the largest new priority among its unfinished dependencies.
\<close>

theorem full_sweep_exact:
  assumes "hash_order iter" "dag_wf d" "acyclic (dag_edges d)"
  shows "\<exists>d'. full_sweep iter uuid_string tenant_of peek_t_min default_duration d = Some d' \<and> d' = d\<lparr>nodes := nodes d'\<rparr>
    \<and> (\<forall>h. nodes d' h =
         (case nodes d h of
            None \<Rightarrow> None
          | Some s \<Rightarrow>
              if status_is_terminal (node_status s) then Some s
              else let t = (case key_estimate uuid_string tenant_of peek_t_min s of Some t \<Rightarrow> t | None \<Rightarrow> default_duration)
                   in Some (s\<lparr>est_duration := t, unblocks := of_nat (card (pars d h)), priority := t + child_max d' h\<rparr>)))"
proof (cases "unfinished d = {}")
  case True
  hence "full_sweep iter uuid_string tenant_of peek_t_min default_duration d = Some d" by (simp add: full_sweep_def unfinished_def [symmetric])
  thus ?thesis using True by (intro exI [of _ d]) (auto simp: unfinished_def split: option.split)
next
  case False
  let ?U = "unfinished d" and ?e = "restimate (key_estimate uuid_string tenant_of peek_t_min) default_duration (unfinished d) d"
  have fin: "finite ?U" using assms(2) by (auto simp: dag_wf_def unfinished_def intro: finite_subset [of _ "dom (nodes d)"])
  have wf: "dag_wf ?e" "acyclic (dag_edges ?e)" using restimate_wf [OF assms(2)] assms(3) by auto
  obtain p where p: "topo_recompute iter ?e ?U = Some (reprio ?U p ?e)" "settled (reprio ?U p ?e) ?U"
    using topo_recompute_settles [OF assms(1) wf fin] .
  let ?d = "reprio ?U p ?e"
  have "fold (set_estimate (key_estimate uuid_string tenant_of peek_t_min) default_duration) (iter ?U) d = ?e"
    using hash_orderD [OF assms(1) fin] by (simp add: set_estimate_fold)
  hence run: "full_sweep iter uuid_string tenant_of peek_t_min default_duration d = Some ?d"
    using False p(1) by (simp add: full_sweep_def unfinished_def [symmetric] Let_def)
  have out: "nodes ?d h = nodes d h" if "h \<notin> ?U" for h using that by (simp add: reprio_nodes restimate_def)
  have node: "nodes ?d h = Some (s\<lparr>est_duration := t, unblocks := of_nat (card (pars d h)), priority := t + child_max ?d h\<rparr>)"
    if h: "nodes d h = Some s" "h \<in> ?U" "t = (case key_estimate uuid_string tenant_of peek_t_min s of Some t \<Rightarrow> t | None \<Rightarrow> default_duration)" for h s t
  proof -
    have "nodes ?d h = Some (s\<lparr>est_duration := t, unblocks := of_nat (card (pars d h)), priority := p h\<rparr>)"
      using h by (simp add: reprio_nodes restimate_def estimated_def)
    thus ?thesis using p(2) h(2) by (simp add: settled_def)
  qed
  have "?d = d\<lparr>nodes := nodes ?d\<rparr>" by (simp add: reprio_def restimate_def)
  moreover have "h \<in> ?U \<longleftrightarrow> \<not> status_is_terminal (node_status s)" if "nodes d h = Some s" for h s
    using that by (simp add: unfinished_def)
  moreover have "h \<notin> ?U" if "nodes d h = None" for h using that by (simp add: unfinished_def)
  ultimately show ?thesis using run out node by (intro exI [of _ ?d] conjI allI) (simp_all split: option.split)
qed

theorem full_sweep_exact_witness:
  "\<exists>d' s. full_sweep sorted_list_of_set (\<lambda>_. []) (\<lambda>_. None) (\<lambda>_. None) 60 ex_dag = Some d' \<and> nodes d' ''p'' = Some s \<and> priority s = 60"
proof -
  obtain d' where d: "full_sweep sorted_list_of_set (\<lambda>_. []) (\<lambda>_. None) (\<lambda>_. None) 60 ex_dag = Some d'" "d' = ex_dag\<lparr>nodes := nodes d'\<rparr>"
    and n: "\<And>h. nodes d' h =
         (case nodes ex_dag h of
            None \<Rightarrow> None
          | Some s \<Rightarrow>
              if status_is_terminal (node_status s) then Some s
              else let t = (case key_estimate (\<lambda>_. []) (\<lambda>_. None) (\<lambda>_. None) s of Some t \<Rightarrow> t | None \<Rightarrow> 60)
                   in Some (s\<lparr>est_duration := t, unblocks := of_nat (card (pars ex_dag h)), priority := t + child_max d' h\<rparr>))"
    using full_sweep_exact [OF sorted_hash_order ex_dag_wf ex_dag_acyclic, of "\<lambda>_. []" "\<lambda>_. None" "\<lambda>_. None" 60] by blast
  have "''c'' \<notin> unfinished d'" using n [of "''c''"] by (simp add: unfinished_def ex_dag_def ex_node_def node_status_def status_is_terminal_def)
  moreover have "kids d' ''p'' = {''c''}" using d(2) ex_dag_parts(3) by (metis DerivationDag.select_convs(2) DerivationDag.surjective DerivationDag.update_convs(1) kids_def)
  ultimately have "child_max d' ''p'' = 0" by (simp add: child_max_def)
  thus ?thesis using d(1) n [of "''p''"] by (simp add: key_estimate_def model_key_for_def ex_dag_def ex_node_def node_status_def status_is_terminal_def)
qed

text \<open>
  C14. Updating only the ancestors is enough: when every unfinished node that is not above \<open>h\<close> already
  has its settled priority (\<open>h\<close> itself may just have finished or changed), \<open>update_ancestors\<close>
  returns, changes only priorities of ancestors of \<open>h\<close>, and leaves every unfinished node exactly as a
  recomputation over all unfinished nodes would.
\<close>

theorem update_ancestors_equals_recompute:
  assumes "hash_order iter" "dag_wf d" "acyclic (dag_edges d)" "settled d (unfinished d - ancestors d h)"
  shows "\<exists>d1 d2. update_ancestors iter d h = Some d1 \<and> topo_recompute iter d (unfinished d) = Some d2
    \<and> (\<forall>x\<in>unfinished d. nodes d1 x = nodes d2 x) \<and> (\<exists>p. d1 = reprio (ancestors d h) p d) \<and> settled d1 (unfinished d1)"
proof -
  obtain p where p: "update_ancestors iter d h = Some (reprio (ancestors d h) p d)"
    "settled (reprio (ancestors d h) p d) (unfinished d - ancestors d h \<union> ancestors d h)"
    using update_ancestors_settles [OF assms] .
  have fin: "finite (unfinished d)" using assms(2) by (auto simp: dag_wf_def unfinished_def intro: finite_subset [of _ "dom (nodes d)"])
  obtain q where q: "topo_recompute iter d (unfinished d) = Some (reprio (unfinished d) q d)"
    "settled (reprio (unfinished d) q d) (unfinished d)"
    using topo_recompute_settles [OF assms(1-3) fin] .
  have s: "settled (reprio (ancestors d h) p d) (unfinished d)" using p(2) by (auto simp: settled_def)
  show ?thesis using p(1) q(1) settled_unique [OF assms(2,3) s q(2)] s by auto
qed

theorem update_ancestors_equals_recompute_witness:
  "\<exists>d1. update_ancestors sorted_list_of_set ex_dag ''c'' = Some d1 \<and> settled d1 (unfinished d1)"
proof -
  have "settled ex_dag (unfinished ex_dag - ancestors ex_dag ''c'')" by (simp add: ex_dag_parts settled_def)
  from update_ancestors_equals_recompute [OF sorted_hash_order ex_dag_wf ex_dag_acyclic this] show ?thesis by blast
qed

text \<open>
  C26. Priorities at merge: if every unfinished node that is neither new nor above a new node has its
  settled priority, \<open>compute_initial\<close> returns and leaves every unfinished node of the graph settled,
  the new nodes with their estimates. It changes nothing but the priorities of the new nodes and their
  ancestors, and the estimates of the new nodes.
\<close>

theorem compute_initial_settles:
  assumes "hash_order iter" "dag_wf d" "acyclic (dag_edges d)" "new \<subseteq> dom (nodes d)"
    and old: "settled d (unfinished d - new - (\<Union>n\<in>new. ancestors d n))"
  shows "\<exists>d' S p. compute_initial iter uuid_string tenant_of ref_estimate default_duration new d = Some d' \<and> settled d' (unfinished d')
    \<and> d' = reprio S p (restimate (key_estimate uuid_string tenant_of ref_estimate) default_duration new d) \<and> S \<subseteq> new \<union> (\<Union>n\<in>new. ancestors d n)"
proof (cases "new = {}")
  case True
  hence "d = reprio {} undefined (restimate (key_estimate uuid_string tenant_of ref_estimate) default_duration new d)" by (simp add: restimate_def)
  thus ?thesis using True old by (intro exI [of _ d] exI [of _ "{}"] exI [of _ undefined]) (simp add: compute_initial_def)
next
  case False
  let ?e = "restimate (key_estimate uuid_string tenant_of ref_estimate) default_duration new d" and ?A = "\<Union>n\<in>new. ancestors d n"
  have fin: "finite new" using assms(2,4) by (auto simp: dag_wf_def intro: finite_subset)
  note it = hash_orderD [OF assms(1) fin]
  have wf: "dag_wf ?e" "acyclic (dag_edges ?e)" using restimate_wf [OF assms(2)] assms(3) by auto
  obtain p where p: "topo_recompute iter ?e new = Some (reprio new p ?e)" "settled (reprio new p ?e) new"
    using topo_recompute_settles [OF assms(1) wf fin] .
  have "settled ?e (unfinished d - new - ?A)"
    using old by (auto simp: settled_def child_max_restimate) (simp add: restimate_def)
  moreover have "kids d x \<inter> new = {}" if "x \<notin> ?A" for x
    using that ancestors_step [OF _ assms(2)] assms(2) by (auto simp: dag_wf_def mirrored_def)
  ultimately have "settled (reprio new p ?e) (unfinished d - new - ?A)" by (intro settled_reprio) auto
  with p(2) have T: "settled (reprio new p ?e) (new \<union> (unfinished d - new - ?A))" by (auto simp: settled_def)
  let ?S = "\<Union>h\<in>{h \<in> new. \<not> pars d h \<subseteq> new}. ancestors d h"
  obtain q where q: "propagate_tops iter new (iter new) (reprio new p ?e) = Some (reprio ?S q (reprio new p ?e))"
    "settled (reprio ?S q (reprio new p ?e)) (new \<union> (unfinished d - new - ?A) \<union> ?S)"
  proof -
    have "acyclic (dag_edges (reprio new p ?e))" using wf(2) by simp
    from propagate_tops_settles [OF assms(1) reprio_wf [OF wf(1)] this T, where hs = "iter new" and new = new]
    obtain q S where "propagate_tops iter new (iter new) (reprio new p ?e) = Some (reprio S q (reprio new p ?e))"
      "S = (\<Union>h\<in>{h \<in> set (iter new). \<not> pars (reprio new p ?e) h \<subseteq> new}. ancestors (reprio new p ?e) h)"
      "settled (reprio S q (reprio new p ?e)) (new \<union> (unfinished d - new - ?A) \<union> S)"
      by blast
    thus ?thesis by (intro that [of q]) (simp_all only: it(1) reprio_simps restimate_simps)
  qed
  have "x \<in> new \<union> (unfinished d - new - ?A) \<union> ?S" if "x \<in> unfinished d" for x
  proof (cases "x \<in> ?A \<and> x \<notin> new")
    case True
    then obtain n where "n \<in> new" "x \<in> ancestors d n" "x \<notin> new" by blast
    from old_ancestor_above_top [OF assms(2) this] show ?thesis by blast
  qed (use that in blast)
  with q(2) have u: "settled (reprio ?S q (reprio new p ?e)) (unfinished d)" by (simp add: settled_def)
  show ?thesis
  proof (intro exI conjI)
    show "compute_initial iter uuid_string tenant_of ref_estimate default_duration new d = Some (reprio ?S q (reprio new p ?e))"
      using False it p(1) q(1) by (simp add: compute_initial_def set_estimate_fold)
    show "settled (reprio ?S q (reprio new p ?e)) (unfinished (reprio ?S q (reprio new p ?e)))" using u by simp
    show "reprio ?S q (reprio new p ?e) = reprio (new \<union> ?S) (\<lambda>h. if h \<in> ?S then q h else p h) ?e" by (rule reprio_reprio)
  qed blast
qed

theorem compute_initial_settles_witness:
  "\<exists>d'. compute_initial sorted_list_of_set (\<lambda>_. []) (\<lambda>_. None) (\<lambda>_. Some 7) 60 {''p''} ex_dag = Some d' \<and> settled d' (unfinished d')"
proof -
  have new: "{''p''} \<subseteq> dom (nodes ex_dag)" by (simp add: ex_dag_def)
  have "settled ex_dag (unfinished ex_dag - {''p''} - (\<Union>n\<in>{''p''}. ancestors ex_dag n))" by (simp add: ex_dag_parts settled_def)
  from compute_initial_settles [OF sorted_hash_order ex_dag_wf ex_dag_acyclic new this, of "\<lambda>_. []" "\<lambda>_. None" "\<lambda>_. Some 7" 60] show ?thesis by blast
qed

end
