(* ===== verification/Sched_Ready.thy ===== *)
theory Sched_Ready
  imports Sched_Topo
begin

text \<open>
  Readiness and failure in the derivation graph: the dependency queries and the initial states of
  \<open>rio-scheduler/src/dag/mod.rs\<close>, and the in-memory halves of the actor's steps that apply them
  (\<open>promote_newly_ready_batch\<close> and \<open>cascade_dependency_failure\<close> in \<open>actor/completion.rs\<close>,
  \<open>seed_initial_states\<close> in \<open>actor/merge.rs\<close>, \<open>reevaluate_removal_survivors\<close> in \<open>actor/dispatch.rs\<close>).
  A step returns the new graph with what its caller uses; writes to the database are left out. \<open>now h\<close> is the clock read when the
  node \<open>h\<close> changes.
\<close>

section \<open>Dependency queries\<close>

definition status_satisfied :: "DerivationStatus \<Rightarrow> bool" where
  "status_satisfied st \<longleftrightarrow> st \<in> {Completed, Skipped}"

definition status_failed_terminally :: "DerivationStatus \<Rightarrow> bool" where
  "status_failed_terminally st \<longleftrightarrow> st \<in> {Poisoned, DependencyFailed, Cancelled}"

definition all_deps_completed :: "('e, 'u, 'f) DerivationDag \<Rightarrow> string \<Rightarrow> bool" where
  "all_deps_completed d h =
     (case children d h of
        None \<Rightarrow> True
      | Some cs \<Rightarrow> (\<forall>c\<in>cs. case nodes d c of None \<Rightarrow> False | Some n \<Rightarrow> status_satisfied (node_status n)))"

definition any_dep_terminally_failed :: "('e, 'u, 'f) DerivationDag \<Rightarrow> string \<Rightarrow> bool" where
  "any_dep_terminally_failed d h =
     (case children d h of
        None \<Rightarrow> False
      | Some cs \<Rightarrow> (\<exists>c\<in>cs. case nodes d c of None \<Rightarrow> False | Some n \<Rightarrow> status_failed_terminally (node_status n)))"

definition builds_co_own :: "('e, 'u, 'f) DerivationDag \<Rightarrow> string \<Rightarrow> string \<Rightarrow> bool" where
  "builds_co_own d a b =
     (case (nodes d a, nodes d b) of
        (Some na, Some nb) \<Rightarrow> interested_builds na \<inter> interested_builds nb \<noteq> {}
      | _ \<Rightarrow> False)"

definition any_co_owned_dep_terminally_failed :: "('e, 'u, 'f) DerivationDag \<Rightarrow> string \<Rightarrow> bool" where
  "any_co_owned_dep_terminally_failed d h =
     (case nodes d h of
        None \<Rightarrow> False
      | Some parent \<Rightarrow>
          (case children d h of
             None \<Rightarrow> False
           | Some cs \<Rightarrow>
               (\<exists>c\<in>cs. case nodes d c of
                          None \<Rightarrow> False
                        | Some n \<Rightarrow> status_failed_terminally (node_status n)
                            \<and> interested_builds parent \<inter> interested_builds n \<noteq> {})))"

definition revert_target_for :: "('e, 'u, 'f) DerivationDag \<Rightarrow> string \<Rightarrow> DerivationStatus" where
  "revert_target_for d h =
     (if any_dep_terminally_failed d h then DependencyFailed
      else if all_deps_completed d h then Ready
      else Queued)"

definition find_newly_ready ::
  "(string set \<Rightarrow> string list) \<Rightarrow> ('e, 'u, 'f) DerivationDag \<Rightarrow> string \<Rightarrow> string list" where
  "find_newly_ready iter d completed_hash =
     filter (\<lambda>p. case nodes d p of
                   None \<Rightarrow> False
                 | Some n \<Rightarrow> node_status n = Queued \<and> all_deps_completed d p)
       (get_parents iter d completed_hash)"

section \<open>Initial states\<close>

fun initial_states_loop ::
  "('e, 'u, 'f) DerivationDag \<Rightarrow> string list \<Rightarrow> string set \<Rightarrow> (string \<times> DerivationStatus) list" where
  "initial_states_loop d [] will_fail = []"
| "initial_states_loop d (h # hs) will_fail =
     (let dep_failed_in_this_call = (\<exists>c\<in>kids d h. c \<in> will_fail \<and> builds_co_own d h c)
      in if all_deps_completed d h then (h, Ready) # initial_states_loop d hs will_fail
         else if any_co_owned_dep_terminally_failed d h \<or> dep_failed_in_this_call
         then (h, DependencyFailed) # initial_states_loop d hs (insert h will_fail)
         else (h, Queued) # initial_states_loop d hs will_fail)"

definition compute_initial_states ::
  "(string set \<Rightarrow> string list) \<Rightarrow> ('e, 'u, 'f) DerivationDag \<Rightarrow> string set
   \<Rightarrow> (string \<times> DerivationStatus) list option" where
  "compute_initial_states iter d newly_inserted =
     (case kahn_topo iter d newly_inserted of None \<Rightarrow> None | Some order \<Rightarrow> Some (initial_states_loop d order {}))"

section \<open>The actor's steps\<close>

text \<open>\<open>state.transition(..)\<close> on a node: a rejected transition leaves the node as it was.\<close>

definition node_transition ::
  "(string \<Rightarrow> Instant) \<Rightarrow> string \<Rightarrow> DerivationStatus \<Rightarrow> ('e, 'u, 'f) DerivationDag
   \<Rightarrow> ('e, 'u, 'f) DerivationDag \<times> bool" where
  "node_transition now h to d =
     (case nodes d h of
        None \<Rightarrow> (d, False)
      | Some s \<Rightarrow>
          (case transition (now h) (machine s) to of
             (m, Inl _) \<Rightarrow> (d, False)
           | (m, Inr _) \<Rightarrow> (d\<lparr>nodes := (nodes d)(h \<mapsto> s\<lparr>machine := m\<rparr>)\<rparr>, True)))"

fun promote_each ::
  "(string \<Rightarrow> Instant) \<Rightarrow> string list \<Rightarrow> string set \<Rightarrow> string list \<Rightarrow> ('e, 'u, 'f) DerivationDag
   \<Rightarrow> ('e, 'u, 'f) DerivationDag \<times> string set \<times> string list" where
  "promote_each now [] seen newly_ready d = (d, seen, newly_ready)"
| "promote_each now (h # hs) seen newly_ready d =
     (if h \<in> seen then promote_each now hs seen newly_ready d
      else case node_transition now h Ready d of
             (d', ok) \<Rightarrow> promote_each now hs (insert h seen) (if ok then newly_ready @ [h] else newly_ready) d')"

fun promote_loop ::
  "(string set \<Rightarrow> string list) \<Rightarrow> (string \<Rightarrow> Instant) \<Rightarrow> string list \<Rightarrow> string set \<Rightarrow> string list
   \<Rightarrow> ('e, 'u, 'f) DerivationDag \<Rightarrow> ('e, 'u, 'f) DerivationDag \<times> string list" where
  "promote_loop iter now [] seen newly_ready d = (d, newly_ready)"
| "promote_loop iter now (c # cs) seen newly_ready d =
     (case promote_each now (find_newly_ready iter d c) seen newly_ready d of
        (d', seen', newly_ready') \<Rightarrow> promote_loop iter now cs seen' newly_ready' d')"

definition promote_newly_ready_batch ::
  "(string set \<Rightarrow> string list) \<Rightarrow> (string \<Rightarrow> Instant) \<Rightarrow> string list \<Rightarrow> ('e, 'u, 'f) DerivationDag
   \<Rightarrow> ('e, 'u, 'f) DerivationDag \<times> string list" where
  "promote_newly_ready_batch iter now hs d = promote_loop iter now hs {} [] d"

definition promote_newly_ready ::
  "(string set \<Rightarrow> string list) \<Rightarrow> (string \<Rightarrow> Instant) \<Rightarrow> string \<Rightarrow> ('e, 'u, 'f) DerivationDag
   \<Rightarrow> ('e, 'u, 'f) DerivationDag \<times> string list" where
  "promote_newly_ready iter now h d = promote_newly_ready_batch iter now [h] d"

text \<open>\<open>to_visit\<close> is a stack whose top is the last element.\<close>

definition not_started :: "DerivationStatus \<Rightarrow> bool" where
  "not_started st \<longleftrightarrow> st \<in> {Queued, Ready, Created}"

partial_function (option) cascade_loop ::
  "(string set \<Rightarrow> string list) \<Rightarrow> (string \<Rightarrow> Instant) \<Rightarrow> string list \<Rightarrow> string set \<Rightarrow> string set
   \<Rightarrow> ('e, 'u, 'f) DerivationDag \<Rightarrow> (('e, 'u, 'f) DerivationDag \<times> string set) option" where
  "cascade_loop iter now to_visit visited transitioned d =
     (if to_visit = [] then Some (d, transitioned)
      else let p = last to_visit; rest = butlast to_visit in
        if p \<in> visited then cascade_loop iter now rest visited transitioned d
        else case nodes d p of
               None \<Rightarrow> cascade_loop iter now rest (insert p visited) transitioned d
             | Some s \<Rightarrow>
                 if \<not> not_started (node_status s) then cascade_loop iter now rest (insert p visited) transitioned d
                 else if snd (node_transition now p DependencyFailed d)
                 then cascade_loop iter now (rest @ get_parents iter d p) (insert p visited) (insert p transitioned)
                        (fst (node_transition now p DependencyFailed d))
                 else cascade_loop iter now rest (insert p visited) transitioned d)"

definition cascade_dependency_failure ::
  "(string set \<Rightarrow> string list) \<Rightarrow> (string \<Rightarrow> Instant) \<Rightarrow> string \<Rightarrow> ('e, 'u, 'f) DerivationDag
   \<Rightarrow> (('e, 'u, 'f) DerivationDag \<times> string set) option" where
  "cascade_dependency_failure iter now poisoned d = cascade_loop iter now (get_parents iter d poisoned) {} {} d"

fun seed_loop ::
  "(string \<Rightarrow> Instant) \<Rightarrow> (string \<times> DerivationStatus) list \<Rightarrow> string option \<Rightarrow> ('e, 'u, 'f) DerivationDag
   \<Rightarrow> ('e, 'u, 'f) DerivationDag \<times> string option" where
  "seed_loop now [] first_dep_failed d = (d, first_dep_failed)"
| "seed_loop now ((h, target) # ts) first_dep_failed d =
     (case nodes d h of
        None \<Rightarrow> seed_loop now ts first_dep_failed d
      | Some _ \<Rightarrow>
          if target = Ready
          then seed_loop now ts first_dep_failed (fst (node_transition now h Ready (fst (node_transition now h Queued d))))
          else if target = Queued then seed_loop now ts first_dep_failed (fst (node_transition now h Queued d))
          else if target = DependencyFailed
          then seed_loop now ts (case first_dep_failed of None \<Rightarrow> Some h | Some x \<Rightarrow> Some x)
                 (fst (node_transition now h DependencyFailed d))
          else seed_loop now ts first_dep_failed d)"

definition seed_initial_states ::
  "(string set \<Rightarrow> string list) \<Rightarrow> (string \<Rightarrow> Instant) \<Rightarrow> string set \<Rightarrow> ('e, 'u, 'f) DerivationDag
   \<Rightarrow> (('e, 'u, 'f) DerivationDag \<times> string option) option" where
  "seed_initial_states iter now remaining_new d =
     (case compute_initial_states iter d remaining_new of
        None \<Rightarrow> None
      | Some initial_states \<Rightarrow> Some (seed_loop now initial_states None d))"

fun reevaluate_removal_survivors ::
  "(string \<Rightarrow> bool) \<Rightarrow> (string \<Rightarrow> Instant) \<Rightarrow> string list \<Rightarrow> ('e, 'u, 'f) DerivationDag \<Rightarrow> ('e, 'u, 'f) DerivationDag" where
  "reevaluate_removal_survivors has_unresolved_job now [] d = d"
| "reevaluate_removal_survivors has_unresolved_job now (p # ps) d =
     (case nodes d p of
        None \<Rightarrow> reevaluate_removal_survivors has_unresolved_job now ps d
      | Some node \<Rightarrow>
          if status_is_terminal (node_status node) \<or> interested_builds node = {} \<or> has_unresolved_job p
          then reevaluate_removal_survivors has_unresolved_job now ps d
          else if node_status node = Queued \<and> all_deps_completed d p
          then reevaluate_removal_survivors has_unresolved_job now ps (fst (node_transition now p Ready d))
          else reevaluate_removal_survivors has_unresolved_job now ps d)"

text \<open>The first half of \<open>poison_and_cascade\<close>: the node itself; False is the rejected transition.\<close>

definition poison_node ::
  "(string \<Rightarrow> Instant) \<Rightarrow> string \<Rightarrow> ('e, 'u, 'f) DerivationDag \<Rightarrow> ('e, 'u, 'f) DerivationDag \<times> bool" where
  "poison_node now h d =
     (case nodes d h of
        None \<Rightarrow> (d, False)
      | Some s \<Rightarrow>
          node_transition now h Poisoned
            (modify_node h (\<lambda>s. s\<lparr>machine := fst (ensure_running (now h) (machine s))\<rparr>) d))"

section \<open>Statuses\<close>

text \<open>
  \<open>stat\<close> is the status of a node, and \<open>advance now S to d\<close> the graph after the nodes of \<open>S\<close> made
  the transition to \<open>to\<close>.
\<close>

definition stat :: "('e, 'u, 'f) DerivationDag \<Rightarrow> string \<Rightarrow> DerivationStatus option" where
  "stat d h = map_option node_status (nodes d h)"

definition advance ::
  "(string \<Rightarrow> Instant) \<Rightarrow> string set \<Rightarrow> DerivationStatus \<Rightarrow> ('e, 'u, 'f) DerivationDag \<Rightarrow> ('e, 'u, 'f) DerivationDag" where
  "advance now S to d =
     d\<lparr>nodes := \<lambda>h. if h \<in> S then map_option (\<lambda>s. s\<lparr>machine := fst (transition (now h) (machine s) to)\<rparr>) (nodes d h)
                     else nodes d h\<rparr>"

definition can_move :: "DerivationStatus option \<Rightarrow> DerivationStatus \<Rightarrow> bool" where
  "can_move st to = (case st of None \<Rightarrow> False | Some from \<Rightarrow> \<not> isl (validate_transition from to))"

lemma status_transition:
  "status (fst (transition now m to)) = (if isl (validate_transition (status m) to) then status m else to)"
  by (auto simp: transition_def apply_validated_transition_def clear_exec_def Let_def split: sum.splits)

lemma advance_simps [simp]:
  "kids (advance now S to d) = kids d" "pars (advance now S to d) = pars d" "dag_edges (advance now S to d) = dag_edges d"
  "dom (nodes (advance now S to d)) = dom (nodes d)" "get_parents iter (advance now S to d) = get_parents iter d"
  "advance now {} to d = d"
  by (auto simp: advance_def kids_def pars_def dag_edges_def get_parents_def fun_eq_iff split: if_splits)

lemma advance_nodes:
  "nodes (advance now S to d) h =
     (if h \<in> S then map_option (\<lambda>s. s\<lparr>machine := fst (transition (now h) (machine s) to)\<rparr>) (nodes d h) else nodes d h)"
  by (simp add: advance_def)

lemma advance_wf: "dag_wf d \<Longrightarrow> dag_wf (advance now S to d)"
  unfolding dag_wf_def mirrored_def edges_in_def path_index_exact_def
  by (simp add: advance_nodes node_ok_def) (auto simp: advance_def)

lemma advance_Un: "S \<inter> T = {} \<Longrightarrow> advance now T to (advance now S to d) = advance now (S \<union> T) to d"
  by (rule DerivationDag.equality) (auto simp: advance_def fun_eq_iff)

lemma stat_advance: "stat (advance now S to d) h = (if h \<in> S \<and> can_move (stat d h) to then Some to else stat d h)"
  by (cases "nodes d h") (auto simp: stat_def advance_nodes node_status_def status_transition can_move_def)

lemma stat_None: "stat d h = None \<longleftrightarrow> h \<notin> dom (nodes d)"
  by (auto simp: stat_def)

lemma node_transition_eq:
  "node_transition now h to d = (advance now {h} to d, can_move (stat d h) to)"
proof (cases "nodes d h")
  case (Some s)
  have s: "transition (now h) (machine s) to =
    (case validate_transition (status (machine s)) to of
       Inl e \<Rightarrow> (machine s, Inl e)
     | Inr u \<Rightarrow> (apply_validated_transition (now h) (machine s) (status (machine s)) to, Inr (status (machine s))))"
    by (simp add: transition_def Let_def)
  show ?thesis
  proof (cases "validate_transition (status (machine s)) to")
    case (Inl x)
    hence "advance now {h} to d = d" using Some s by (auto simp: advance_def fun_eq_iff intro!: DerivationDag.equality)
    thus ?thesis using Inl Some s by (simp add: node_transition_def can_move_def stat_def node_status_def)
  next
    case (Inr u)
    hence "advance now {h} to d = d\<lparr>nodes := (nodes d)(h \<mapsto> s\<lparr>machine := fst (transition (now h) (machine s) to)\<rparr>)\<rparr>"
      using Some s by (auto simp: advance_def fun_eq_iff intro!: DerivationDag.equality)
    thus ?thesis using Inr Some s by (simp add: node_transition_def can_move_def stat_def node_status_def)
  qed
qed (auto simp: node_transition_def advance_def can_move_def stat_def fun_eq_iff intro!: DerivationDag.equality)

lemma all_deps_completed_stat:
  "all_deps_completed d h \<longleftrightarrow> (\<forall>c\<in>kids d h. stat d c \<in> {Some Completed, Some Skipped})"
  by (auto simp: all_deps_completed_def kids_def stat_def status_satisfied_def split: option.splits)

lemma failed_stat:
  "(case nodes d c of None \<Rightarrow> False | Some n \<Rightarrow> status_failed_terminally (node_status n) \<and> P n) \<longleftrightarrow>
     stat d c \<in> {Some Poisoned, Some DependencyFailed, Some Cancelled} \<and> P (the (nodes d c))"
  by (cases "nodes d c") (simp_all add: stat_def status_failed_terminally_def)

lemma any_dep_failed_stat:
  "any_dep_terminally_failed d h \<longleftrightarrow> (\<exists>c\<in>kids d h. stat d c \<in> {Some Poisoned, Some DependencyFailed, Some Cancelled})"
proof -
  have "(case nodes d c of None \<Rightarrow> False | Some n \<Rightarrow> status_failed_terminally (node_status n)) \<longleftrightarrow>
    stat d c \<in> {Some Poisoned, Some DependencyFailed, Some Cancelled}" for c
    by (cases "nodes d c") (simp_all add: stat_def status_failed_terminally_def)
  thus ?thesis by (cases "children d h") (simp_all add: any_dep_terminally_failed_def kids_def)
qed

lemma co_owned_dep_failed_stat:
  "any_co_owned_dep_terminally_failed d h \<longleftrightarrow>
     (\<exists>c\<in>kids d h. stat d c \<in> {Some Poisoned, Some DependencyFailed, Some Cancelled} \<and> builds_co_own d h c)"
proof (cases "nodes d h")
  case (Some p)
  have "stat d c \<in> {Some Poisoned, Some DependencyFailed, Some Cancelled} \<and> builds_co_own d h c \<longleftrightarrow>
    stat d c \<in> {Some Poisoned, Some DependencyFailed, Some Cancelled} \<and> interested_builds p \<inter> interested_builds (the (nodes d c)) \<noteq> {}" for c
    using Some by (cases "nodes d c") (simp_all add: builds_co_own_def stat_def)
  thus ?thesis using Some
    by (cases "children d h") (simp_all add: any_co_owned_dep_terminally_failed_def kids_def failed_stat)
qed (simp add: any_co_owned_dep_terminally_failed_def builds_co_own_def)

lemma set_find_newly_ready:
  assumes "hash_order iter" "dag_wf d"
  shows "set (find_newly_ready iter d h) = {p \<in> pars d h. stat d p = Some Queued \<and> all_deps_completed d p}"
    "distinct (find_newly_ready iter d h)"
  using set_get_parents [OF assms] distinct_get_parents [OF assms]
  by (auto simp: find_newly_ready_def stat_def split: option.splits)

section \<open>Initial states\<close>

text \<open>
  A new node is condemned when a dependency that some build owns together with it has failed, or is
  itself condemned.
\<close>

inductive condemned :: "('e, 'u, 'f) DerivationDag \<Rightarrow> string set \<Rightarrow> string \<Rightarrow> bool" for d new where
  failed: "h \<in> new \<Longrightarrow> \<not> all_deps_completed d h \<Longrightarrow> c \<in> kids d h \<Longrightarrow> builds_co_own d h c
    \<Longrightarrow> stat d c \<in> {Some Poisoned, Some DependencyFailed, Some Cancelled} \<Longrightarrow> condemned d new h"
| above: "h \<in> new \<Longrightarrow> \<not> all_deps_completed d h \<Longrightarrow> c \<in> kids d h \<Longrightarrow> builds_co_own d h c
    \<Longrightarrow> condemned d new c \<Longrightarrow> condemned d new h"

inductive_simps condemned_iff: "condemned d new h"

definition initial_status :: "('e, 'u, 'f) DerivationDag \<Rightarrow> string set \<Rightarrow> string \<Rightarrow> DerivationStatus" where
  "initial_status d new h =
     (if all_deps_completed d h then Ready else if condemned d new h then DependencyFailed else Queued)"

lemma initial_states_loop_exact:
  "children_first d new D hs \<Longrightarrow> set hs \<subseteq> new \<Longrightarrow> will_fail = {c \<in> D. condemned d new c} \<Longrightarrow>
   initial_states_loop d hs will_fail = map (\<lambda>h. (h, initial_status d new h)) hs"
proof (induction hs arbitrary: D will_fail)
  case (Cons h hs)
  have kd: "c \<in> D" if "c \<in> kids d h" "condemned d new c" for c
    using that Cons.prems(1) by (auto elim: condemned.cases)
  have c: "condemned d new h \<longleftrightarrow> \<not> all_deps_completed d h
      \<and> (any_co_owned_dep_terminally_failed d h \<or> (\<exists>c\<in>kids d h. c \<in> will_fail \<and> builds_co_own d h c))"
    using Cons.prems kd unfolding condemned_iff [of d new h] co_owned_dep_failed_stat by auto
  have ins: "{c \<in> insert h D. condemned d new c} = (if condemned d new h then insert h will_fail else will_fail)"
    using Cons.prems(3) by auto
  have rest: "initial_states_loop d hs (if condemned d new h then insert h will_fail else will_fail)
    = map (\<lambda>h. (h, initial_status d new h)) hs"
    using Cons.prems ins by (intro Cons.IH [of "insert h D"]) auto
  let ?F = "any_co_owned_dep_terminally_failed d h \<or> (\<exists>c\<in>kids d h. c \<in> will_fail \<and> builds_co_own d h c)"
  have "initial_states_loop d (h # hs) will_fail =
    (h, if all_deps_completed d h then Ready else if ?F then DependencyFailed else Queued)
      # initial_states_loop d hs (if \<not> all_deps_completed d h \<and> ?F then insert h will_fail else will_fail)"
    unfolding initial_states_loop.simps Let_def by (cases "all_deps_completed d h"; cases ?F) (simp_all only: if_True if_False simp_thms)
  also have "(if \<not> all_deps_completed d h \<and> ?F then insert h will_fail else will_fail)
    = (if condemned d new h then insert h will_fail else will_fail)" using c by simp
  also have "(if all_deps_completed d h then Ready else if ?F then DependencyFailed else Queued) = initial_status d new h"
    using c by (simp add: initial_status_def)
  finally show ?case using rest by simp
qed simp

lemma compute_initial_states_exact:
  assumes "hash_order iter" "dag_wf d" "acyclic (dag_edges d)" "finite new"
  obtains order where "compute_initial_states iter d new = Some (map (\<lambda>h. (h, initial_status d new h)) order)"
    "distinct order" "set order = new" "children_first d new {} order"
proof -
  obtain order where o: "kahn_topo iter d new = Some order" "distinct order" "set order = new" "children_first d new {} order"
    using kahn_topo_exact [OF assms] .
  moreover have "initial_states_loop d order {} = map (\<lambda>h. (h, initial_status d new h)) order"
    using o by (intro initial_states_loop_exact) auto
  ultimately show ?thesis using that by (simp add: compute_initial_states_def)
qed

section \<open>Promotion and cascade in closed form\<close>

lemma move_ready: "can_move (Some Queued) Ready" and move_queued: "can_move (Some Created) Queued"
  and move_dep_failed: "not_started st \<Longrightarrow> can_move (Some st) DependencyFailed"
  and move_assigned: "can_move (Some Ready) Assigned" and move_running: "can_move (Some Assigned) Running"
  and move_completed: "can_move (Some Running) Completed" and move_poisoned: "can_move (Some Running) Poisoned"
    "can_move (Some Ready) Poisoned"
  by (auto simp: can_move_def valid_simps not_started_def)

text \<open>The nodes that a batch of completions readies.\<close>

definition readied :: "('e, 'u, 'f) DerivationDag \<Rightarrow> string set \<Rightarrow> string set" where
  "readied d C = {p. stat d p = Some Queued \<and> all_deps_completed d p \<and> (\<exists>c\<in>C. p \<in> pars d c)}"

lemma promote_each_run:
  "distinct hs \<Longrightarrow> set hs \<inter> seen = {} \<Longrightarrow> \<forall>h\<in>set hs. stat d h = Some Queued \<Longrightarrow>
   promote_each now hs seen newly d = (advance now (set hs) Ready d, seen \<union> set hs, newly @ hs)"
proof (induction hs arbitrary: seen newly d)
  case (Cons h hs)
  have "promote_each now (h # hs) seen newly d = promote_each now hs (insert h seen) (newly @ [h]) (advance now {h} Ready d)"
    using Cons.prems by (simp add: node_transition_eq move_ready)
  also have "\<dots> = (advance now (set hs) Ready (advance now {h} Ready d), insert h seen \<union> set hs, (newly @ [h]) @ hs)"
    using Cons.prems by (intro Cons.IH) (auto simp: stat_advance)
  also have "advance now (set hs) Ready (advance now {h} Ready d) = advance now (set (h # hs)) Ready d"
    using Cons.prems by (simp add: advance_Un)
  finally show ?case by simp
qed simp

lemma all_deps_completed_advance:
  assumes "to \<notin> {Completed, Skipped}" "\<And>x. x \<in> S \<Longrightarrow> stat d x \<notin> {Some Completed, Some Skipped}"
  shows "all_deps_completed (advance now S to d) h \<longleftrightarrow> all_deps_completed d h"
  using assms by (auto simp: all_deps_completed_stat stat_advance)

lemma promote_loop_run:
  assumes "hash_order iter" "dag_wf d"
  shows "S \<subseteq> readied d (dom (nodes d)) \<Longrightarrow>
    \<exists>xs. promote_loop iter now cs S newly (advance now S Ready d) = (advance now (S \<union> readied d (set cs)) Ready d, newly @ xs)
      \<and> distinct xs \<and> set xs = readied d (set cs) - S"
proof (induction cs arbitrary: S newly)
  case Nil
  thus ?case by (simp add: readied_def)
next
  case (Cons c cs)
  let ?d = "advance now S Ready d" and ?xs = "find_newly_ready iter (advance now S Ready d) c"
  have S: "stat d x = Some Queued" if "x \<in> S" for x using that Cons.prems by (auto simp: readied_def)
  have "all_deps_completed ?d p \<longleftrightarrow> all_deps_completed d p" for p using S by (intro all_deps_completed_advance) auto
  moreover have "stat ?d p = Some Queued \<longleftrightarrow> stat d p = Some Queued \<and> p \<notin> S" for p
    using S move_ready by (auto simp: stat_advance)
  ultimately have xs: "set ?xs = readied d {c} - S" "distinct ?xs"
    using set_find_newly_ready [OF assms(1) advance_wf [OF assms(2)]] by (auto simp: readied_def)
  have q: "\<forall>h\<in>set ?xs. stat ?d h = Some Queued" using xs(1) by (auto simp: readied_def stat_advance)
  have "promote_each now ?xs S newly ?d = (advance now (set ?xs) Ready ?d, S \<union> set ?xs, newly @ ?xs)"
    using xs q by (intro promote_each_run) auto
  also have "advance now (set ?xs) Ready ?d = advance now (S \<union> set ?xs) Ready d" using xs(1) by (intro advance_Un) auto
  finally have run: "promote_loop iter now (c # cs) S newly ?d
    = promote_loop iter now cs (S \<union> set ?xs) (newly @ ?xs) (advance now (S \<union> set ?xs) Ready d)" by simp
  have "c \<in> dom (nodes d)" if "readied d {c} \<noteq> {}"
    using that assms(2) unfolding readied_def dag_wf_def edges_in_def mirrored_def by blast
  hence "S \<union> set ?xs \<subseteq> readied d (dom (nodes d))" using Cons.prems xs(1) by (auto simp: readied_def)
  from Cons.IH [OF this, of "newly @ ?xs"] obtain ys where ys: "promote_loop iter now cs (S \<union> set ?xs) (newly @ ?xs) (advance now (S \<union> set ?xs) Ready d)
      = (advance now (S \<union> set ?xs \<union> readied d (set cs)) Ready d, (newly @ ?xs) @ ys)"
    "distinct ys" "set ys = readied d (set cs) - (S \<union> set ?xs)" by blast
  have "S \<union> set ?xs \<union> readied d (set cs) = S \<union> readied d (set (c # cs))" using xs(1) by (auto simp: readied_def)
  moreover have "set (?xs @ ys) = readied d (set (c # cs)) - S" using xs(1) ys(3) by (auto simp: readied_def)
  moreover have "distinct (?xs @ ys)" using xs(2) ys(2,3) by auto
  ultimately show ?case using run ys(1) by (intro exI [of _ "?xs @ ys"]) simp
qed

lemma promote_exact:
  assumes "hash_order iter" "dag_wf d"
  shows "\<exists>xs. promote_newly_ready_batch iter now cs d = (advance now (readied d (set cs)) Ready d, xs)
    \<and> distinct xs \<and> set xs = readied d (set cs)"
  using promote_loop_run [OF assms, of "{}" now cs "[]"] by (simp add: promote_newly_ready_batch_def)

text \<open>The nodes that a failure reaches: upwards through nodes that have not started.\<close>

inductive_set doomed :: "('e, 'u, 'f) DerivationDag \<Rightarrow> string \<Rightarrow> string set" for d h where
  parent: "x \<in> pars d h \<Longrightarrow> stat d x = Some st \<Longrightarrow> not_started st \<Longrightarrow> x \<in> doomed d h"
| up: "y \<in> doomed d h \<Longrightarrow> x \<in> pars d y \<Longrightarrow> stat d x = Some st \<Longrightarrow> not_started st \<Longrightarrow> x \<in> doomed d h"

definition cascade_inv ::
  "('e, 'u, 'f) DerivationDag \<Rightarrow> string \<Rightarrow> string list \<Rightarrow> string set \<Rightarrow> string set \<Rightarrow> bool" where
  "cascade_inv d h q V T \<longleftrightarrow> T \<subseteq> V \<and> T \<subseteq> doomed d h \<and> set q \<union> V \<subseteq> (\<Union>x\<in>insert h T. pars d x)
     \<and> (\<forall>x\<in>insert h T. pars d x \<subseteq> V \<union> set q)
     \<and> (\<forall>x st. x \<in> V \<longrightarrow> stat d x = Some st \<longrightarrow> not_started st \<longrightarrow> x \<in> T)"

lemma cascade_invD:
  assumes "cascade_inv d h q V T"
  shows "T \<subseteq> V" "T \<subseteq> doomed d h" "set q \<union> V \<subseteq> (\<Union>x\<in>insert h T. pars d x)"
    "x \<in> insert h T \<Longrightarrow> pars d x \<subseteq> V \<union> set q" "y \<in> V \<Longrightarrow> stat d y = Some st \<Longrightarrow> not_started st \<Longrightarrow> y \<in> T"
  using assms unfolding cascade_inv_def by blast+

lemma cascade_inv_end: "cascade_inv d h [] V T \<Longrightarrow> T = doomed d h"
proof (intro equalityI subsetI)
  fix x assume i: "cascade_inv d h [] V T" and "x \<in> doomed d h"
  from this(2) show "x \<in> T"
  proof (induction rule: doomed.induct)
    case (parent x st)
    thus ?case using cascade_invD(4,5) [OF i, of h] cascade_invD(5) [OF i, of x st] by auto
  next
    case (up y x st)
    thus ?case using cascade_invD(4) [OF i, of y] cascade_invD(5) [OF i, of x st] by auto
  qed
qed (use cascade_invD(2) in blast)

lemma cascade_inv_skip:
  assumes "cascade_inv d h (q @ [p]) V T" "p \<in> V \<or> (\<forall>st. stat d p = Some st \<longrightarrow> \<not> not_started st)"
  shows "cascade_inv d h q (insert p V) T"
  unfolding cascade_inv_def
proof (intro conjI ballI allI impI)
  show "set q \<union> insert p V \<subseteq> (\<Union>x\<in>insert h T. pars d x)" using cascade_invD(3) [OF assms(1)] by simp
  show "pars d x \<subseteq> insert p V \<union> set q" if "x \<in> insert h T" for x using cascade_invD(4) [OF assms(1) that] by auto
  show "x \<in> T" if "x \<in> insert p V" "stat d x = Some st" "not_started st" for x st
    using that assms(2) cascade_invD(5) [OF assms(1), of x st] by (cases "x \<in> V") auto
qed (use cascade_invD(1,2) [OF assms(1)] in blast)+

lemma cascade_inv_take:
  assumes "cascade_inv d h (q @ [p]) V T" "stat d p = Some st" "not_started st" "set ps = pars d p"
  shows "cascade_inv d h (q @ ps) (insert p V) (insert p T)"
  unfolding cascade_inv_def
proof (intro conjI ballI allI impI)
  note D = cascade_invD [OF assms(1)]
  obtain x where x: "x \<in> insert h T" "p \<in> pars d x" using D(3) by auto
  hence p: "p \<in> doomed d h" using assms(2,3) D(2) by (auto intro: doomed.intros)
  thus "insert p T \<subseteq> doomed d h" using D(2) by simp
  show "set (q @ ps) \<union> insert p V \<subseteq> (\<Union>x\<in>insert h (insert p T). pars d x)" using D(3) assms(4) x by auto
  show "pars d x \<subseteq> insert p V \<union> set (q @ ps)" if "x \<in> insert h (insert p T)" for x
    using that D(4) [of x] assms(4) by auto
  show "x \<in> insert p T" if "x \<in> insert p V" "stat d x = Some st'" "not_started st'" for x st'
    using that D(5) [of x st'] by auto
qed (use cascade_invD(1) [OF assms(1)] in blast)

lemma cascade_loop_exact:
  assumes "hash_order iter" "dag_wf d"
  shows "cascade_inv d h q V T \<Longrightarrow>
    cascade_loop iter now q V T (advance now T DependencyFailed d)
      = Some (advance now (doomed d h) DependencyFailed d, doomed d h)"
proof (induction "(card (dom (nodes d) - V), length q)" arbitrary: q V T
    rule: wf_induct_rule [OF wf_lex_prod [OF wf_less_than wf_less_than]])
  case 1
  note IH = 1(1) and inv = 1(2)
  let ?d = "advance now T DependencyFailed d"
  show ?case
  proof (cases "q = []")
    case True
    thus ?thesis using inv cascade_inv_end [of d h V T] by (subst cascade_loop.simps) simp
  next
    case False
    then obtain q' p where q: "q = q' @ [p]" by (metis rev_exhaust)
    have p: "p \<in> dom (nodes d)" using cascade_invD(3) [OF inv] pars_in [OF assms(2)] q by auto
    show ?thesis
    proof (cases "p \<in> V")
      case True
      have "cascade_inv d h q' V T" using cascade_inv_skip [of d h q' p V T] inv q True by (simp add: insert_absorb)
      hence "cascade_loop iter now q' V T ?d = Some (advance now (doomed d h) DependencyFailed d, doomed d h)"
        using q by (intro IH) auto
      thus ?thesis using q True by (subst cascade_loop.simps) (simp add: Let_def)
    next
      case new: False
      have less: "card (dom (nodes d) - insert p V) < card (dom (nodes d) - V)"
        using p new assms(2) by (intro psubset_card_mono) (auto simp: dag_wf_def)
      obtain s where s: "nodes d p = Some s" using p by blast
      have T: "p \<notin> T" using new cascade_invD(1) [OF inv] by blast
      hence s': "nodes ?d p = Some s" using s by (simp add: advance_nodes)
      show ?thesis
      proof (cases "not_started (node_status s)")
        case False
        have "cascade_inv d h q' (insert p V) T" using inv q s False by (intro cascade_inv_skip) (auto simp: stat_def)
        hence "cascade_loop iter now q' (insert p V) T ?d = Some (advance now (doomed d h) DependencyFailed d, doomed d h)"
          using less by (intro IH) auto
        thus ?thesis using q new s' False by (subst cascade_loop.simps) (simp add: Let_def)
      next
        case True
        have "cascade_inv d h (q' @ get_parents iter d p) (insert p V) (insert p T)"
          using inv q s True set_get_parents [OF assms] by (intro cascade_inv_take) (auto simp: stat_def)
        hence r: "cascade_loop iter now (q' @ get_parents iter d p) (insert p V) (insert p T) (advance now (insert p T) DependencyFailed d)
          = Some (advance now (doomed d h) DependencyFailed d, doomed d h)"
          using less by (intro IH) auto
        have "stat ?d p = Some (node_status s)" using s' by (simp add: stat_def)
        hence "node_transition now p DependencyFailed ?d = (advance now (insert p T) DependencyFailed d, True)"
          using move_dep_failed [OF True] T by (simp add: node_transition_eq advance_Un)
        thus ?thesis using q new s' True r by (subst cascade_loop.simps) (simp add: Let_def)
      qed
    qed
  qed
qed

lemma cascade_exact:
  assumes "hash_order iter" "dag_wf d"
  shows "cascade_dependency_failure iter now h d = Some (advance now (doomed d h) DependencyFailed d, doomed d h)"
proof -
  have "cascade_inv d h (get_parents iter d h) {} {}" using set_get_parents [OF assms] by (simp add: cascade_inv_def)
  from cascade_loop_exact [OF assms this, of now] show ?thesis by (simp add: cascade_dependency_failure_def)
qed

section \<open>The readiness invariant\<close>

text \<open>
  No node is waiting to be seeded or retried, a queued node has an unfinished dependency and no failed
  one, and a node that is ready, assigned or running has all its dependencies.
\<close>

definition ready_ok :: "('e, 'u, 'f) DerivationDag \<Rightarrow> string \<Rightarrow> bool" where
  "ready_ok d h \<longleftrightarrow> stat d h \<notin> {Some Created, Some Failed}
     \<and> (stat d h = Some Queued \<longrightarrow> \<not> all_deps_completed d h \<and> \<not> any_dep_terminally_failed d h)
     \<and> (stat d h \<in> {Some Ready, Some Assigned, Some Running} \<longrightarrow> all_deps_completed d h)"

definition ready_inv :: "('e, 'u, 'f) DerivationDag \<Rightarrow> bool" where
  "ready_inv d \<longleftrightarrow> dag_wf d \<and> acyclic (dag_edges d) \<and> (\<forall>h. ready_ok d h)"

definition sched_rank :: "DerivationStatus option \<Rightarrow> nat" where
  "sched_rank st = (case st of Some Queued \<Rightarrow> 4 | Some Ready \<Rightarrow> 3 | Some Assigned \<Rightarrow> 2 | Some Running \<Rightarrow> 1 | _ \<Rightarrow> 0)"

definition work_left :: "('e, 'u, 'f) DerivationDag \<Rightarrow> nat" where
  "work_left d = (\<Sum>h\<in>dom (nodes d). sched_rank (stat d h))"

text \<open>
  What can happen to one derivation: it is assigned, it starts, it succeeds and readies its dependents, or
  it is poisoned and fails them. What a failure makes of a build, and the retries, are not steps here.
\<close>

inductive exec_step :: "(string set \<Rightarrow> string list) \<Rightarrow> ('e, 'u, 'f) DerivationDag \<Rightarrow> ('e, 'u, 'f) DerivationDag \<Rightarrow> bool" for iter where
  assign: "stat d h = Some Ready \<Longrightarrow> exec_step iter d (fst (node_transition now h Assigned d))"
| start: "stat d h = Some Assigned \<Longrightarrow> exec_step iter d (fst (node_transition now h Running d))"
| succeed: "stat d h = Some Running \<Longrightarrow>
    exec_step iter d (fst (promote_newly_ready iter now' h (fst (node_transition now h Completed d))))"
| poison: "stat d h \<in> {Some Ready, Some Assigned, Some Running} \<Longrightarrow> poison_node now h d = (d1, True)
    \<Longrightarrow> cascade_dependency_failure iter now' h d1 = Some (d', T) \<Longrightarrow> exec_step iter d d'"

lemma deps_cong:
  assumes "kids d' = kids d" "\<And>c. stat d' c \<in> {Some Completed, Some Skipped} \<longleftrightarrow> stat d c \<in> {Some Completed, Some Skipped}"
  shows "all_deps_completed d' x \<longleftrightarrow> all_deps_completed d x"
  unfolding all_deps_completed_stat assms ..

lemma failed_cong:
  assumes "kids d' = kids d" "\<And>c. stat d' c \<in> {Some Poisoned, Some DependencyFailed, Some Cancelled}
    \<longleftrightarrow> stat d c \<in> {Some Poisoned, Some DependencyFailed, Some Cancelled}"
  shows "any_dep_terminally_failed d' x \<longleftrightarrow> any_dep_terminally_failed d x"
  unfolding any_dep_failed_stat assms ..

lemma ready_ok_moved:
  assumes "kids d' = kids d" "stat d' = (stat d)(h \<mapsto> to)" "stat d h \<in> {Some Ready, Some Assigned, Some Running}"
    "to \<in> {Assigned, Running}" "ready_inv d"
  shows "ready_ok d' x"
proof -
  have a: "all_deps_completed d' y \<longleftrightarrow> all_deps_completed d y" for y
    using assms(2-4) by (intro deps_cong assms(1)) auto
  have f: "any_dep_terminally_failed d' y \<longleftrightarrow> any_dep_terminally_failed d y" for y
    using assms(2-4) by (intro failed_cong assms(1)) auto
  have ok: "ready_ok d x" using assms(5) by (simp add: ready_inv_def)
  show ?thesis
  proof (cases "x = h")
    case True
    thus ?thesis using ok assms(2-4) unfolding ready_ok_def a f by auto
  next
    case False
    thus ?thesis using ok assms(2) unfolding ready_ok_def a f by simp
  qed
qed

lemma succeed_stat:
  fixes now later :: "string \<Rightarrow> Instant"
  assumes "hash_order iter" "dag_wf d" "stat d h = Some Running"
  defines "d1 \<equiv> advance now {h} Completed d"
  defines "d' \<equiv> fst (promote_newly_ready iter later h (fst (node_transition now h Completed d)))"
  shows "stat d1 = (stat d)(h \<mapsto> Completed)" "d' = advance later (readied d1 {h}) Ready d1" "dag_wf d1"
    "stat d' x = (if x \<in> readied d1 {h} then Some Ready else stat d1 x)"
proof -
  show s: "stat d1 = (stat d)(h \<mapsto> Completed)" using assms(3) by (auto simp: d1_def stat_advance move_completed fun_eq_iff)
  show wf: "dag_wf d1" unfolding d1_def by (rule advance_wf [OF assms(2)])
  show d': "d' = advance later (readied d1 {h}) Ready d1"
    using promote_exact [OF assms(1) wf, of later "[h]"]
    by (auto simp: d'_def d1_def [symmetric] node_transition_eq promote_newly_ready_def)
  show "stat d' x = (if x \<in> readied d1 {h} then Some Ready else stat d1 x)"
    unfolding d' by (auto simp: stat_advance readied_def move_ready)
qed

lemma ready_ok_succeed:
  assumes "hash_order iter" "ready_inv d" "stat d h = Some Running"
  shows "ready_ok (fst (promote_newly_ready iter later h (fst (node_transition now h Completed d)))) x"
proof -
  have wf: "dag_wf d" and ok: "\<And>x. ready_ok d x" using assms(2) by (auto simp: ready_inv_def)
  define d1 where "d1 = advance now {h} Completed d"
  define d' where "d' = fst (promote_newly_ready iter later h (fst (node_transition now h Completed d)))"
  have S: "stat d1 = (stat d)(h \<mapsto> Completed)" "d' = advance later (readied d1 {h}) Ready d1" "dag_wf d1"
    "stat d' x = (if x \<in> readied d1 {h} then Some Ready else stat d1 x)" for x
    unfolding d1_def d'_def by (rule succeed_stat [OF assms(1) wf assms(3)])+
  have k: "kids d1 = kids d" "kids d' = kids d" "pars d1 = pars d" unfolding S(2) by (simp_all add: d1_def)
  have a': "all_deps_completed d' y \<longleftrightarrow> all_deps_completed d1 y" for y
    using S(4) by (intro deps_cong) (auto simp: k readied_def)
  have up: "all_deps_completed d1 y" if "all_deps_completed d y" for y
    using that by (auto simp: all_deps_completed_stat k S(1))
  have new: "y \<in> pars d h" if "all_deps_completed d1 y" "\<not> all_deps_completed d y" for y
    using that wf by (auto simp: all_deps_completed_stat k S(1) dag_wf_def mirrored_def split: if_splits)
  have f': "any_dep_terminally_failed d y" if "any_dep_terminally_failed d' y" for y
    using that by (auto simp: any_dep_failed_stat k S(1) S(4) split: if_splits)
  have "ready_ok d' x"
  proof (cases "x \<in> readied d1 {h}")
    case True
    thus ?thesis using S(4) a' by (simp add: ready_ok_def readied_def)
  next
    case False
    hence s: "stat d' x = ((stat d)(h \<mapsto> Completed)) x" using S(1,4) by simp
    have "\<not> all_deps_completed d' x" if "stat d x = Some Queued" "x \<noteq> h"
      using that False ok [of x] new [of x] S(1) unfolding a' by (auto simp: readied_def k ready_ok_def)
    thus ?thesis using ok [of x] s f' [of x] up [of x] unfolding ready_ok_def a' by (cases "x = h") auto
  qed
  thus ?thesis by (simp add: d'_def)
qed

lemma poison_stat:
  assumes "dag_wf d" "stat d h \<in> {Some Ready, Some Assigned, Some Running}"
  obtains d1 where "stat d1 = (stat d)(h \<mapsto> Poisoned)" "kids d1 = kids d" "pars d1 = pars d" "dag_edges d1 = dag_edges d"
    "dom (nodes d1) = dom (nodes d)" "dag_wf d1"
    "poison_node now h d = (d1, True)"
proof -
  obtain s where s: "nodes d h = Some s" using assms(2) by (auto simp: stat_def)
  define d0 where "d0 = modify_node h (\<lambda>s. s\<lparr>machine := fst (ensure_running (now h) (machine s))\<rparr>) d"
  have d0: "d0 = (if stat d h = Some Assigned then advance now {h} Running d else d)"
    unfolding d0_def modify_node_def advance_def using s
    by (auto simp: ensure_running_def stat_def node_status_def case_prod_beta fun_eq_iff intro!: DerivationDag.equality)
  let ?d1 = "advance now {h} Poisoned d0"
  have "stat d0 h \<in> {Some Ready, Some Running}" using assms(2) by (auto simp: d0 stat_advance move_running)
  hence ok: "can_move (stat d0 h) Poisoned" using move_poisoned by auto
  have "stat ?d1 = (stat d)(h \<mapsto> Poisoned)" using ok by (auto simp: stat_advance d0 fun_eq_iff)
  moreover have wf: "dag_wf ?d1" using assms(1) by (auto simp: d0 intro: advance_wf)
  moreover have "poison_node now h d = (?d1, True)"
    using s ok by (simp add: poison_node_def d0_def [symmetric] node_transition_eq)
  ultimately show ?thesis by (intro that [of ?d1]) (auto simp: d0)
qed

lemma doomed_stat:
  assumes "stat d1 h = Some Poisoned"
  shows "stat (advance now (doomed d1 h) DependencyFailed d1) x = (if x \<in> doomed d1 h then Some DependencyFailed else stat d1 x)"
    "h \<notin> doomed d1 h"
proof -
  have n: "\<exists>st. stat d1 x = Some st \<and> not_started st" if "x \<in> doomed d1 h" for x using that by (auto elim: doomed.cases)
  show "stat (advance now (doomed d1 h) DependencyFailed d1) x = (if x \<in> doomed d1 h then Some DependencyFailed else stat d1 x)"
    using n [of x] move_dep_failed by (auto simp: stat_advance)
  show "h \<notin> doomed d1 h" using n [of h] assms by (auto simp: not_started_def)
qed

lemma ready_ok_poison:
  assumes "hash_order iter" "ready_inv d" "stat d h \<in> {Some Ready, Some Assigned, Some Running}"
    "poison_node now h d = (d0, True)" "cascade_dependency_failure iter now' h d0 = Some (d', T)"
  shows "ready_ok d' x" "dag_wf d'" "dag_edges d' = dag_edges d" "dom (nodes d') = dom (nodes d)"
    "\<And>y. sched_rank (stat d' y) \<le> sched_rank (stat d y)" "sched_rank (stat d' h) = 0"
proof -
  have wf: "dag_wf d" and ok: "\<And>x. ready_ok d x" using assms(2) by (auto simp: ready_inv_def)
  obtain d1 where d1: "stat d1 = (stat d)(h \<mapsto> Poisoned)" "kids d1 = kids d" "pars d1 = pars d" "dag_edges d1 = dag_edges d"
    "dom (nodes d1) = dom (nodes d)" "dag_wf d1" "poison_node now h d = (d1, True)"
    using poison_stat [OF wf assms(3)] .
  have d': "d' = advance now' (doomed d1 h) DependencyFailed d1"
    using d1(7) assms(4,5) cascade_exact [OF assms(1) d1(6)] by auto
  have s: "stat d' y = (if y \<in> doomed d1 h then Some DependencyFailed else stat d1 y)" "h \<notin> doomed d1 h" for y
    using doomed_stat(1) [of d1 h now' y] doomed_stat(2) [of d1 h] d1(1) unfolding d' by simp_all
  have n: "\<exists>st. stat d1 x = Some st \<and> not_started st" if "x \<in> doomed d1 h" for x using that by (auto elim: doomed.cases)
  show "dag_wf d'" "dag_edges d' = dag_edges d" "dom (nodes d') = dom (nodes d)"
    using advance_wf [OF d1(6)] d1(4,5) unfolding d' by simp_all
  have k: "kids d' = kids d" using d1(2) by (simp add: d')
  show "sched_rank (stat d' y) \<le> sched_rank (stat d y)" for y using s(1) [of y] d1(1) by (simp add: sched_rank_def)
  show "sched_rank (stat d' h) = 0" using s d1(1) by (simp add: sched_rank_def)
  have a: "all_deps_completed d' y \<longleftrightarrow> all_deps_completed d y" for y
  proof (rule deps_cong [OF k])
    show "stat d' c \<in> {Some Completed, Some Skipped} \<longleftrightarrow> stat d c \<in> {Some Completed, Some Skipped}" for c
      using s(1) [of c] n [of c] d1(1) assms(3) by (cases "c = h") (auto simp: not_started_def)
  qed
  have f: "x \<in> doomed d1 h" if q: "stat d x = Some Queued" and fd: "any_dep_terminally_failed d' x"
  proof -
    obtain c where c: "c \<in> kids d x" "stat d' c \<in> {Some Poisoned, Some DependencyFailed, Some Cancelled}"
      using fd by (auto simp: any_dep_failed_stat k)
    have "stat d c \<notin> {Some Poisoned, Some DependencyFailed, Some Cancelled}"
      using ok [of x] q c(1) by (auto simp: ready_ok_def any_dep_failed_stat)
    hence "c = h \<or> c \<in> doomed d1 h" using c(2) s(1) [of c] d1(1) by (auto split: if_splits)
    moreover have "x \<in> pars d1 c" using c(1) wf d1(3) by (simp add: dag_wf_def mirrored_def)
    moreover have "stat d1 x = Some Queued" using q assms(3) d1(1) by auto
    ultimately show ?thesis by (auto intro: doomed.intros simp: not_started_def)
  qed
  show "ready_ok d' x"
    using ok [of x] s(1) [of x] f d1(1) unfolding ready_ok_def a by (cases "x \<in> doomed d1 h"; cases "x = h") auto
qed

lemma work_left_less:
  assumes "finite (dom (nodes d))" "dom (nodes d') = dom (nodes d)" "\<And>x. sched_rank (stat d' x) \<le> sched_rank (stat d x)"
    "sched_rank (stat d' h) < sched_rank (stat d h)"
  shows "work_left d' < work_left d"
proof -
  have "stat d h \<noteq> None" using assms(4) by (intro notI) (simp add: sched_rank_def)
  hence "h \<in> dom (nodes d)" by (auto simp: stat_def)
  thus ?thesis unfolding work_left_def assms(2) using assms(1,3,4) by (intro sum_strict_mono_ex1) auto
qed

lemma exec_step_ok:
  assumes "hash_order iter" "exec_step iter d d'" "ready_inv d"
  shows "ready_inv d' \<and> work_left d' < work_left d \<and> dom (nodes d') = dom (nodes d)"
proof -
  have wf: "dag_wf d" "acyclic (dag_edges d)" "finite (dom (nodes d))" using assms(3) by (auto simp: ready_inv_def dag_wf_def)
  have moved: "ready_inv (advance now {h} to d) \<and> work_left (advance now {h} to d) < work_left d"
    if "stat d h = Some old" "can_move (Some old) to" "(old, to) \<in> {(Ready, Assigned), (Assigned, Running)}" for now h old to
  proof -
    have s: "stat (advance now {h} to d) = (stat d)(h \<mapsto> to)" using that by (auto simp: stat_advance fun_eq_iff)
    have "ready_ok (advance now {h} to d) x" for x
      using that assms(3) s by (intro ready_ok_moved [of _ d h to]) auto
    moreover have "work_left (advance now {h} to d) < work_left d"
      using that s wf(3) by (intro work_left_less [of _ _ h]) (auto simp: sched_rank_def)
    ultimately show ?thesis using wf advance_wf [OF wf(1)] by (simp add: ready_inv_def)
  qed
  from assms(2) show ?thesis
  proof cases
    case (assign h now)
    thus ?thesis using moved [OF assign(2) move_assigned, of now] by (simp add: node_transition_eq)
  next
    case (start h now)
    thus ?thesis using moved [OF start(2) move_running, of now] by (simp add: node_transition_eq)
  next
    case (succeed h later now)
    let ?d1 = "advance now {h} Completed d"
    have d': "d' = advance later (readied ?d1 {h}) Ready ?d1" and s1: "stat ?d1 = (stat d)(h \<mapsto> Completed)"
      and s: "\<And>x. stat d' x = (if x \<in> readied ?d1 {h} then Some Ready else stat ?d1 x)"
      unfolding succeed(1) by (rule succeed_stat [OF assms(1) wf(1) succeed(2)])+
    have "sched_rank (stat d' x) \<le> sched_rank (stat d x)" for x
      using s [of x] s1 by (auto simp: sched_rank_def readied_def split: if_splits)
    moreover have "sched_rank (stat d' h) < sched_rank (stat d h)"
      using s [of h] s1 succeed(2) by (auto simp: sched_rank_def readied_def)
    moreover have "ready_ok d' x" for x unfolding succeed(1) by (rule ready_ok_succeed [OF assms(1,3) succeed(2)])
    moreover have "dag_wf d'" unfolding d' by (intro advance_wf wf(1))
    ultimately show ?thesis using wf work_left_less [of d d' h] by (simp add: ready_inv_def d')
  next
    case (poison h now d1 later T)
    note P = ready_ok_poison [OF assms(1,3) poison]
    have "sched_rank (stat d' h) < sched_rank (stat d h)" using P(6) poison(1) by (auto simp: sched_rank_def)
    thus ?thesis using P wf work_left_less [of d d' h] by (simp add: ready_inv_def)
  qed
qed

lemma exec_runs_ok:
  assumes "hash_order iter" "ready_inv d"
  shows "(exec_step iter ^^ n) d d' \<Longrightarrow> ready_inv d' \<and> n + work_left d' \<le> work_left d \<and> dom (nodes d') = dom (nodes d)"
proof (induction n arbitrary: d')
  case (Suc n)
  then obtain e where "(exec_step iter ^^ n) d e" "exec_step iter e d'" by auto
  thus ?case using Suc.IH [of e] exec_step_ok [OF assms(1), of e d'] by auto
qed (simp add: assms(2))

lemma exec_progress:
  assumes "hash_order iter" "ready_inv d" "unfinished d \<noteq> {}"
  shows "\<exists>d'. exec_step iter d d'"
proof -
  have wf: "dag_wf d" "acyclic (dag_edges d)" and ok: "\<And>h. ready_ok d h" using assms(2) by (auto simp: ready_inv_def)
  have u: "h \<in> unfinished d \<longleftrightarrow> (\<exists>st. stat d h = Some st \<and> \<not> status_is_terminal st)" for h by (auto simp: unfinished_def stat_def)
  obtain h where h: "h \<in> unfinished d" "\<And>c. (c, h) \<in> (dag_edges d)\<inverse> \<Longrightarrow> c \<notin> unfinished d"
    using wfE_min' [OF dag_wf_down [OF wf] assms(3)] by metis
  have kid: "stat d c \<in> {Some Completed, Some Skipped}" if "c \<in> kids d h" "\<not> any_dep_terminally_failed d h" for c
  proof -
    have "c \<in> dom (nodes d)" using that(1) wf(1) by (auto simp: dag_wf_def edges_in_def)
    then obtain st where st: "stat d c = Some st" by (auto simp: stat_def)
    moreover have "status_is_terminal st" using h(2) [of c] that(1) u [of c] st by (auto simp: dag_edges_def)
    ultimately show ?thesis using that by (auto simp: any_dep_failed_stat status_is_terminal_def)
  qed
  obtain st where st: "stat d h = Some st" "\<not> status_is_terminal st" using h(1) u by blast
  have "st \<noteq> Queued" using ok [of h] kid st(1) unfolding ready_ok_def all_deps_completed_stat by auto
  hence "st \<in> {Ready, Assigned, Running}" using ok [of h] st by (cases st) (auto simp: ready_ok_def status_is_terminal_def)
  then consider "stat d h = Some Ready" | "stat d h = Some Assigned" | "stat d h = Some Running" using st(1) by auto
  thus ?thesis by cases (blast intro: exec_step.assign exec_step.start exec_step.succeed)+
qed

lemma work_left_bound: "finite (dom (nodes d)) \<Longrightarrow> work_left d \<le> 4 * card (dom (nodes d))"
proof -
  have "sched_rank st \<le> 4" for st by (auto simp: sched_rank_def split: option.split DerivationStatus.split)
  hence "work_left d \<le> (\<Sum>h\<in>dom (nodes d). 4)" unfolding work_left_def by (intro sum_mono) simp
  thus ?thesis by simp
qed

lemma exec_settles:
  assumes "hash_order iter"
  shows "ready_inv d \<Longrightarrow> \<exists>d'. (exec_step iter)\<^sup>*\<^sup>* d d' \<and> unfinished d' = {}"
proof (induction "work_left d" arbitrary: d rule: less_induct)
  case less
  show ?case
  proof (cases "unfinished d = {}")
    case False
    then obtain e where e: "exec_step iter d e" using exec_progress [OF assms less.prems] by blast
    obtain d' where "(exec_step iter)\<^sup>*\<^sup>* e d'" "unfinished d' = {}"
      using less.hyps [of e] exec_step_ok [OF assms e less.prems] by blast
    thus ?thesis using e by (meson converse_rtranclp_into_rtranclp)
  qed blast
qed

section \<open>Seeding\<close>

lemma seed_loop_stat:
  assumes "\<And>h. t h \<in> {Ready, Queued, DependencyFailed}"
  shows "distinct hs \<Longrightarrow> \<forall>h\<in>set hs. stat d h = Some Created \<Longrightarrow> dag_wf d \<Longrightarrow> seed_loop now (map (\<lambda>h. (h, t h)) hs) f d = (d', f') \<Longrightarrow>
    (\<forall>x. stat d' x = (if x \<in> set hs then Some (t x) else stat d x)) \<and> dag_wf d' \<and> kids d' = kids d
    \<and> f' = (case f of Some x \<Rightarrow> Some x | None \<Rightarrow> List.find (\<lambda>h. t h = DependencyFailed) hs)"
proof (induction hs arbitrary: d f)
  case (Cons h hs)
  have h: "stat d h = Some Created" and hs: "h \<notin> set hs" using Cons.prems by auto
  define e where "e = (if t h = Ready then advance now {h} Ready (advance now {h} Queued d) else advance now {h} (t h) d)"
  define g where "g = (if t h = DependencyFailed then (case f of None \<Rightarrow> Some h | Some x \<Rightarrow> Some x) else f)"
  have t: "t h = Ready \<or> t h = Queued \<or> t h = DependencyFailed" using assms [of h] by blast
  have "nodes d h \<noteq> None" using h by (auto simp: stat_def)
  hence run: "seed_loop now (map (\<lambda>h. (h, t h)) (h # hs)) f d = seed_loop now (map (\<lambda>h. (h, t h)) hs) g e"
    using t by (auto simp: e_def g_def node_transition_eq split: option.split)
  have e: "stat e x = (if x = h then Some (t h) else stat d x)" for x
    using t h move_queued move_ready move_dep_failed [of Created] by (auto simp: e_def stat_advance not_started_def)
  have wf: "dag_wf e" "kids e = kids d" using Cons.prems(3) by (auto simp: e_def intro: advance_wf)
  have "(\<forall>x. stat d' x = (if x \<in> set hs then Some (t x) else stat e x)) \<and> dag_wf d' \<and> kids d' = kids e
    \<and> f' = (case g of Some x \<Rightarrow> Some x | None \<Rightarrow> List.find (\<lambda>h. t h = DependencyFailed) hs)"
    using Cons.prems run wf(1) e hs by (intro Cons.IH) auto
  thus ?case using e hs wf(2) by (auto simp: g_def split: option.splits)
qed (auto split: option.splits)

section \<open>Properties\<close>

definition ex_pair :: "DerivationStatus \<Rightarrow> DerivationStatus \<Rightarrow> (nat, nat, nat) DerivationDag" where
  "ex_pair sp sc = ex_dag\<lparr>nodes := [''p'' \<mapsto> ex_node ''p'' sp {5, 6}, ''c'' \<mapsto> ex_node ''c'' sc {5}]\<rparr>"

lemma ex_pair_graph: "kids (ex_pair sp sc) = (\<lambda>h. if h = ''p'' then {''c''} else {})"
  "pars (ex_pair sp sc) = (\<lambda>h. if h = ''c'' then {''p''} else {})" "dag_edges (ex_pair sp sc) = dag_edges ex_dag"
  "stat (ex_pair sp sc) = [''p'' \<mapsto> sp, ''c'' \<mapsto> sc]" "dom (nodes (ex_pair sp sc)) = {''p'', ''c''}"
  by (auto simp: kids_def pars_def ex_pair_def ex_dag_def dag_edges_def stat_def node_status_def ex_node_def fun_eq_iff)

lemma ex_pair_wf: "dag_wf (ex_pair sp sc)"
  unfolding dag_wf_def mirrored_def edges_in_def path_index_exact_def node_ok_def
  by (auto simp: ex_pair_graph(1,2,5)) (auto simp: ex_pair_def ex_dag_def ex_node_def effective_features_derive_def split: if_splits)

lemma ex_pair_acyclic: "acyclic (dag_edges (ex_pair sp sc))"
  unfolding ex_pair_graph by (rule ex_dag_acyclic)

text \<open>
  C6. Liveness: from a graph that satisfies the readiness invariant, no order of assignments, starts,
  successes and poisonings can strand a derivation. Each step of a run lowers a rank, so a run has at
  most four steps per node; and in every state that a run reaches, either some step is possible or
  every derivation is terminal. So a run that goes on as long as it can ends with every derivation
  settled, and such a run exists.
\<close>

theorem executions_settle:
  assumes "hash_order iter" "ready_inv d"
  shows "(\<forall>n d'. (exec_step iter ^^ n) d d' \<longrightarrow>
            n \<le> 4 * card (dom (nodes d)) \<and> ready_inv d' \<and> ((\<exists>d''. exec_step iter d' d'') \<or> unfinished d' = {}))
    \<and> (\<exists>d'. (exec_step iter)\<^sup>*\<^sup>* d d' \<and> unfinished d' = {} \<and> dom (nodes d') = dom (nodes d))"
proof (intro conjI allI impI)
  fix n d' assume r: "(exec_step iter ^^ n) d d'"
  note ok = exec_runs_ok [OF assms r]
  have "finite (dom (nodes d))" using assms(2) by (simp add: ready_inv_def dag_wf_def)
  thus "n \<le> 4 * card (dom (nodes d))" using ok work_left_bound [of d] by simp
  show "ready_inv d'" using ok by simp
  thus "(\<exists>d''. exec_step iter d' d'') \<or> unfinished d' = {}" using exec_progress [OF assms(1)] by blast
next
  obtain d' where d': "(exec_step iter)\<^sup>*\<^sup>* d d'" "unfinished d' = {}" using exec_settles [OF assms] by blast
  then obtain n where "(exec_step iter ^^ n) d d'" by (auto simp: rtranclp_power)
  thus "\<exists>d'. (exec_step iter)\<^sup>*\<^sup>* d d' \<and> unfinished d' = {} \<and> dom (nodes d') = dom (nodes d)"
    using d' exec_runs_ok [OF assms] by blast
qed

theorem executions_settle_witness:
  "\<exists>d'. (exec_step sorted_list_of_set)\<^sup>*\<^sup>* (ex_pair Queued Ready) d' \<and> unfinished d' = {} \<and> dom (nodes d') = {''p'', ''c''}"
proof -
  have "ready_inv (ex_pair Queued Ready)"
    by (auto simp: ready_inv_def ex_pair_wf ex_dag_acyclic ready_ok_def all_deps_completed_stat any_dep_failed_stat ex_pair_graph)
  from executions_settle [OF sorted_hash_order this] show ?thesis by (simp add: ex_pair_graph)
qed

text \<open>
  C15. Seeding a submission: when the new nodes are fresh, no old node depends on a new one, the old nodes
  satisfy the readiness invariant and every new node shares a build with each dependency, seeding
  returns, gives exactly the new nodes their state - ready when all dependencies are there, dependency
  failed when a chain of dependencies leads to a failure, queued otherwise - and the whole graph
  satisfies the readiness invariant. It reports a failed node exactly when there is one.
\<close>

theorem seeding_establishes_readiness:
  assumes "hash_order iter" "dag_wf d" "acyclic (dag_edges d)" "new \<subseteq> dom (nodes d)"
    and fresh: "\<forall>h\<in>new. stat d h = Some Created"
    and old: "\<forall>h. h \<notin> new \<longrightarrow> ready_ok d h \<and> kids d h \<inter> new = {}"
    and owned: "\<forall>h\<in>new. \<forall>c\<in>kids d h. builds_co_own d h c"
  shows "\<exists>d' f. seed_initial_states iter now new d = Some (d', f) \<and> ready_inv d'
    \<and> (\<forall>h. stat d' h = (if h \<in> new then Some (initial_status d new h) else stat d h))
    \<and> (f = None \<longleftrightarrow> (\<forall>h. \<not> condemned d new h)) \<and> (\<forall>h. f = Some h \<longrightarrow> condemned d new h)"
proof -
  let ?t = "initial_status d new"
  have fin: "finite new" using assms(2,4) by (auto simp: dag_wf_def intro: finite_subset)
  obtain order where o: "compute_initial_states iter d new = Some (map (\<lambda>h. (h, ?t h)) order)" "distinct order" "set order = new"
    using compute_initial_states_exact [OF assms(1-3) fin] by metis
  obtain d' f where run: "seed_loop now (map (\<lambda>h. (h, ?t h)) order) None d = (d', f)" by fastforce
  have t: "?t h \<in> {Ready, Queued, DependencyFailed}" for h by (simp add: initial_status_def)
  from seed_loop_stat [OF t o(2) _ assms(2) run] fresh o(3)
  have s: "\<And>x. stat d' x = (if x \<in> new then Some (?t x) else stat d x)" and wf: "dag_wf d'" and k: "kids d' = kids d"
    and f: "f = List.find (\<lambda>h. ?t h = DependencyFailed) order" by auto
  have c: "condemned d new h \<longleftrightarrow> h \<in> new \<and> ?t h = DependencyFailed" for h
    by (auto simp: initial_status_def elim: condemned.cases)
  have a: "all_deps_completed d' x \<longleftrightarrow> all_deps_completed d x" for x
  proof (rule deps_cong [OF k])
    show "stat d' y \<in> {Some Completed, Some Skipped} \<longleftrightarrow> stat d y \<in> {Some Completed, Some Skipped}" for y
      using s [of y] t [of y] fresh by auto
  qed
  have "ready_ok d' x" for x
  proof (cases "x \<in> new")
    case True
    have "condemned d new x" if q: "?t x = Queued" and y: "y \<in> kids d x" "stat d' y \<in> {Some Poisoned, Some DependencyFailed, Some Cancelled}" for y
    proof (cases "y \<in> new")
      case True
      hence "condemned d new y" using y(2) s [of y] t [of y] c [of y] by auto
      thus ?thesis using \<open>x \<in> new\<close> q y(1) owned by (intro condemned.above [of x new d y]) (auto simp: initial_status_def split: if_splits)
    next
      case False
      thus ?thesis using \<open>x \<in> new\<close> q y s [of y] owned
        by (intro condemned.failed [of x new d y]) (auto simp: initial_status_def split: if_splits)
    qed
    hence "\<not> any_dep_terminally_failed d' x" if "?t x = Queued" using that c [of x] by (auto simp: any_dep_failed_stat k)
    thus ?thesis using True s [of x] t [of x] unfolding ready_ok_def a by (auto simp: initial_status_def split: if_splits)
  next
    case False
    have "any_dep_terminally_failed d' x \<longleftrightarrow> any_dep_terminally_failed d x"
      using old False s by (auto simp: any_dep_failed_stat k)
    thus ?thesis using old False s [of x] unfolding ready_ok_def a by simp
  qed
  moreover have "acyclic (dag_edges d')" using assms(3) k by (simp add: dag_edges_def)
  moreover have "f = None \<longleftrightarrow> (\<forall>h. \<not> condemned d new h)" "f = Some h \<Longrightarrow> condemned d new h" for h
    using c o(3) unfolding f by (auto simp: find_None_iff find_Some_iff)
  ultimately show ?thesis using o(1) run s wf by (auto simp: seed_initial_states_def ready_inv_def)
qed

theorem seeding_establishes_readiness_witness:
  "\<exists>d' f. seed_initial_states sorted_list_of_set (\<lambda>_. 9) {''p''} (ex_pair Created Poisoned) = Some (d', f)
    \<and> stat d' ''p'' = Some DependencyFailed \<and> f \<noteq> None"
proof -
  let ?d = "ex_pair Created Poisoned"
  have old: "\<forall>h. h \<notin> {''p''} \<longrightarrow> ready_ok ?d h \<and> kids ?d h \<inter> {''p''} = {}" by (auto simp: ready_ok_def ex_pair_graph)
  have own: "builds_co_own ?d ''p'' ''c''" by (simp add: builds_co_own_def ex_pair_def ex_node_def)
  have "condemned ?d {''p''} ''p''"
    using own by (intro condemned.failed [of _ _ _ "''c''"]) (auto simp: all_deps_completed_stat ex_pair_graph)
  moreover have "\<exists>d' f. seed_initial_states sorted_list_of_set (\<lambda>_. 9) {''p''} ?d = Some (d', f) \<and> ready_inv d'
    \<and> (\<forall>h. stat d' h = (if h \<in> {''p''} then Some (initial_status ?d {''p''} h) else stat ?d h))
    \<and> (f = None \<longleftrightarrow> (\<forall>h. \<not> condemned ?d {''p''} h)) \<and> (\<forall>h. f = Some h \<longrightarrow> condemned ?d {''p''} h)"
    using old own by (intro seeding_establishes_readiness sorted_hash_order ex_pair_wf ex_pair_acyclic) (auto simp: ex_pair_graph)
  ultimately show ?thesis by (auto simp: initial_status_def all_deps_completed_stat ex_pair_graph)
qed

text \<open>
  C23. A failure reaches exactly the derivations it dooms: the cascade from \<open>h\<close> returns, fails exactly
  the nodes connected to \<open>h\<close> by a chain of dependents that have all not started, reports them, and
  touches nothing else - no running, assigned or settled node.
\<close>

theorem failure_cascade_exact:
  assumes "hash_order iter" "dag_wf d"
  shows "cascade_dependency_failure iter now h d = Some (advance now (doomed d h) DependencyFailed d, doomed d h)
    \<and> (\<forall>x. stat (advance now (doomed d h) DependencyFailed d) x = (if x \<in> doomed d h then Some DependencyFailed else stat d x))"
proof -
  have n: "\<exists>st. stat d x = Some st \<and> not_started st" if "x \<in> doomed d h" for x using that by (auto elim: doomed.cases)
  have "stat (advance now (doomed d h) DependencyFailed d) x = (if x \<in> doomed d h then Some DependencyFailed else stat d x)" for x
    using n [of x] move_dep_failed by (auto simp: stat_advance)
  thus ?thesis using cascade_exact [OF assms] by simp
qed

theorem failure_cascade_exact_witness:
  "\<exists>d' T. cascade_dependency_failure sorted_list_of_set (\<lambda>_. 9) ''c'' (ex_pair Queued Poisoned) = Some (d', T)
    \<and> T = {''p''} \<and> stat d' ''p'' = Some DependencyFailed \<and> stat d' ''c'' = Some Poisoned"
proof -
  have "x = ''p''" if "x \<in> doomed (ex_pair Queued Poisoned) ''c''" for x
    using that by (induction rule: doomed.induct) (auto simp: ex_pair_graph split: if_splits)
  moreover have "''p'' \<in> doomed (ex_pair Queued Poisoned) ''c''"
    by (rule doomed.parent [of _ _ _ Queued]) (auto simp: ex_pair_graph not_started_def)
  ultimately have "doomed (ex_pair Queued Poisoned) ''c'' = {''p''}" by blast
  thus ?thesis
    using failure_cascade_exact [OF sorted_hash_order ex_pair_wf, of "\<lambda>_. 9" "''c''" Queued Poisoned] by (auto simp: ex_pair_graph)
qed

section \<open>Removed dependencies\<close>

definition survivor_ready :: "(string \<Rightarrow> bool) \<Rightarrow> ('e, 'u, 'f) DerivationDag \<Rightarrow> string \<Rightarrow> bool" where
  "survivor_ready has_unresolved_job d p \<longleftrightarrow> stat d p = Some Queued \<and> all_deps_completed d p
     \<and> interested_builds (the (nodes d p)) \<noteq> {} \<and> \<not> has_unresolved_job p"

lemma reevaluate_run:
  "S \<subseteq> Collect (survivor_ready job d) \<Longrightarrow>
   reevaluate_removal_survivors job now ps (advance now S Ready d)
     = advance now (S \<union> {p \<in> set ps. survivor_ready job d p}) Ready d"
proof (induction ps arbitrary: S)
  case (Cons p ps)
  let ?d = "advance now S Ready d"
  have S: "stat d x = Some Queued" if "x \<in> S" for x using that Cons.prems by (auto simp: survivor_ready_def)
  have a: "all_deps_completed ?d p \<longleftrightarrow> all_deps_completed d p" using S by (intro all_deps_completed_advance) auto
  have q: "stat ?d p = Some Queued \<longleftrightarrow> stat d p = Some Queued \<and> p \<notin> S" using S move_ready by (auto simp: stat_advance)
  have i: "interested_builds (the (nodes ?d p)) = interested_builds (the (nodes d p))" if "nodes d p \<noteq> None"
    using that by (auto simp: advance_nodes)
  have step: "reevaluate_removal_survivors job now (p # ps) ?d
    = reevaluate_removal_survivors job now ps (if survivor_ready job d p \<and> p \<notin> S then advance now {p} Ready ?d else ?d)"
  proof (cases "nodes ?d p")
    case None
    hence "\<not> survivor_ready job d p" by (auto simp: survivor_ready_def stat_def advance_nodes split: if_splits)
    thus ?thesis using None by simp
  next
    case (Some s)
    have st: "stat ?d p = Some (node_status s)" using Some by (simp add: stat_def)
    have "nodes d p \<noteq> None" using Some by (auto simp: advance_nodes split: if_splits)
    hence "survivor_ready job d p \<and> p \<notin> S \<longleftrightarrow> node_status s = Queued \<and> all_deps_completed ?d p \<and> interested_builds s \<noteq> {} \<and> \<not> job p"
      using i Some st q a by (auto simp: survivor_ready_def)
    thus ?thesis using Some by (auto simp: node_transition_eq status_is_terminal_def)
  qed
  show ?case
  proof (cases "survivor_ready job d p \<and> p \<notin> S")
    case True
    have "reevaluate_removal_survivors job now ps (advance now (S \<union> {p}) Ready d)
      = advance now (S \<union> {p} \<union> {p \<in> set ps. survivor_ready job d p}) Ready d"
      using Cons.prems True by (intro Cons.IH) auto
    moreover have "S \<union> {p} \<union> {p \<in> set ps. survivor_ready job d p} = S \<union> {x \<in> set (p # ps). survivor_ready job d x}"
      using True by auto
    ultimately show ?thesis using step True by (simp add: advance_Un)
  next
    case False
    hence "S \<union> {p \<in> set ps. survivor_ready job d p} = S \<union> {x \<in> set (p # ps). survivor_ready job d x}" by auto
    thus ?thesis using step False Cons.IH [OF Cons.prems] by simp
  qed
qed simp

text \<open>
  C25. Reaping strands nobody: a queued node always waits for something. If every queued node of the graph
  has an unfinished dependency, then after a build's interest is removed, its settled nodes are reaped
  and the survivors re-evaluated, every queued node that some build wants and no materialization job
  carries still has one, and the nodes made ready are exactly those whose dependencies are now all there.
\<close>

theorem reap_strands_nobody:
  assumes "hash_order iter" "dag_wf d" "\<forall>h. stat d h = Some Queued \<longrightarrow> \<not> all_deps_completed d h"
    and "remove_build_interest_and_reap iter d b = (d1, out)"
    and "d' = reevaluate_removal_survivors has_unresolved_job now (surviving_parents out) d1"
  shows "(\<forall>h. stat d' h = Some Queued \<longrightarrow> interested_builds (the (nodes d' h)) \<noteq> {} \<longrightarrow> \<not> has_unresolved_job h
            \<longrightarrow> \<not> all_deps_completed d' h)
    \<and> d' = advance now {h. survivor_ready has_unresolved_job d1 h} Ready d1"
proof -
  define R where "R = {h. \<exists>s. nodes d h = Some s \<and> reap_candidate (strip_interest b s)}"
  note o = reap_outcome [OF assms(1,2,4) R_def]
  have keep: "stat d1 h = (if h \<in> R then None else stat d h)" for h
    using o by (cases "nodes d h") (auto simp: stat_def restrict_map_def strip_interest_def node_status_def)
  have kept: "h \<in> set (surviving_parents out)" if "survivor_ready has_unresolved_job d1 h" for h
  proof (rule ccontr)
    assume n: "h \<notin> set (surviving_parents out)"
    have h: "h \<notin> R" "stat d h = Some Queued" using that keep [of h] by (auto simp: survivor_ready_def split: if_splits)
    hence none: "kids d h \<inter> R = {}" using n o by (auto simp: dag_edges_def)
    have "kids d1 h = kids d h"
    proof -
      have "c \<in> kids d1 h \<longleftrightarrow> c \<in> kids d h \<and> h \<notin> R \<and> c \<notin> R" for c using o by (auto simp: dag_edges_def)
      thus ?thesis using h(1) none by blast
    qed
    moreover have "stat d1 c = stat d c" if "c \<in> kids d h" for c using that none keep [of c] by auto
    ultimately have "all_deps_completed d h" using that unfolding survivor_ready_def all_deps_completed_stat by auto
    thus False using assms(3) h(2) by blast
  qed
  hence "{h. survivor_ready has_unresolved_job d1 h} = {} \<union> {h \<in> set (surviving_parents out). survivor_ready has_unresolved_job d1 h}" by blast
  hence d': "d' = advance now {h. survivor_ready has_unresolved_job d1 h} Ready d1" (is "_ = advance now ?S Ready d1")
    using reevaluate_run [of "{}" has_unresolved_job d1 now "surviving_parents out"] assms(5) by simp
  have "\<not> all_deps_completed d' h" if h: "stat d' h = Some Queued" "interested_builds (the (nodes d' h)) \<noteq> {}" "\<not> has_unresolved_job h" for h
  proof -
    have "h \<notin> ?S"
    proof
      assume "h \<in> ?S"
      hence "stat d' h = Some Ready" using move_ready by (simp add: d' stat_advance survivor_ready_def)
      thus False using h(1) by simp
    qed
    moreover have "all_deps_completed d' h \<longleftrightarrow> all_deps_completed d1 h"
      unfolding d' by (rule all_deps_completed_advance) (auto simp: survivor_ready_def)
    ultimately show ?thesis using h by (auto simp: d' stat_advance advance_nodes survivor_ready_def)
  qed
  thus ?thesis using d' by blast
qed

theorem reap_strands_nobody_witness:
  "\<exists>d1 out d'. remove_build_interest_and_reap sorted_list_of_set (ex_pair Queued Cancelled) 5 = (d1, out)
    \<and> d' = reevaluate_removal_survivors (\<lambda>_. False) (\<lambda>_. 9) (surviving_parents out) d1
    \<and> d' = advance (\<lambda>_. 9) {h. survivor_ready (\<lambda>_. False) d1 h} Ready d1"
proof -
  obtain d1 out where r: "remove_build_interest_and_reap sorted_list_of_set (ex_pair Queued Cancelled) 5 = (d1, out)" by fastforce
  have "\<forall>h. stat (ex_pair Queued Cancelled) h = Some Queued \<longrightarrow> \<not> all_deps_completed (ex_pair Queued Cancelled) h"
    by (auto simp: all_deps_completed_stat ex_pair_graph)
  from reap_strands_nobody [OF sorted_hash_order ex_pair_wf this r refl, of "\<lambda>_. False" "\<lambda>_. 9"] r show ?thesis by blast
qed

end
