(* ===== verification/Sched_Cutoff.thy ===== *)
theory Sched_Cutoff
  imports Sched_Ready
begin

text \<open>
  The remaining queries of the derivation graph (\<open>rio-scheduler/src/dag/mod.rs\<close>): the early cutoff of
  content-addressed derivations, the roots of a build and its summary. The check that a candidate's
  outputs exist is the argument \<open>verify\<close>.
\<close>

section \<open>Early cutoff\<close>

definition MAX_CASCADE_NODES :: nat where
  "MAX_CASCADE_NODES = 1000"

definition find_cutoff_eligible_speculative ::
  "(string set \<Rightarrow> string list) \<Rightarrow> ('e, 'u, 'f) DerivationDag \<Rightarrow> string \<Rightarrow> string set \<Rightarrow> string list" where
  "find_cutoff_eligible_speculative iter d completed_hash provisional_skipped =
     filter (\<lambda>p. case nodes d p of
                   None \<Rightarrow> False
                 | Some s \<Rightarrow>
                     \<not> (node_status s \<noteq> Queued \<or> p \<in> provisional_skipped)
                     \<and> (case children d p of
                          None \<Rightarrow> True
                        | Some deps \<Rightarrow>
                            (\<forall>x\<in>deps. x \<in> provisional_skipped
                               \<or> (case nodes d x of None \<Rightarrow> False | Some n \<Rightarrow> status_is_terminal (node_status n)))))
       (get_parents iter d completed_hash)"

text \<open>The inner loop: the last component is \<open>cap_hit\<close>, which leaves both loops.\<close>

fun visit_each ::
  "nat \<Rightarrow> string list \<Rightarrow> string list \<Rightarrow> string set \<Rightarrow> string list \<Rightarrow> string list \<times> string set \<times> string list \<times> bool" where
  "visit_each max_nodes [] reachable visited frontier = (reachable, visited, frontier, False)"
| "visit_each max_nodes (x # xs) reachable visited frontier =
     (if x \<in> visited then visit_each max_nodes xs reachable visited frontier
      else let visited = insert x visited; reachable = reachable @ [x]
           in if length reachable \<ge> max_nodes then (reachable, visited, frontier, True)
              else visit_each max_nodes xs reachable visited (frontier @ [x]))"

text \<open>\<open>frontier\<close> is a stack whose top is the last element.\<close>

partial_function (option) walk_loop ::
  "nat \<Rightarrow> (string \<Rightarrow> string set \<Rightarrow> string list) \<Rightarrow> string list \<Rightarrow> string set \<Rightarrow> string list \<Rightarrow> (string list \<times> bool) option" where
  "walk_loop max_nodes expand reachable visited frontier =
     (if frontier = [] then Some (reachable, False)
      else case visit_each max_nodes (expand (last frontier) visited) reachable visited (butlast frontier) of
             (reachable', visited', frontier', cap_hit) \<Rightarrow>
               if cap_hit then Some (reachable', True)
               else walk_loop max_nodes expand reachable' visited' frontier')"

definition speculative_cascade_reachable ::
  "string \<Rightarrow> nat \<Rightarrow> (string \<Rightarrow> string set \<Rightarrow> string list) \<Rightarrow> (string list \<times> bool) option" where
  "speculative_cascade_reachable trigger max_nodes expand = walk_loop max_nodes expand [] {} [trigger]"

fun skip_each ::
  "(string \<Rightarrow> Instant) \<Rightarrow> string list \<Rightarrow> ('e, 'u, 'f) DerivationDag \<Rightarrow> string list
   \<Rightarrow> ('e, 'u, 'f) DerivationDag \<times> string list" where
  "skip_each now [] d skipped = (d, skipped)"
| "skip_each now (h # hs) d skipped =
     (case node_transition now h Skipped d of
        (d', ok) \<Rightarrow> skip_each now hs d' (if ok then skipped @ [h] else skipped))"

definition cascade_cutoff ::
  "(string set \<Rightarrow> string list) \<Rightarrow> (string \<Rightarrow> Instant) \<Rightarrow> string \<Rightarrow> (string \<Rightarrow> bool) \<Rightarrow> ('e, 'u, 'f) DerivationDag
   \<Rightarrow> (('e, 'u, 'f) DerivationDag \<times> string list \<times> bool) option" where
  "cascade_cutoff iter now trigger verify d =
     (case nodes d trigger of
        None \<Rightarrow> Some (d, [], False)
      | Some _ \<Rightarrow>
          (case speculative_cascade_reachable trigger MAX_CASCADE_NODES
                  (\<lambda>current visited. filter verify (find_cutoff_eligible_speculative iter d current visited)) of
             None \<Rightarrow> None
           | Some (candidates, cap_hit) \<Rightarrow>
               (case skip_each now candidates d [] of (d', skipped) \<Rightarrow> Some (d', skipped, cap_hit))))"

section \<open>Roots and summary of a build\<close>

definition find_roots ::
  "(string set \<Rightarrow> string list) \<Rightarrow> ('e, 'u, 'f) DerivationDag \<Rightarrow> 'u \<Rightarrow> string list" where
  "find_roots iter d b =
     filter (\<lambda>h. \<not> (case parents d h of
                       None \<Rightarrow> False
                     | Some ps \<Rightarrow> (\<exists>p\<in>ps. case nodes d p of None \<Rightarrow> False | Some s \<Rightarrow> b \<in> interested_builds s)))
       (filter (\<lambda>h. case nodes d h of None \<Rightarrow> False | Some s \<Rightarrow> b \<in> interested_builds s) (iter (dom (nodes d))))"

record ('e, 'f) BuildSummary =
  sum_total :: u32
  sum_completed :: u32
  sum_running :: u32
  sum_failed :: u32
  sum_queued :: u32
  critpath_remaining :: 'f
  assigned_executors :: "'e list"

definition summary_default :: "('e, 'f::zero) BuildSummary" where
  "summary_default = \<lparr>sum_total = 0, sum_completed = 0, sum_running = 0, sum_failed = 0, sum_queued = 0,
     critpath_remaining = 0, assigned_executors = []\<rparr>"

fun summary_status ::
  "DerivationStatus \<Rightarrow> AttemptKind option \<Rightarrow> 'e option \<Rightarrow> ('e, 'f) BuildSummary \<times> 'e set \<Rightarrow> ('e, 'f) BuildSummary \<times> 'e set" where
  "summary_status Completed k w (s, ws) = (s\<lparr>sum_completed := sum_completed s + 1\<rparr>, ws)"
| "summary_status Skipped k w (s, ws) = (s\<lparr>sum_completed := sum_completed s + 1\<rparr>, ws)"
| "summary_status Running k w (s, ws) =
     ((if k \<noteq> Some Materialization then s\<lparr>sum_running := sum_running s + 1\<rparr> else s), set_option w \<union> ws)"
| "summary_status Assigned k w (s, ws) =
     ((if k \<noteq> Some Materialization then s\<lparr>sum_running := sum_running s + 1\<rparr> else s), set_option w \<union> ws)"
| "summary_status Failed k w (s, ws) = (s\<lparr>sum_failed := sum_failed s + 1\<rparr>, ws)"
| "summary_status Poisoned k w (s, ws) = (s\<lparr>sum_failed := sum_failed s + 1\<rparr>, ws)"
| "summary_status DependencyFailed k w (s, ws) = (s\<lparr>sum_failed := sum_failed s + 1\<rparr>, ws)"
| "summary_status Cancelled k w (s, ws) = (s\<lparr>sum_failed := sum_failed s + 1\<rparr>, ws)"
| "summary_status Ready k w (s, ws) = (s\<lparr>sum_queued := sum_queued s + 1\<rparr>, ws)"
| "summary_status Queued k w (s, ws) = (s\<lparr>sum_queued := sum_queued s + 1\<rparr>, ws)"
| "summary_status Created k w (s, ws) = (s\<lparr>sum_queued := sum_queued s + 1\<rparr>, ws)"

definition summary_node ::
  "'u \<Rightarrow> ('e, 'u, 'f::linorder) DagNode \<Rightarrow> ('e, 'f) BuildSummary \<times> 'e set \<Rightarrow> ('e, 'f) BuildSummary \<times> 'e set" where
  "summary_node b n acc =
     (if b \<notin> interested_builds n then acc
      else case summary_status (node_status n) (open_attempt_kind (machine n)) (assigned_executor (machine n))
                  (map_prod (\<lambda>s. s\<lparr>sum_total := sum_total s + 1\<rparr>) id acc) of
             (s, ws) \<Rightarrow>
               (if status_is_terminal (node_status n) then s
                else s\<lparr>critpath_remaining := max (critpath_remaining s) (priority n)\<rparr>, ws))"

definition build_summary ::
  "(string set \<Rightarrow> string list) \<Rightarrow> ('e::linorder, 'u, 'f::{zero, linorder}) DerivationDag \<Rightarrow> 'u \<Rightarrow> ('e, 'f) BuildSummary" where
  "build_summary iter d b =
     (case fold (summary_node b) (map (\<lambda>h. the (nodes d h)) (iter (dom (nodes d)))) (summary_default, {}) of
        (s, workers) \<Rightarrow> s\<lparr>assigned_executors := sorted_list_of_set workers\<rparr>)"

section \<open>The cutoff set\<close>

text \<open>
  What a cutoff may skip: queued, verified nodes that depend on the trigger or on a skipped node and all
  of whose dependencies are finished or skipped themselves.
\<close>

inductive_set cutoff :: "('e, 'u, 'f) DerivationDag \<Rightarrow> (string \<Rightarrow> bool) \<Rightarrow> string \<Rightarrow> string set" for d verify trigger where
  "stat d p = Some Queued \<Longrightarrow> verify p \<Longrightarrow> c \<in> kids d p \<Longrightarrow> c = trigger \<or> c \<in> cutoff d verify trigger
   \<Longrightarrow> (\<And>x. x \<in> kids d p \<Longrightarrow> x \<in> cutoff d verify trigger \<or> x \<notin> unfinished d) \<Longrightarrow> p \<in> cutoff d verify trigger"

definition cut_ready :: "('e, 'u, 'f) DerivationDag \<Rightarrow> (string \<Rightarrow> bool) \<Rightarrow> string set \<Rightarrow> string \<Rightarrow> bool" where
  "cut_ready d verify V p \<longleftrightarrow> stat d p = Some Queued \<and> verify p \<and> (\<forall>x\<in>kids d p. x \<in> V \<or> x \<notin> unfinished d)"

lemma expand_exact:
  fixes c :: string and V :: "string set" and verify :: "string \<Rightarrow> bool"
  assumes "hash_order iter" "dag_wf d"
  defines "xs \<equiv> filter verify (find_cutoff_eligible_speculative iter d c V)"
  shows "set xs = {p \<in> pars d c. p \<notin> V \<and> cut_ready d verify V p}" "distinct xs"
proof -
  have dep: "(case nodes d x of None \<Rightarrow> False | Some n \<Rightarrow> status_is_terminal (node_status n)) \<longleftrightarrow> x \<notin> unfinished d"
    if "x \<in> kids d p" for x p
  proof -
    have "x \<in> dom (nodes d)" using that assms(2) by (auto simp: dag_wf_def edges_in_def)
    thus ?thesis by (auto simp: unfinished_def)
  qed
  have all: "(case children d p of None \<Rightarrow> True
      | Some deps \<Rightarrow> (\<forall>x\<in>deps. x \<in> V \<or> (case nodes d x of None \<Rightarrow> False | Some n \<Rightarrow> status_is_terminal (node_status n))))
    \<longleftrightarrow> (\<forall>x\<in>kids d p. x \<in> V \<or> x \<notin> unfinished d)" for p
    using dep [of _ p] by (cases "children d p") (simp_all add: kids_def)
  show "set xs = {p \<in> pars d c. p \<notin> V \<and> cut_ready d verify V p}"
    unfolding xs_def find_cutoff_eligible_speculative_def all cut_ready_def stat_def
    using set_get_parents [OF assms(1,2), of c] by (auto split: option.splits)
  show "distinct xs" unfolding xs_def find_cutoff_eligible_speculative_def
    using distinct_get_parents [OF assms(1,2)] by simp
qed

lemma visit_each_run:
  "distinct xs \<Longrightarrow> set xs \<inter> V = {} \<Longrightarrow> length r < m \<Longrightarrow>
   (length (r @ xs) < m \<and> visit_each m xs r V f = (r @ xs, V \<union> set xs, f @ xs, False))
   \<or> (\<exists>k f' V'. k \<le> length xs \<and> length (r @ take k xs) = m \<and> visit_each m xs r V f = (r @ take k xs, V', f', True))"
proof (induction xs arbitrary: r V f)
  case (Cons x xs)
  show ?case
  proof (cases "length (r @ [x]) \<ge> m")
    case True
    hence "visit_each m (x # xs) r V f = (r @ take 1 (x # xs), insert x V, f, True)" "length (r @ take 1 (x # xs)) = m"
      using Cons.prems by (auto simp: Let_def)
    thus ?thesis by (intro disjI2 exI [of _ 1]) auto
  next
    case False
    have step: "visit_each m (x # xs) r V f = visit_each m xs (r @ [x]) (insert x V) (f @ [x])" using Cons.prems False by (simp add: Let_def)
    have "(length ((r @ [x]) @ xs) < m \<and> visit_each m xs (r @ [x]) (insert x V) (f @ [x]) = ((r @ [x]) @ xs, insert x V \<union> set xs, (f @ [x]) @ xs, False))
      \<or> (\<exists>k f' V'. k \<le> length xs \<and> length ((r @ [x]) @ take k xs) = m
          \<and> visit_each m xs (r @ [x]) (insert x V) (f @ [x]) = ((r @ [x]) @ take k xs, V', f', True))"
      using Cons.prems False by (intro Cons.IH) auto
    thus ?thesis
    proof (elim disjE exE conjE)
      fix k f' V'
      assume "k \<le> length xs" "length ((r @ [x]) @ take k xs) = m"
        "visit_each m xs (r @ [x]) (insert x V) (f @ [x]) = ((r @ [x]) @ take k xs, V', f', True)"
      thus ?thesis using step by (intro disjI2 exI [of _ "Suc k"]) simp
    qed (use step in simp)
  qed
qed simp

definition walk_inv ::
  "('e, 'u, 'f) DerivationDag \<Rightarrow> (string \<Rightarrow> bool) \<Rightarrow> string \<Rightarrow> nat \<Rightarrow> string list \<Rightarrow> string set \<Rightarrow> string list \<Rightarrow> bool" where
  "walk_inv d verify trigger m r V f \<longleftrightarrow> set r = V \<and> distinct r \<and> length r < m \<and> V \<subseteq> cutoff d verify trigger
     \<and> set f \<subseteq> insert trigger V
     \<and> (\<forall>p. p \<notin> V \<longrightarrow> cut_ready d verify V p \<longrightarrow> kids d p \<inter> insert trigger V \<noteq> {} \<longrightarrow> kids d p \<inter> set f \<noteq> {})"

lemma cutoff_step:
  assumes "cut_ready d verify V p" "V \<subseteq> cutoff d verify trigger" "c \<in> kids d p" "c \<in> insert trigger V"
  shows "p \<in> cutoff d verify trigger"
  using assms unfolding cut_ready_def by (intro cutoff.intros [of d p verify c]) auto

lemma walk_finished:
  assumes "walk_inv d verify trigger m r V []"
  shows "V = cutoff d verify trigger"
proof (intro equalityI subsetI)
  fix p assume "p \<in> cutoff d verify trigger"
  thus "p \<in> V"
  proof (induction rule: cutoff.induct)
    case (1 p c)
    have "cut_ready d verify V p" using 1 by (auto simp: cut_ready_def)
    moreover have "kids d p \<inter> insert trigger V \<noteq> {}" using 1 by auto
    ultimately show ?case using assms by (auto simp: walk_inv_def)
  qed
qed (use assms in \<open>auto simp: walk_inv_def\<close>)

lemma walk_step:
  assumes inv: "walk_inv d verify trigger m r V (f @ [c])" and m: "\<And>p c. c \<in> kids d p \<longleftrightarrow> p \<in> pars d c"
    and xs: "set xs = {p \<in> pars d c. p \<notin> V \<and> cut_ready d verify V p}" "distinct xs"
  shows "set xs \<inter> V = {}" "set xs \<subseteq> cutoff d verify trigger"
    "length (r @ xs) < m \<Longrightarrow> walk_inv d verify trigger m (r @ xs) (V \<union> set xs) (f @ xs)"
proof -
  have i: "set r = V" "distinct r" "V \<subseteq> cutoff d verify trigger" "set (f @ [c]) \<subseteq> insert trigger V"
    "\<And>p. p \<notin> V \<Longrightarrow> cut_ready d verify V p \<Longrightarrow> kids d p \<inter> insert trigger V \<noteq> {} \<Longrightarrow> kids d p \<inter> set (f @ [c]) \<noteq> {}"
    using inv unfolding walk_inv_def by blast+
  show new: "set xs \<inter> V = {}" using xs(1) by blast
  show sub: "set xs \<subseteq> cutoff d verify trigger"
  proof
    fix p assume "p \<in> set xs"
    hence p: "cut_ready d verify V p" "c \<in> kids d p" using xs(1) m by auto
    show "p \<in> cutoff d verify trigger" using cutoff_step [OF p(1) i(3) p(2)] i(4) by simp
  qed
  assume len: "length (r @ xs) < m"
  have "kids d p \<inter> set (f @ xs) \<noteq> {}"
    if p: "p \<notin> V \<union> set xs" "cut_ready d verify (V \<union> set xs) p" "kids d p \<inter> insert trigger (V \<union> set xs) \<noteq> {}" for p
  proof (cases "kids d p \<inter> set xs = {}")
    case True
    hence r: "cut_ready d verify V p" "kids d p \<inter> insert trigger V \<noteq> {}" using p(2,3) by (auto simp: cut_ready_def)
    hence "c \<notin> kids d p" using p(1) xs(1) m by auto
    thus ?thesis using i(5) [of p] r p(1) by auto
  qed auto
  thus "walk_inv d verify trigger m (r @ xs) (V \<union> set xs) (f @ xs)"
    using i new sub len xs(2) unfolding walk_inv_def by auto
qed

lemma walk_loop_exact:
  assumes "hash_order iter" "dag_wf d"
  shows "walk_inv d verify trigger m r V f \<Longrightarrow>
    \<exists>r' cap. walk_loop m (\<lambda>current visited. filter verify (find_cutoff_eligible_speculative iter d current visited)) r V f = Some (r', cap)
      \<and> distinct r' \<and> set r' \<subseteq> cutoff d verify trigger \<and> length r' \<le> m \<and> (cap \<longleftrightarrow> length r' = m)
      \<and> (\<not> cap \<longrightarrow> set r' = cutoff d verify trigger)"
    (is "_ \<Longrightarrow> ?P r V f")
proof (induction "(card (dom (nodes d) - V), length f)" arbitrary: r V f
    rule: wf_induct_rule [OF wf_lex_prod [OF wf_less_than wf_less_than]])
  case 1
  note IH = 1(1) and inv = 1(2)
  show ?case
  proof (cases "f = []")
    case True
    have "V = cutoff d verify trigger" using inv walk_finished True by blast
    moreover have "set r = V" "distinct r" "length r < m" using inv by (simp_all add: walk_inv_def)
    ultimately show ?thesis using True by (subst walk_loop.simps) simp
  next
    case False
    then obtain f0 c where f: "f = f0 @ [c]" by (metis rev_exhaust)
    let ?xs = "filter verify (find_cutoff_eligible_speculative iter d c V)"
    note xs = expand_exact [OF assms, of verify c V]
    have mir: "c \<in> kids d p \<longleftrightarrow> p \<in> pars d c" for p c using assms(2) by (simp add: dag_wf_def mirrored_def)
    note w = walk_step [OF inv [unfolded f] mir xs]
    have r: "length r < m" "set r = V" "distinct r" "V \<subseteq> cutoff d verify trigger" using inv by (simp_all add: walk_inv_def)
    from visit_each_run [OF xs(2) w(1) r(1), of f0] show ?thesis
    proof (elim disjE exE conjE)
      assume len: "length (r @ ?xs) < m" and v: "visit_each m ?xs r V f0 = (r @ ?xs, V \<union> set ?xs, f0 @ ?xs, False)"
      have "?P (r @ ?xs) (V \<union> set ?xs) (f0 @ ?xs)"
      proof (rule IH [OF _ w(3) [OF len]])
        show "((card (dom (nodes d) - (V \<union> set ?xs)), length (f0 @ ?xs)), card (dom (nodes d) - V), length f) \<in> less_than <*lex*> less_than"
        proof (cases "?xs = []")
          case False
          then obtain x where x: "x \<in> set ?xs" by (meson last_in_set)
          hence "x \<in> dom (nodes d) - V" using w(1) xs(1) by (auto simp: cut_ready_def stat_def)
          hence "card (dom (nodes d) - (V \<union> set ?xs)) < card (dom (nodes d) - V)"
            using x assms(2) by (intro psubset_card_mono) (auto simp: dag_wf_def)
          thus ?thesis by simp
        qed (use f in simp)
      qed
      thus ?thesis using f v by (subst walk_loop.simps) simp
    next
      fix k f' V'
      assume k: "k \<le> length ?xs" "length (r @ take k ?xs) = m" and v: "visit_each m ?xs r V f0 = (r @ take k ?xs, V', f', True)"
      have "distinct (r @ take k ?xs)" using r xs(2) w(1) set_take_subset [of k ?xs] by (auto simp: distinct_take)
      moreover have "set (r @ take k ?xs) \<subseteq> cutoff d verify trigger" using r w(2) set_take_subset [of k ?xs] by auto
      ultimately show ?thesis using f v k(2) by (subst walk_loop.simps) simp
    qed
  qed
qed

lemma skip_each_run:
  "distinct hs \<Longrightarrow> \<forall>h\<in>set hs. stat d h = Some Queued \<Longrightarrow> skip_each now hs d sk = (advance now (set hs) Skipped d, sk @ hs)"
proof (induction hs arbitrary: d sk)
  case (Cons h hs)
  have "can_move (stat d h) Skipped" using Cons.prems by (simp add: can_move_def valid_simps)
  hence "skip_each now (h # hs) d sk = skip_each now hs (advance now {h} Skipped d) (sk @ [h])" by (simp add: node_transition_eq)
  also have "\<dots> = (advance now (set hs) Skipped (advance now {h} Skipped d), (sk @ [h]) @ hs)"
    using Cons.prems by (intro Cons.IH) (auto simp: stat_advance)
  also have "advance now (set hs) Skipped (advance now {h} Skipped d) = advance now (set (h # hs)) Skipped d"
    using Cons.prems by (simp add: advance_Un)
  finally show ?case by simp
qed simp

section \<open>The summary counts\<close>

definition build_nodes :: "('e, 'u, 'f) DerivationDag \<Rightarrow> 'u \<Rightarrow> string set" where
  "build_nodes d b = {h. \<exists>s. nodes d h = Some s \<and> b \<in> interested_builds s}"

definition build_count :: "('e, 'u, 'f) DerivationDag \<Rightarrow> 'u \<Rightarrow> (('e, 'u, 'f) DagNode \<Rightarrow> bool) \<Rightarrow> u32" where
  "build_count d b P = of_nat (card {h \<in> build_nodes d b. P (the (nodes d h))})"

lemma fold_count:
  fixes g :: "'a \<Rightarrow> u32"
  assumes "\<And>n acc. g (f n acc) = g acc + (if P n then 1 else 0)"
  shows "g (fold f ns acc) = g acc + of_nat (length (filter P ns))"
  by (induction ns arbitrary: acc) (simp_all add: assms)

lemma fold_max:
  fixes g :: "'a \<Rightarrow> 'f::linorder"
  assumes "\<And>n acc. g (f n acc) = (if P n then max (g acc) (v n) else g acc)"
  shows "g (fold f ns acc) = Max (insert (g acc) (v ` {n \<in> set ns. P n}))"
proof (induction ns arbitrary: acc)
  case (Cons n ns)
  have m: "Max (insert (max a b) A) = Max (insert a (insert b A))" if "finite A" for a b and A :: "'f set"
    using that by (cases "A = {}") (simp_all add: max.assoc)
  have "{x \<in> set (n # ns). P x} = (if P n then insert n {x \<in> set ns. P x} else {x \<in> set ns. P x})" by auto
  thus ?case unfolding fold_Cons comp_def Cons.IH assms using m [of "v ` {x \<in> set ns. P x}" "g acc" "v n"] by (cases "P n") simp_all
qed simp

lemma fold_union:
  assumes "\<And>n acc. g (f n acc) = g acc \<union> (if P n then v n else {})"
  shows "g (fold f ns acc) = g acc \<union> (\<Union>n\<in>{n \<in> set ns. P n}. v n)"
  by (induction ns arbitrary: acc) (auto simp: assms)

lemma summary_node_fields:
  "sum_total (fst (summary_node b n acc)) = sum_total (fst acc) + (if b \<in> interested_builds n then 1 else 0)"
  "sum_completed (fst (summary_node b n acc)) = sum_completed (fst acc)
     + (if b \<in> interested_builds n \<and> node_status n \<in> {Completed, Skipped} then 1 else 0)"
  "sum_running (fst (summary_node b n acc)) = sum_running (fst acc)
     + (if b \<in> interested_builds n \<and> node_status n \<in> {Running, Assigned} \<and> open_attempt_kind (machine n) \<noteq> Some Materialization then 1 else 0)"
  "sum_failed (fst (summary_node b n acc)) = sum_failed (fst acc)
     + (if b \<in> interested_builds n \<and> node_status n \<in> {Failed, Poisoned, DependencyFailed, Cancelled} then 1 else 0)"
  "sum_queued (fst (summary_node b n acc)) = sum_queued (fst acc)
     + (if b \<in> interested_builds n \<and> node_status n \<in> {Ready, Queued, Created} then 1 else 0)"
  "critpath_remaining (fst (summary_node b n acc)) =
     (if b \<in> interested_builds n \<and> \<not> status_is_terminal (node_status n) then max (critpath_remaining (fst acc)) (priority n)
      else critpath_remaining (fst acc))"
  "snd (summary_node b n acc) = snd acc
     \<union> (if b \<in> interested_builds n \<and> node_status n \<in> {Running, Assigned} then set_option (assigned_executor (machine n)) else {})"
  by (cases acc; cases "node_status n"; simp add: summary_node_def status_is_terminal_def Un_commute)+

lemma count_nodes:
  assumes "hash_order iter" "finite (dom (nodes d))"
  shows "length (filter (\<lambda>n. b \<in> interested_builds n \<and> P n) (map (\<lambda>h. the (nodes d h)) (iter (dom (nodes d)))))
    = card {h \<in> build_nodes d b. P (the (nodes d h))}"
proof -
  note i = hash_orderD [OF assms]
  have "{h \<in> set (iter (dom (nodes d))). b \<in> interested_builds (the (nodes d h)) \<and> P (the (nodes d h))} = {h \<in> build_nodes d b. P (the (nodes d h))}"
    unfolding i(1) build_nodes_def by auto
  thus ?thesis using distinct_length_filter [OF i(2)] by (simp add: filter_map comp_def Int_def conj_commute)
qed

text \<open>
  The summary counts the nodes of the build by status, modulo \<open>2^32\<close>; its critical path is the largest
  priority of an unfinished node, and its executors are those of the attempts in flight, sorted.
\<close>

lemma build_summary_exact:
  assumes "hash_order iter" "dag_wf d"
  shows "build_summary iter d b =
    \<lparr>sum_total = build_count d b (\<lambda>_. True), sum_completed = build_count d b (\<lambda>n. node_status n \<in> {Completed, Skipped}),
     sum_running = build_count d b (\<lambda>n. node_status n \<in> {Running, Assigned} \<and> open_attempt_kind (machine n) \<noteq> Some Materialization),
     sum_failed = build_count d b (\<lambda>n. node_status n \<in> {Failed, Poisoned, DependencyFailed, Cancelled}),
     sum_queued = build_count d b (\<lambda>n. node_status n \<in> {Ready, Queued, Created}),
     critpath_remaining = Max (insert 0 ((\<lambda>h. priority (the (nodes d h))) ` (build_nodes d b \<inter> unfinished d))),
     assigned_executors = sorted_list_of_set
       {w. \<exists>h\<in>build_nodes d b. stat d h \<in> {Some Running, Some Assigned} \<and> assigned_executor (machine (the (nodes d h))) = Some w}\<rparr>"
proof -
  let ?ns = "map (\<lambda>h. the (nodes d h)) (iter (dom (nodes d)))"
  let ?r = "fold (summary_node b) ?ns (summary_default, {})"
  have fin: "finite (dom (nodes d))" using assms(2) by (simp add: dag_wf_def)
  note c = count_nodes [OF assms(1) fin, of b]
  have ns: "set ?ns = {n. \<exists>h. nodes d h = Some n}" using hash_orderD(1) [OF assms(1) fin] by (force simp: image_iff)
  have "critpath_remaining (fst ?r) = Max (insert 0 (priority ` {n \<in> set ?ns. b \<in> interested_builds n \<and> \<not> status_is_terminal (node_status n)}))"
    by (subst fold_max [where g = "\<lambda>acc. critpath_remaining (fst acc)", OF summary_node_fields(6)]) (simp add: summary_default_def)
  also have "priority ` {n \<in> set ?ns. b \<in> interested_builds n \<and> \<not> status_is_terminal (node_status n)}
    = (\<lambda>h. priority (the (nodes d h))) ` (build_nodes d b \<inter> unfinished d)"
    unfolding ns build_nodes_def unfinished_def by force
  finally have crit: "critpath_remaining (fst ?r) = Max (insert 0 ((\<lambda>h. priority (the (nodes d h))) ` (build_nodes d b \<inter> unfinished d)))" .
  have "snd ?r = {} \<union> (\<Union>n\<in>{n \<in> set ?ns. b \<in> interested_builds n \<and> node_status n \<in> {Running, Assigned}}. set_option (assigned_executor (machine n)))"
    by (subst fold_union [where g = snd, OF summary_node_fields(7)]) simp
  also have "\<dots> = {w. \<exists>h\<in>build_nodes d b. stat d h \<in> {Some Running, Some Assigned} \<and> assigned_executor (machine (the (nodes d h))) = Some w}"
    unfolding ns build_nodes_def stat_def by force
  finally have ws: "snd ?r = {w. \<exists>h\<in>build_nodes d b. stat d h \<in> {Some Running, Some Assigned} \<and> assigned_executor (machine (the (nodes d h))) = Some w}" .
  have "sum_total (fst ?r) = build_count d b (\<lambda>_. True)"
    using fold_count [where g = "\<lambda>acc. sum_total (fst acc)" and f = "summary_node b" and ns = ?ns and acc = "(summary_default, {})", OF summary_node_fields(1)] c [of "\<lambda>_. True"]
    by (simp add: build_count_def summary_default_def)
  moreover have "sum_completed (fst ?r) = build_count d b (\<lambda>n. node_status n \<in> {Completed, Skipped})"
    using fold_count [where g = "\<lambda>acc. sum_completed (fst acc)" and f = "summary_node b" and ns = ?ns and acc = "(summary_default, {})", OF summary_node_fields(2)] c [of "\<lambda>n. node_status n \<in> {Completed, Skipped}"]
    by (simp add: build_count_def summary_default_def)
  moreover have "sum_running (fst ?r) = build_count d b (\<lambda>n. node_status n \<in> {Running, Assigned} \<and> open_attempt_kind (machine n) \<noteq> Some Materialization)"
    using fold_count [where g = "\<lambda>acc. sum_running (fst acc)" and f = "summary_node b" and ns = ?ns and acc = "(summary_default, {})", OF summary_node_fields(3)]
      c [of "\<lambda>n. node_status n \<in> {Running, Assigned} \<and> open_attempt_kind (machine n) \<noteq> Some Materialization"]
    by (simp add: build_count_def summary_default_def)
  moreover have "sum_failed (fst ?r) = build_count d b (\<lambda>n. node_status n \<in> {Failed, Poisoned, DependencyFailed, Cancelled})"
    using fold_count [where g = "\<lambda>acc. sum_failed (fst acc)" and f = "summary_node b" and ns = ?ns and acc = "(summary_default, {})", OF summary_node_fields(4)]
      c [of "\<lambda>n. node_status n \<in> {Failed, Poisoned, DependencyFailed, Cancelled}"]
    by (simp add: build_count_def summary_default_def)
  moreover have "sum_queued (fst ?r) = build_count d b (\<lambda>n. node_status n \<in> {Ready, Queued, Created})"
    using fold_count [where g = "\<lambda>acc. sum_queued (fst acc)" and f = "summary_node b" and ns = ?ns and acc = "(summary_default, {})", OF summary_node_fields(5)] c [of "\<lambda>n. node_status n \<in> {Ready, Queued, Created}"]
    by (simp add: build_count_def summary_default_def)
  ultimately show ?thesis using crit ws
    by (intro BuildSummary.equality) (simp_all add: build_summary_def case_prod_beta)
qed

lemma find_roots_exact:
  assumes "hash_order iter" "dag_wf d"
  shows "set (find_roots iter d b) = {h \<in> build_nodes d b. pars d h \<inter> build_nodes d b = {}}"
  using hash_orderD(1) [OF assms(1), of "dom (nodes d)"] assms(2)
  by (auto simp: find_roots_def build_nodes_def pars_def dag_wf_def disjoint_iff split: option.splits)

section \<open>Property\<close>

lemma cutoff_absent: "dag_wf d \<Longrightarrow> trigger \<notin> dom (nodes d) \<Longrightarrow> cutoff d verify trigger = {}"
proof -
  assume "dag_wf d" "trigger \<notin> dom (nodes d)"
  hence no: "trigger \<notin> kids d p" for p by (auto simp: dag_wf_def edges_in_def)
  have "x \<in> cutoff d verify trigger \<Longrightarrow> False" for x by (induction rule: cutoff.induct) (use no in auto)
  thus ?thesis by blast
qed

lemma cascade_cutoff_outcome:
  assumes "hash_order iter" "dag_wf d"
  shows "\<exists>d' skipped cap_hit. cascade_cutoff iter now trigger verify d = Some (d', skipped, cap_hit)
    \<and> d' = advance now (set skipped) Skipped d \<and> (\<forall>h\<in>set skipped. stat d h = Some Queued \<and> verify h \<and> stat d' h = Some Skipped)
    \<and> distinct skipped \<and> length skipped \<le> MAX_CASCADE_NODES \<and> (cap_hit \<longleftrightarrow> length skipped = MAX_CASCADE_NODES)
    \<and> set skipped \<subseteq> cutoff d verify trigger \<and> (\<not> cap_hit \<longrightarrow> set skipped = cutoff d verify trigger)"
proof (cases "nodes d trigger")
  case None
  hence "cutoff d verify trigger = {}" by (intro cutoff_absent assms(2)) auto
  thus ?thesis using None by (simp add: cascade_cutoff_def MAX_CASCADE_NODES_def)
next
  case (Some s)
  have "walk_inv d verify trigger MAX_CASCADE_NODES [] {} [trigger]" by (simp add: walk_inv_def MAX_CASCADE_NODES_def)
  from walk_loop_exact [OF assms this] obtain r cap where
    r: "walk_loop MAX_CASCADE_NODES (\<lambda>current visited. filter verify (find_cutoff_eligible_speculative iter d current visited)) [] {} [trigger] = Some (r, cap)"
    and ok: "distinct r" "set r \<subseteq> cutoff d verify trigger" "length r \<le> MAX_CASCADE_NODES" "cap \<longleftrightarrow> length r = MAX_CASCADE_NODES"
    "\<not> cap \<longrightarrow> set r = cutoff d verify trigger" by blast
  have q: "stat d h = Some Queued \<and> verify h" if "h \<in> set r" for h using that ok(2) by (auto elim: cutoff.cases)
  have "skip_each now r d [] = (advance now (set r) Skipped d, r)" using skip_each_run [of r d now "[]"] ok(1) q by simp
  hence "cascade_cutoff iter now trigger verify d = Some (advance now (set r) Skipped d, r, cap)"
    using Some r by (simp add: cascade_cutoff_def speculative_cascade_reachable_def)
  moreover have "stat (advance now (set r) Skipped d) h = Some Skipped" if "h \<in> set r" for h
    using q [OF that] that by (simp add: stat_advance can_move_def valid_simps)
  ultimately show ?thesis using ok q by blast
qed

text \<open>
  C24. The early cutoff returns, skips each node once and at most a thousand, and only nodes of the cutoff
  set: queued, verified, and depending on nothing that still has to be built. It skips the whole
  set unless it reports that the cap was hit, which it does exactly when it skipped a thousand. Nothing
  else of the graph changes.
\<close>

theorem cascade_cutoff_exact:
  assumes "hash_order iter" "dag_wf d"
  shows "\<exists>d' skipped cap_hit. cascade_cutoff iter now trigger verify d = Some (d', skipped, cap_hit)
    \<and> d' = advance now (set skipped) Skipped d \<and> (\<forall>h\<in>set skipped. stat d h = Some Queued \<and> verify h \<and> stat d' h = Some Skipped)
    \<and> distinct skipped \<and> length skipped \<le> MAX_CASCADE_NODES \<and> (cap_hit \<longleftrightarrow> length skipped = MAX_CASCADE_NODES)
    \<and> set skipped \<subseteq> cutoff d verify trigger \<and> (\<not> cap_hit \<longrightarrow> set skipped = cutoff d verify trigger)"
  by (rule cascade_cutoff_outcome [OF assms])

theorem cascade_cutoff_exact_witness:
  "\<exists>d' skipped. cascade_cutoff sorted_list_of_set (\<lambda>_. 9) ''c'' (\<lambda>_. True) (ex_pair Queued Completed) = Some (d', skipped, False)
    \<and> set skipped = {''p''}"
proof -
  let ?d = "ex_pair Queued Completed"
  have "x = ''p''" if "x \<in> cutoff ?d (\<lambda>_. True) ''c''" for x
    using that by (cases rule: cutoff.cases) (auto simp: ex_pair_graph split: if_splits)
  moreover have "''c'' \<notin> unfinished ?d" by (simp add: unfinished_def ex_pair_def node_status_def ex_node_def status_is_terminal_def)
  hence "''p'' \<in> cutoff ?d (\<lambda>_. True) ''c''" by (intro cutoff.intros [of _ _ _ "''c''"]) (auto simp: ex_pair_graph)
  ultimately have c: "cutoff ?d (\<lambda>_. True) ''c'' = {''p''}" by blast
  obtain d' sk cap where s: "cascade_cutoff sorted_list_of_set (\<lambda>_. 9) ''c'' (\<lambda>_. True) ?d = Some (d', sk, cap)" "distinct sk"
    "cap \<longleftrightarrow> length sk = MAX_CASCADE_NODES" "set sk \<subseteq> cutoff ?d (\<lambda>_. True) ''c''" "\<not> cap \<longrightarrow> set sk = cutoff ?d (\<lambda>_. True) ''c''"
    using cascade_cutoff_exact [OF sorted_hash_order ex_pair_wf, of "\<lambda>_. 9" "''c''" "\<lambda>_. True" Queued Completed] by blast
  have "length sk \<le> 1" using s(2,4) card_mono [of "{''p''}" "set sk"] by (simp add: c distinct_card)
  hence "\<not> cap" using s(3) by (auto simp: MAX_CASCADE_NODES_def)
  thus ?thesis using s c by auto
qed

end
