(* ===== verification/Sched_Graph.thy ===== *)
theory Sched_Graph
  imports Sched_MergeOk Sched_Cutoff
begin

text \<open>
  The derivation graph under its operations: a step is one call of an operation of the graph, of the
  priorities or of the actor's in-memory steps. The arguments are arbitrary but for what the callers
  provide: a submission names each derivation by one hash and one path; a recovered node is well-formed
  and keeps that naming; a recovered edge, which is inserted without a cycle check, joins two
  present nodes and closes no cycle; a rollback undoes the merge that directly precedes it; and a set of nodes
  is finite. What the operations rely on of each other, well-formedness and the absence of cycles, then
  holds in every reachable graph.
\<close>

inductive graph_step ::
  "(string set \<Rightarrow> string list) \<Rightarrow> ('e, 'u::linorder, 'f::{zero, plus, linorder}) DerivationDag \<Rightarrow> ('e, 'u, 'f) DerivationDag \<Rightarrow> bool"
  for iter where
  merged: "one_to_one (named d ns) \<Longrightarrow> merge iter b ns es tp d = Some (d', res) \<Longrightarrow> graph_step iter d d'"
| removed: "graph_step iter d (remove_node iter d h)"
| disinterested: "graph_step iter d (fst (remove_build_interest iter d b))"
| reaped: "graph_step iter d (fst (remove_build_interest_and_reap iter d b))"
| seeded: "seed_initial_states iter now new d = Some (d', f) \<Longrightarrow> graph_step iter d d'"
| moved: "graph_step iter d (fst (node_transition now h to d))"
| promoted: "graph_step iter d (fst (promote_newly_ready_batch iter now hs d))"
| failed: "cascade_dependency_failure iter now h d = Some (d', T) \<Longrightarrow> graph_step iter d d'"
| poisoned: "graph_step iter d (fst (poison_node now h d))"
| cut: "cascade_cutoff iter now h verify d = Some (d', skipped, cap_hit) \<Longrightarrow> graph_step iter d d'"
| reevaluated: "graph_step iter d (reevaluate_removal_survivors job now ps d)"
| swept: "full_sweep iter us tn peek def d = Some d' \<Longrightarrow> graph_step iter d d'"
| raised: "update_ancestors iter d h = Some d' \<Longrightarrow> graph_step iter d d'"
| prioritised: "finite new \<Longrightarrow> compute_initial iter us tn est def new d = Some d' \<Longrightarrow> graph_step iter d d'"
| rolled_back: "one_to_one (named d ns) \<Longrightarrow> merge iter b ns es tp d = Some (d', Inr r) \<Longrightarrow>
    graph_step iter d (rollback_merge iter b d' r)"
| recovered_node: "one_to_one (insert (drv_hash s, full (drv_path s)) (live d)) \<Longrightarrow> node_ok (drv_hash s) s \<Longrightarrow>
    graph_step iter d (insert_recovered_node d s)"
| recovered_edge: "p \<in> dom (nodes d) \<Longrightarrow> c \<in> dom (nodes d) \<Longrightarrow> (c, p) \<notin> (dag_edges d)\<^sup>* \<Longrightarrow>
    graph_step iter d (insert_recovered_edge d p c)"
| floored: "graph_step iter d (note_resubmit_floor d h fl)"
| softened: "graph_step iter d (dag_set_soft_features d soft)"

definition dag_typed :: "('e, 'u, 'f) DerivationDag \<Rightarrow> bool" where
  "dag_typed d \<longleftrightarrow> dag_wf d \<and> acyclic (dag_edges d)"

lemma dag_typed_advance: "dag_typed d \<Longrightarrow> dag_typed (advance now S to d)"
  by (simp add: dag_typed_def advance_wf)

lemma dag_typed_reprio: "dag_typed d \<Longrightarrow> dag_typed (reprio S p d)"
  by (simp add: dag_typed_def reprio_wf)

lemma dag_typed_restimate: "dag_typed d \<Longrightarrow> dag_typed (restimate e t S d)"
  by (simp add: dag_typed_def restimate_wf)

lemma dag_typed_fewer: "dag_typed d \<Longrightarrow> dag_wf d' \<Longrightarrow> dag_edges d' \<subseteq> dag_edges d \<Longrightarrow> dag_typed d'"
  by (auto simp: dag_typed_def intro: acyclic_subset)

lemma dag_typed_cong:
  assumes "nodes d' = nodes d" "kids d' = kids d" "pars d' = pars d" "path_to_hash d' = path_to_hash d" "dag_typed d"
  shows "dag_typed d'"
proof -
  have "dag_wf d' \<longleftrightarrow> dag_wf d" "dag_edges d' = dag_edges d"
    unfolding dag_wf_def mirrored_def edges_in_def path_index_exact_def dag_edges_def assms(1-4) by (rule refl)+
  thus ?thesis using assms(5) by (simp add: dag_typed_def)
qed

lemma same_dag_typed: "same_dag d' d \<Longrightarrow> dag_typed d \<Longrightarrow> dag_typed d'"
  by (rule dag_typed_cong) (simp_all add: same_dag_def)

lemma merge_typed:
  assumes "hash_order iter" "dag_typed d" "one_to_one (named d ns)" "merge iter b ns es tp d = Some (d', res)"
  shows "dag_typed d'"
  using merge_runs [of iter d ns b es tp] assms same_dag_typed [of d' d]
  by (auto simp: dag_typed_def merge_verdict_def split: sum.splits)

lemma rollback_typed:
  assumes "hash_order iter" "dag_typed d" "one_to_one (named d ns)" "merge iter b ns es tp d = Some (d', Inr r)"
  shows "dag_typed (rollback_merge iter b d' r)"
  using merge_runs [of iter d ns b es tp] assms same_dag_typed [of "rollback_merge iter b d' r" d]
  by (auto simp: dag_typed_def merge_verdict_def)

text \<open>Recovery: nodes one by one, then edges that the database checked when they were merged.\<close>

lemma recovered_node_typed:
  assumes d: "dag_typed d" and one: "one_to_one (insert (drv_hash s, full (drv_path s)) (live d))" and ok: "node_ok (drv_hash s) s"
  shows "dag_typed (insert_recovered_node d s)"
proof (cases "drv_hash s \<in> dom (nodes d)")
  case False
  let ?h = "drv_hash s" and ?s = "apply_soft_features d s"
  let ?d = "d\<lparr>path_to_hash := (path_to_hash d)(full (drv_path s) \<mapsto> ?h), nodes := (nodes d)(?h \<mapsto> ?s)\<rparr>"
  have wf: "dag_wf d" "acyclic (dag_edges d)" using d by (simp_all add: dag_typed_def)
  have eq: "insert_recovered_node d s = ?d"
    using False by (simp add: insert_recovered_node_def Let_def apply_soft_features_keeps domIff)
  have k: "kids ?d = kids d" "pars ?d = pars d" by (simp_all add: fun_eq_iff kids_def pars_def)
  have "path_to_hash ?d p = Some h \<longleftrightarrow> (\<exists>t. nodes ?d h = Some t \<and> full (drv_path t) = p)" for p h
  proof -
    have "p \<noteq> full (drv_path s)" if "nodes d h = Some t" "full (drv_path t) = p" "h \<noteq> ?h" for t
      using one_to_oneD [OF one, of h p ?h "full (drv_path s)"] that by (auto simp: live_iff)
    moreover have "path_to_hash d p = Some h \<longleftrightarrow> (\<exists>t. nodes d h = Some t \<and> full (drv_path t) = p)"
      using wf(1) by (simp add: dag_wf_def path_index_exact_def)
    ultimately show ?thesis
      using False by (cases "h = ?h") (auto simp: apply_soft_features_keeps)
  qed
  hence "path_index_exact ?d" by (simp add: path_index_exact_def)
  moreover have "node_ok h t" if "nodes ?d h = Some t" for h t
    using that wf(1) apply_soft_features_keeps(5) [OF ok] by (auto simp: dag_wf_def split: if_splits)
  moreover have "mirrored ?d" "edges_in ?d" "finite (dom (nodes ?d))"
    unfolding mirrored_def edges_in_def k using wf(1) by (auto simp: dag_wf_def mirrored_def edges_in_def)
  ultimately have "dag_wf ?d" by (simp add: dag_wf_def)
  moreover have "dag_edges ?d = dag_edges d" unfolding dag_edges_def k by (rule refl)
  ultimately show ?thesis unfolding eq using wf(2) by (simp add: dag_typed_def)
qed (use d in \<open>simp add: insert_recovered_node_def Let_def\<close>)

lemma recovered_edge_typed:
  assumes d: "dag_typed d" and pc: "p \<in> dom (nodes d)" "c \<in> dom (nodes d)" "(c, p) \<notin> (dag_edges d)\<^sup>*"
  shows "dag_typed (insert_recovered_edge d p c)"
proof -
  let ?d = "insert_recovered_edge d p c"
  have k: "kids ?d = (kids d)(p := insert c (kids d p))" "pars ?d = (pars d)(c := insert p (pars d c))"
    by (auto simp: fun_eq_iff insert_recovered_edge_def kids_def pars_def)
  have n: "nodes ?d = nodes d" "path_to_hash ?d = path_to_hash d" by (simp_all add: insert_recovered_edge_def)
  have "dag_edges ?d = insert (p, c) (dag_edges d)" by (auto simp: dag_edges_def k split: if_splits)
  hence "acyclic (dag_edges ?d)" using d pc(3) by (simp add: dag_typed_def acyclic_insert)
  moreover have "mirrored ?d" "edges_in ?d" "path_index_exact ?d"
    using d pc(1,2) by (auto simp: dag_typed_def dag_wf_def mirrored_def edges_in_def path_index_exact_def k n)
  ultimately show ?thesis using d by (simp add: dag_typed_def dag_wf_def n)
qed

lemma seed_loop_typed: "dag_typed d \<Longrightarrow> dag_typed (fst (seed_loop now ts f d))"
  by (induction now ts f d rule: seed_loop.induct)
    (auto simp: node_transition_eq dag_typed_advance split: option.split)

lemma reevaluate_typed: "dag_typed d \<Longrightarrow> dag_typed (reevaluate_removal_survivors job now ps d)"
  by (induction job now ps d rule: reevaluate_removal_survivors.induct)
    (auto simp: node_transition_eq dag_typed_advance split: option.split)

lemma poison_typed: "dag_typed d \<Longrightarrow> dag_typed (fst (poison_node now h d))"
proof (cases "nodes d h")
  case (Some s)
  assume d: "dag_typed d"
  let ?d = "modify_node h (\<lambda>s. s\<lparr>machine := fst (ensure_running (now h) (machine s))\<rparr>) d"
  have "?d = (if stat d h = Some Assigned then advance now {h} Running d else d)"
    unfolding modify_node_def advance_def using Some
    by (auto simp: ensure_running_def stat_def node_status_def case_prod_beta fun_eq_iff intro!: DerivationDag.equality)
  hence "dag_typed ?d" using d by (simp add: dag_typed_advance)
  thus ?thesis using Some by (simp add: poison_node_def node_transition_eq dag_typed_advance)
qed (simp add: poison_node_def)

lemma full_sweep_typed:
  assumes "hash_order iter" "dag_typed d" "full_sweep iter us tn peek def d = Some d'"
  shows "dag_typed d'"
proof -
  have wf: "dag_wf d" "acyclic (dag_edges d)" using assms(2) by (simp_all add: dag_typed_def)
  have fin: "finite (unfinished d)" using wf(1) by (auto simp: dag_wf_def unfinished_def intro: finite_subset [of _ "dom (nodes d)"])
  let ?e = "restimate (key_estimate us tn peek) def (unfinished d) d"
  obtain p where "topo_recompute iter ?e (unfinished d) = Some (reprio (unfinished d) p ?e)"
    using topo_recompute_settles [OF assms(1) restimate_wf [OF wf(1)] _ fin] wf(2) by (metis restimate_simps(3))
  hence "d' = d \<or> d' = reprio (unfinished d) p ?e"
    using assms(3) hash_orderD [OF assms(1) fin]
    by (auto simp: full_sweep_def unfinished_def [symmetric] Let_def set_estimate_fold split: if_splits)
  thus ?thesis using assms(2) by (auto intro: dag_typed_reprio dag_typed_restimate)
qed

lemma compute_initial_typed:
  assumes "hash_order iter" "dag_typed d" "finite new" "compute_initial iter us tn est def new d = Some d'"
  shows "dag_typed d'"
proof -
  have wf: "dag_wf d" "acyclic (dag_edges d)" using assms(2) by (simp_all add: dag_typed_def)
  note fn = assms(3)
  let ?e = "restimate (key_estimate us tn est) def new d"
  have e: "dag_wf ?e" "acyclic (dag_edges ?e)" using restimate_wf [OF wf(1)] wf(2) by auto
  obtain p where p: "topo_recompute iter ?e new = Some (reprio new p ?e)" using topo_recompute_settles [OF assms(1) e fn] by blast
  have "settled (reprio new p ?e) {}" by (simp add: settled_def)
  moreover have "acyclic (dag_edges (reprio new p ?e))" using e(2) by simp
  ultimately obtain q S where "propagate_tops iter new (iter new) (reprio new p ?e) = Some (reprio S q (reprio new p ?e))"
    using propagate_tops_settles [OF assms(1) reprio_wf [OF e(1)], where hs = "iter new" and new = new] by blast
  hence "d' = d \<or> d' = reprio S q (reprio new p ?e)"
    using assms(4) p hash_orderD [OF assms(1) fn] by (auto simp: compute_initial_def set_estimate_fold split: if_splits)
  thus ?thesis using assms(2) by (auto intro: dag_typed_reprio dag_typed_restimate)
qed

lemma graph_step_typed:
  assumes "hash_order iter" "graph_step iter d d'" "dag_typed d"
  shows "dag_typed d'"
  using assms(2)
proof cases
  have wf: "dag_wf d" "acyclic (dag_edges d)" using assms(3) by (simp_all add: dag_typed_def)
  {
    case (merged ns b es tp res)
    thus ?thesis using merge_typed [OF assms(1,3)] by blast
  next
    case (removed h)
    show ?thesis unfolding removed using assms remove_node_wf [OF assms(1) wf(1)] remove_node_edges(1) [OF assms(1) wf(1)]
      by (intro dag_typed_fewer [OF assms(3)]) (auto simp: dag_edges_def split: if_splits)
  next
    case (disinterested b)
    thus ?thesis using strip_interest_wf [OF wf(1), of b] wf(2)
      by (simp add: dag_typed_def remove_build_interest_def Let_def dag_edges_def kids_def)
  next
    case (reaped b)
    obtain d1 out where r: "remove_build_interest_and_reap iter d b = (d1, out)" by fastforce
    show ?thesis using reaped r reap_outcome [OF assms(1) wf(1) r refl] by (intro dag_typed_fewer [OF assms(3)]) auto
  next
    case (seeded now new f)
    thus ?thesis using seed_loop_typed [OF assms(3)] by (auto simp: seed_initial_states_def split: option.splits) (metis fst_conv)
  next
    case (moved now h to)
    thus ?thesis using assms(3) by (simp add: node_transition_eq dag_typed_advance)
  next
    case (promoted now hs)
    thus ?thesis using promote_exact [OF assms(1) wf(1), of now hs] assms(3) by (auto intro: dag_typed_advance)
  next
    case (failed now h T)
    thus ?thesis using cascade_exact [OF assms(1) wf(1), of now h] assms(3) by (auto intro: dag_typed_advance)
  next
    case (poisoned now h)
    thus ?thesis using poison_typed [OF assms(3)] by simp
  next
    case (cut now h verify skipped cap_hit)
    thus ?thesis using cascade_cutoff_outcome [OF assms(1) wf(1), of now h verify] assms(3) by (auto intro: dag_typed_advance)
  next
    case (reevaluated job now ps)
    thus ?thesis using reevaluate_typed [OF assms(3)] by simp
  next
    case (swept us tn peek def)
    thus ?thesis by (rule full_sweep_typed [OF assms(1,3)])
  next
    case (raised h)
    have "settled d {}" by (simp add: settled_def)
    from update_ancestors_settles [OF assms(1) wf this, of h] show ?thesis
      using raised assms(3) by (metis dag_typed_reprio option.inject)
  next
    case (prioritised new us tn est def)
    thus ?thesis by (rule compute_initial_typed [OF assms(1,3)])
  next
    case (rolled_back ns b es tp d1 r)
    show ?thesis unfolding rolled_back(1) by (rule rollback_typed [OF assms(1,3) rolled_back(2,3)])
  next
    case (recovered_node s)
    show ?thesis unfolding recovered_node(1) by (rule recovered_node_typed [OF assms(3) recovered_node(2,3)])
  next
    case (recovered_edge p c)
    show ?thesis unfolding recovered_edge(1) by (rule recovered_edge_typed [OF assms(3) recovered_edge(2-4)])
  next
    case (floored h fl)
    thus ?thesis using dag_typed_cong [OF _ _ _ _ assms(3), of d'] by (simp add: note_resubmit_floor_def kids_def pars_def fun_eq_iff)
  next
    case (softened soft)
    thus ?thesis using dag_typed_cong [OF _ _ _ _ assms(3), of d'] by (simp add: dag_set_soft_features_def kids_def pars_def fun_eq_iff)
  }
qed

text \<open>
  C7. Every graph that the operations can produce from the empty one is well-formed and has no cycle: the
  edge maps mirror each other and join existing nodes, the path index names exactly the nodes, every node
  is stored under its hash with the routing features derived from its requirements, and no derivation
  depends on itself - whichever operations ran and in whichever order, under what \<open>graph_step\<close> asks
  of their arguments: a submission names each derivation by one hash and one path, a recovered node is
  well-formed and keeps that naming, a recovered edge joins present nodes and closes no cycle (\<open>merge\<close>
  checks for cycles, recovery does not), and a rollback directly follows the merge it undoes.
\<close>

theorem reachable_graph_typed:
  fixes d :: "('e, 'u::linorder, 'f::{zero, plus, linorder}) DerivationDag"
  assumes "hash_order iter" "(graph_step iter)\<^sup>*\<^sup>* dag_new d"
  shows "dag_wf d \<and> acyclic (dag_edges d)"
proof -
  let ?d0 = "dag_new :: ('e, 'u, 'f) DerivationDag"
  have "dag_edges ?d0 = {}" by (simp add: dag_edges_def dag_new_def kids_def)
  hence "dag_typed ?d0" by (simp add: dag_typed_def dag_wf_new acyclic_def)
  from assms(2) this have "dag_typed d" by (induction rule: rtranclp_induct) (auto intro: graph_step_typed [OF assms(1)])
  thus ?thesis by (simp add: dag_typed_def)
qed

definition ex_fresh :: DerivationNode where
  "ex_fresh = ex_submission\<lparr>nd_drv_path := ''/nix/store/00000000000000000000000000000000-a.drv''\<rparr>"

lemma ex_fresh_path: "case parse (nd_drv_path ex_fresh) of Some (Inr _) \<Rightarrow> True | _ \<Rightarrow> False"
  unfolding ex_fresh_def by code_simp

theorem reachable_graph_typed_witness:
  "\<exists>(d :: (nat, nat, nat) DerivationDag) r. merge sorted_list_of_set 7 [ex_fresh] [] [] dag_new = Some (d, Inr r)
     \<and> dag_wf d \<and> acyclic (dag_edges d)"
proof -
  let ?d0 = "dag_new :: (nat, nat, nat) DerivationDag"
  have e: "dag_edges ?d0 = {}" by (simp add: dag_edges_def dag_new_def kids_def)
  have one: "one_to_one (named ?d0 [ex_fresh])" by (auto simp: named_def live_def dag_new_def one_to_one_def)
  have "acyclic (dag_edges ?d0)" by (simp add: e acyclic_def)
  from merge_runs [OF sorted_hash_order dag_wf_new this one, of 7 "[]" "[]"] obtain d res where
    m: "merge sorted_list_of_set 7 [ex_fresh] [] [] ?d0 = Some (d, res)" "merge_verdict sorted_list_of_set 7 [ex_fresh] [] ?d0 d res" by blast
  have "(graph_step sorted_list_of_set)\<^sup>*\<^sup>* ?d0 d" using graph_step.merged [OF one m(1)] by blast
  note t = reachable_graph_typed [OF sorted_hash_order this]
  have "submitted_edges ?d0 [ex_fresh] [] = {}" by (simp add: submitted_edges_def)
  hence "\<not> isl res" using m(2) ex_fresh_path e by (auto simp: merge_verdict_def acyclic_def split: sum.splits DagError.splits)
  thus ?thesis using m(1) t by (cases res) auto
qed

end
