(* ===== verification/Nix_Refscan.thy ===== *)
theory Nix_Refscan
  imports Nix_Hash "HOL-Library.Sublist"
begin

text \<open>
  The reference scanner (\<open>rio-nix/src/refscan.rs\<close>): a sink that is fed an archive in chunks and
  collects the candidate hashes that occur in it. Bytes are characters, as in the store path
  theories. A \<open>HashSet\<close> is a set and the candidate map a map.
\<close>

section \<open>The sink\<close>

record RefScanSink =
  remaining :: "string set"
  found :: "string set"
  tail :: string

definition IS_BASE32 :: "char \<Rightarrow> bool" where
  "IS_BASE32 c \<longleftrightarrow> c \<in> set CHARS"

definition sink_new :: "string set \<Rightarrow> RefScanSink" where
  "sink_new candidates = \<lparr>remaining = candidates, found = {}, tail = []\<rparr>"

text \<open>The inner loop of \<open>search\<close>: from the last byte of the window down to its first.\<close>

fun last_bad :: "string \<Rightarrow> nat \<Rightarrow> nat \<Rightarrow> nat option" where
  "last_bad data i 0 = (if \<not> IS_BASE32 (data ! i) then Some 0 else None)"
| "last_bad data i (Suc j) = (if \<not> IS_BASE32 (data ! (i + Suc j)) then Some (Suc j) else last_bad data i j)"

definition take_window :: "string \<Rightarrow> RefScanSink \<Rightarrow> RefScanSink" where
  "take_window window s =
     (if window \<in> remaining s
      then s\<lparr>remaining := remaining s - {window}, found := insert window (found s)\<rparr> else s)"

function search_loop :: "string \<Rightarrow> nat \<Rightarrow> RefScanSink \<Rightarrow> RefScanSink" where
  "search_loop data i s =
     (if i + HASH_CHARS \<le> length data
      then case last_bad data i (HASH_CHARS - 1) of
             Some j \<Rightarrow> search_loop data (i + (j + 1)) s
           | None \<Rightarrow> search_loop data (i + 1) (take_window (take HASH_CHARS (drop i data)) s)
      else s)"
  by pat_completeness auto
termination
  by (relation "measure (\<lambda>(data, i, s). length data - i)") (auto simp: HASH_CHARS_def)

declare search_loop.simps [simp del]

definition search :: "string \<Rightarrow> RefScanSink \<Rightarrow> RefScanSink" where
  "search data s =
     (if length data < HASH_CHARS \<or> remaining s = {} then s else search_loop data 0 s)"

definition drain_to :: "nat \<Rightarrow> string \<Rightarrow> string" where
  "drain_to n t = drop (length t - n) t"

text \<open>The tail kept for the next chunk: the end of the old one, then the end of this chunk.\<close>

definition next_tail :: "string \<Rightarrow> string \<Rightarrow> string" where
  "next_tail data t =
     (let head_len = min (length data) HASH_CHARS;
          rest = HASH_CHARS - head_len;
          t = (if rest < length t then drain_to rest t else t);
          t = t @ drop (length data - head_len) data
      in if length t \<ge> HASH_CHARS then drain_to (HASH_CHARS - 1) t else t)"

definition sink_write :: "string \<Rightarrow> RefScanSink \<Rightarrow> RefScanSink" where
  "sink_write data s =
     (if remaining s = {} then s
      else
        let head_len = min (length data) HASH_CHARS;
            s = (if tail s \<noteq> [] then search (tail s @ take head_len data) s else s);
            s = search data s
        in s\<lparr>tail := next_tail data (tail s)\<rparr>)"

definition into_found :: "RefScanSink \<Rightarrow> string set" where
  "into_found s = found s"

section \<open>The candidate set\<close>

definition hash_part_of :: "string \<Rightarrow> string option" where
  "hash_part_of path =
     (case parse path of
        Some (Inr sp) \<Rightarrow> if length (hash_part sp) = HASH_CHARS then Some (hash_part sp) else None
      | _ \<Rightarrow> None)"

definition from_paths :: "string list \<Rightarrow> (string \<rightharpoonup> string)" where
  "from_paths paths =
     fold (\<lambda>p m. case hash_part_of p of Some h \<Rightarrow> m(h \<mapsto> p) | None \<Rightarrow> m) paths Map.empty"

definition hashes :: "(string \<rightharpoonup> string) \<Rightarrow> string set" where
  "hashes m = dom m"

text \<open>The set's iteration order is not specified; \<open>resolve_in\<close> takes it as an argument.\<close>

definition resolve_in :: "(string \<rightharpoonup> string) \<Rightarrow> string list \<Rightarrow> string list" where
  "resolve_in m hs = sort (List.map_filter m hs)"

section \<open>Searching one buffer\<close>

definition windows :: "string \<Rightarrow> string set" where
  "windows data = {w. length w = HASH_CHARS \<and> list_all IS_BASE32 w \<and> sublist w data}"

lemma last_bad_None: "last_bad data i n = None \<longleftrightarrow> (\<forall>j\<le>n. IS_BASE32 (data ! (i + j)))"
  by (induction n) (auto simp: le_Suc_eq)

lemma last_bad_Some: "last_bad data i n = Some j \<Longrightarrow> j \<le> n \<and> \<not> IS_BASE32 (data ! (i + j))"
  by (induction n) (auto split: if_splits)

definition window_at :: "string \<Rightarrow> nat \<Rightarrow> string" where
  "window_at data i = take HASH_CHARS (drop i data)"

definition windows_from :: "string \<Rightarrow> nat \<Rightarrow> string set" where
  "windows_from data i =
     {w. \<exists>k\<ge>i. k + HASH_CHARS \<le> length data \<and> w = window_at data k \<and> list_all IS_BASE32 w}"

lemma windows_from_0: "windows_from data 0 = windows data"
proof -
  have "sublist w data \<longleftrightarrow> (\<exists>k. k + length w \<le> length data \<and> w = take (length w) (drop k data))" for w
  proof
    assume "sublist w data"
    then obtain xs ys where "data = xs @ w @ ys" by (auto simp: sublist_def)
    thus "\<exists>k. k + length w \<le> length data \<and> w = take (length w) (drop k data)"
      by (intro exI [of _ "length xs"]) simp
  next
    assume "\<exists>k. k + length w \<le> length data \<and> w = take (length w) (drop k data)"
    thus "sublist w data" by (metis append_take_drop_id sublist_appendI)
  qed
  thus ?thesis by (auto simp: windows_from_def windows_def window_at_def)
qed

lemma window_all:
  assumes "k + HASH_CHARS \<le> length data"
  shows "list_all IS_BASE32 (window_at data k) \<longleftrightarrow> (\<forall>j<HASH_CHARS. IS_BASE32 (data ! (k + j)))"
  using assms by (auto simp: window_at_def list_all_length)

text \<open>A byte outside the alphabet lets the scan skip every window that contains it.\<close>

lemma windows_from_skip:
  assumes "\<not> IS_BASE32 (data ! (i + j))" "j < HASH_CHARS"
  shows "windows_from data i = windows_from data (i + (j + 1))"
proof -
  have "k \<ge> i + (j + 1)" if "k \<ge> i" "k + HASH_CHARS \<le> length data" "list_all IS_BASE32 (window_at data k)" for k
  proof (rule ccontr)
    assume "\<not> k \<ge> i + (j + 1)"
    with that(1) assms(2) have "i + j - k < HASH_CHARS" "k + (i + j - k) = i + j" by auto
    with that(2,3) assms(1) show False by (metis window_all)
  qed
  moreover have "k \<ge> i" if "k \<ge> i + (j + 1)" for k using that by simp
  ultimately show ?thesis unfolding windows_from_def by blast
qed

lemma windows_from_step:
  assumes "\<forall>j\<le>HASH_CHARS - 1. IS_BASE32 (data ! (i + j))" "i + HASH_CHARS \<le> length data"
  shows "windows_from data i = insert (window_at data i) (windows_from data (i + 1))"
proof -
  have "list_all IS_BASE32 (window_at data i)"
    using assms by (auto simp: window_all HASH_CHARS_def)
  moreover have "(\<exists>k\<ge>i. P k) \<longleftrightarrow> P i \<or> (\<exists>k\<ge>i + 1. P k)" for P
    by (metis Suc_eq_plus1 le_refl not_less_eq_eq order_antisym_conv Suc_leD)
  ultimately show ?thesis using assms(2) unfolding windows_from_def by auto
qed

definition mark :: "string set \<Rightarrow> RefScanSink \<Rightarrow> RefScanSink" where
  "mark W s = s\<lparr>remaining := remaining s - W, found := found s \<union> (remaining s \<inter> W)\<rparr>"

lemma mark_simps [simp]:
  "remaining (mark W s) = remaining s - W" "found (mark W s) = found s \<union> (remaining s \<inter> W)" "tail (mark W s) = tail s"
  "mark {} s = s"
  by (simp_all add: mark_def)

lemma mark_take_window: "mark W (take_window w s) = mark (insert w W) s"
  by (rule RefScanSink.equality) (auto simp: mark_def take_window_def)

lemma search_loop_spec: "search_loop data i s = mark (windows_from data i) s"
proof (induction data i s rule: search_loop.induct)
  case (1 data i s)
  show ?case
  proof (cases "i + HASH_CHARS \<le> length data")
    case True
    show ?thesis
    proof (cases "last_bad data i (HASH_CHARS - 1)")
      case None
      hence "windows_from data i = insert (window_at data i) (windows_from data (i + 1))"
        using True by (intro windows_from_step) (simp_all add: last_bad_None)
      with 1(1) [OF True None] True None show ?thesis
        by (subst search_loop.simps) (simp add: mark_take_window window_at_def)
    next
      case (Some j)
      hence "\<not> IS_BASE32 (data ! (i + j))" "j < HASH_CHARS"
        using last_bad_Some [OF Some] by (auto simp: HASH_CHARS_def)
      note skip = windows_from_skip [OF this]
      show ?thesis using 1(2) [OF True Some] True Some by (subst search_loop.simps) (simp add: skip)
    qed
  next
    case False
    hence "windows_from data i = {}" by (auto simp: windows_from_def)
    with False show ?thesis by (subst search_loop.simps) simp
  qed
qed

lemma search_spec: "search data s = mark (windows data) s"
proof -
  have "windows data = {}" if "length data < HASH_CHARS"
    using that by (auto simp: windows_def dest: sublist_length_le)
  thus ?thesis by (auto simp: search_def search_loop_spec windows_from_0 mark_def)
qed

section \<open>Chunks\<close>

lemma windows_append:
  "windows (xs @ ys) = windows xs \<union> windows ys \<union> windows (drain_to (HASH_CHARS - 1) xs @ take HASH_CHARS ys)"
proof (intro equalityI subsetI)
  fix w assume w: "w \<in> windows (xs @ ys)"
  then obtain ps ss where e: "xs @ ys = ps @ w @ ss" by (auto simp: windows_def sublist_def)
  have len: "length w = HASH_CHARS" using w by (simp add: windows_def)
  consider (l) "length ps + HASH_CHARS \<le> length xs" | (r) "length xs \<le> length ps"
    | (m) "length ps < length xs" "length xs < length ps + HASH_CHARS" by linarith
  hence "sublist w xs \<or> sublist w ys \<or> sublist w (drain_to (HASH_CHARS - 1) xs @ take HASH_CHARS ys)"
  proof cases
    case l
    hence "take (length ps + HASH_CHARS) xs = ps @ w" using arg_cong [OF e, of "take (length ps + HASH_CHARS)"] len by simp
    hence "xs = ps @ w @ drop (length ps + HASH_CHARS) xs" by (metis append.assoc append_take_drop_id)
    thus ?thesis by (metis sublist_appendI)
  next
    case r
    hence "ys = drop (length xs) ps @ w @ ss" using arg_cong [OF e, of "drop (length xs)"] by simp
    thus ?thesis by (metis sublist_appendI)
  next
    case m
    have "w = drop (length ps) xs @ take (HASH_CHARS - (length xs - length ps)) ys"
      using arg_cong [OF e, of "\<lambda>l. take HASH_CHARS (drop (length ps) l)"] len m by simp
    moreover have "drain_to (HASH_CHARS - 1) xs = take (length ps - (length xs - (HASH_CHARS - 1))) (drain_to (HASH_CHARS - 1) xs) @ drop (length ps) xs"
      using m append_take_drop_id [of "length ps - (length xs - (HASH_CHARS - 1))" "drain_to (HASH_CHARS - 1) xs"]
      by (simp add: drain_to_def)
    moreover have "take HASH_CHARS ys = take (HASH_CHARS - (length xs - length ps)) ys @ drop (HASH_CHARS - (length xs - length ps)) (take HASH_CHARS ys)"
      using append_take_drop_id [of "HASH_CHARS - (length xs - length ps)" "take HASH_CHARS ys"] by (simp add: min_def)
    ultimately show ?thesis by (metis append.assoc sublist_appendI)
  qed
  thus "w \<in> windows xs \<union> windows ys \<union> windows (drain_to (HASH_CHARS - 1) xs @ take HASH_CHARS ys)"
    using w by (auto simp: windows_def)
next
  fix w assume "w \<in> windows xs \<union> windows ys \<union> windows (drain_to (HASH_CHARS - 1) xs @ take HASH_CHARS ys)"
  moreover have "sublist (drain_to (HASH_CHARS - 1) xs @ take HASH_CHARS ys) (xs @ ys)"
    unfolding sublist_def drain_to_def
    by (rule exI [of _ "take (length xs - (HASH_CHARS - 1)) xs"], rule exI [of _ "drop HASH_CHARS ys"]) simp
  ultimately show "w \<in> windows (xs @ ys)"
    by (auto simp: windows_def intro: sublist_order.order.trans)
qed

lemma next_tail_drain: "next_tail d (drain_to (HASH_CHARS - 1) xs) = drain_to (HASH_CHARS - 1) (xs @ d)"
  by (auto simp: next_tail_def drain_to_def Let_def min_def HASH_CHARS_def)
     (rule arg_cong [where f = "\<lambda>n. drop n xs"]; linarith)+

definition sink_inv :: "string set \<Rightarrow> string \<Rightarrow> RefScanSink \<Rightarrow> bool" where
  "sink_inv C stream s \<longleftrightarrow>
     found s = C \<inter> windows stream \<and> remaining s = C - windows stream
     \<and> (remaining s \<noteq> {} \<longrightarrow> tail s = drain_to (HASH_CHARS - 1) stream)"

lemma sink_write_spec:
  assumes "remaining s \<noteq> {}" "tail s = drain_to (HASH_CHARS - 1) stream"
  shows "sink_write d s =
     (mark (windows d \<union> windows (tail s @ take HASH_CHARS d)) s)\<lparr>tail := drain_to (HASH_CHARS - 1) (stream @ d)\<rparr>"
proof -
  have twice: "mark V (mark W s) = mark (V \<union> W) s" for V W
    by (rule RefScanSink.equality) auto
  have "windows (take HASH_CHARS d) \<subseteq> windows d"
    using sublist_take sublist_order.order.trans by (auto simp: windows_def)
  hence none: "windows d \<union> windows (take HASH_CHARS d) = windows d" by blast
  show ?thesis
    using assms(1) unfolding next_tail_drain [symmetric] assms(2) [symmetric]
    by (cases "tail s = []") (simp_all add: sink_write_def Let_def search_spec twice none min_def)
qed

lemma sink_write_inv:
  assumes "sink_inv C stream s"
  shows "sink_inv C (stream @ d) (sink_write d s)"
proof -
  have w: "windows (stream @ d) = windows stream \<union> (windows d \<union> windows (drain_to (HASH_CHARS - 1) stream @ take HASH_CHARS d))"
    by (subst windows_append) (rule Un_assoc)
  show ?thesis
  proof (cases "remaining s = {}")
    case True
    with assms have "C \<subseteq> windows stream" by (auto simp: sink_inv_def)
    with True assms w show ?thesis by (auto simp: sink_inv_def sink_write_def)
  next
    case False
    with assms have t: "tail s = drain_to (HASH_CHARS - 1) stream" by (simp add: sink_inv_def)
    show ?thesis using assms
      unfolding sink_inv_def w sink_write_spec [OF False t] by (simp add: t) blast
  qed
qed

lemma sink_stream: "sink_inv C (concat chunks) (fold sink_write chunks (sink_new C))"
proof (induction chunks rule: rev_induct)
  case Nil
  show ?case by (auto simp: sink_inv_def sink_new_def windows_def drain_to_def HASH_CHARS_def)
next
  case (snoc d chunks)
  thus ?case using sink_write_inv by simp
qed

section \<open>Resolving hits to paths\<close>

lemma hash_part_of_Some:
  assumes "hash_part_of p = Some h"
  shows "length h = HASH_CHARS" "list_all IS_BASE32 h"
proof -
  obtain sp where "h = hash_part sp" and l: "length (hash_part sp) = HASH_CHARS"
    using assms by (auto simp: hash_part_of_def split: option.splits sum.splits if_splits)
  thus "length h = HASH_CHARS" "list_all IS_BASE32 h"
    using encode_alphabet by (auto simp: hash_part_def list_all_iff IS_BASE32_def)
qed

lemma from_paths_snoc:
  "from_paths (ps @ [p]) = (case hash_part_of p of Some h \<Rightarrow> (from_paths ps)(h \<mapsto> p) | None \<Rightarrow> from_paths ps)"
  by (simp add: from_paths_def split: option.split)

lemma from_paths_Some:
  "from_paths ps h = Some p \<longleftrightarrow>
     (\<exists>qs rs. ps = qs @ p # rs \<and> hash_part_of p = Some h \<and> (\<forall>r\<in>set rs. hash_part_of r \<noteq> Some h))"
proof (induction ps rule: rev_induct)
  case (snoc x ps)
  have "(\<exists>qs rs. ps @ [x] = qs @ p # rs \<and> P rs) \<longleftrightarrow> x = p \<and> P [] \<or> (\<exists>qs rs. ps = qs @ p # rs \<and> P (rs @ [x]))" for P
  proof
    assume "\<exists>qs rs. ps @ [x] = qs @ p # rs \<and> P rs"
    then obtain qs rs where "ps @ [x] = qs @ p # rs" "P rs" by blast
    thus "x = p \<and> P [] \<or> (\<exists>qs rs. ps = qs @ p # rs \<and> P (rs @ [x]))"
      by (cases rs rule: rev_cases) auto
  next
    assume "x = p \<and> P [] \<or> (\<exists>qs rs. ps = qs @ p # rs \<and> P (rs @ [x]))"
    thus "\<exists>qs rs. ps @ [x] = qs @ p # rs \<and> P rs" by (metis append.assoc append_Cons)
  qed
  note split = this [of "\<lambda>rs. hash_part_of p = Some h \<and> (\<forall>r\<in>set rs. hash_part_of r \<noteq> Some h)"]
  show ?case unfolding split from_paths_snoc using snoc.IH by (auto split: option.splits)
qed (simp add: from_paths_def)

lemma set_filter_map: "y \<in> set (List.map_filter f xs) \<longleftrightarrow> (\<exists>x\<in>set xs. f x = Some y)"
  by (induction xs) (auto simp: List.map_filter_simps split: option.splits)

lemma set_resolve_in: "p \<in> set (resolve_in m hs) \<longleftrightarrow> (\<exists>h\<in>set hs. m h = Some p)"
  by (auto simp: resolve_in_def set_filter_map)

lemma resolve_distinct:
  assumes "distinct hs"
  shows "distinct (resolve_in (from_paths ps) hs)"
proof -
  have hp: "hash_part_of p = Some h" if "from_paths ps h = Some p" for p h
    using that by (auto simp: from_paths_Some)
  have "distinct (List.map_filter (from_paths ps) hs)" using assms
  proof (induction hs)
    case (Cons h hs)
    thus ?case by (auto simp: List.map_filter_simps set_filter_map dest!: hp split: option.split)
  qed (simp add: List.map_filter_simps)
  thus ?thesis by (simp add: resolve_in_def)
qed

text \<open>
  C31. The references of an archive. However the archive is cut into chunks, and in whatever order
  the set of hits is walked, the scan reports in ascending order and without duplicates exactly
  those candidate paths whose hash part occurs somewhere in the archive; of two candidates with
  the same hash part the later one is reported. A hash that straddles chunk boundaries is not
  missed and the scan that skips over bytes outside the alphabet finds all that a scan of every
  position finds.
\<close>

theorem reference_scan_exact:
  assumes "distinct hs"
    and "set hs = into_found (fold sink_write chunks (sink_new (hashes (from_paths ps))))"
  shows "sorted (resolve_in (from_paths ps) hs) \<and> distinct (resolve_in (from_paths ps) hs)
    \<and> (p \<in> set (resolve_in (from_paths ps) hs) \<longleftrightarrow>
         (\<exists>h qs rs. hash_part_of p = Some h \<and> sublist h (concat chunks)
            \<and> ps = qs @ p # rs \<and> (\<forall>r\<in>set rs. hash_part_of r \<noteq> Some h)))"
proof -
  have "set hs = hashes (from_paths ps) \<inter> windows (concat chunks)"
    using assms(2) sink_stream [of "hashes (from_paths ps)" chunks] by (simp add: sink_inv_def into_found_def)
  hence "p \<in> set (resolve_in (from_paths ps) hs) \<longleftrightarrow>
      (\<exists>h. from_paths ps h = Some p \<and> h \<in> windows (concat chunks))"
    by (auto simp: set_resolve_in hashes_def)
  moreover have "\<dots> \<longleftrightarrow> (\<exists>h qs rs. hash_part_of p = Some h \<and> sublist h (concat chunks)
            \<and> ps = qs @ p # rs \<and> (\<forall>r\<in>set rs. hash_part_of r \<noteq> Some h))"
    unfolding from_paths_Some windows_def using hash_part_of_Some by blast
  ultimately show ?thesis using resolve_distinct [OF assms(1), of ps] by (simp add: resolve_in_def)
qed

definition sample_path :: StorePath where
  "sample_path = \<lparr>hash = replicate 20 0, name = ''x'', full = STORE_PREFIX @ encode (replicate 20 0) @ ''-x''\<rparr>"

lemma sample_path_wf: "sp_wf sample_path"
  by (simp add: sample_path_def sp_wf_def HASH_BYTES_def validate_name_def MAX_NAME_LEN_def byte_at_def
      starts_with_def is_valid_name_char_def is_ascii_alphanumeric_def)

lemma sample_hash_part: "hash_part_of (full sample_path) = Some (hash_part sample_path)"
  using sample_path_wf parse_full [OF sample_path_wf] length_hash_part [of "hash sample_path"]
  by (simp add: hash_part_of_def hash_part_def sp_wf_def)

text \<open>The hash cut in two by a chunk boundary.\<close>

theorem reference_scan_exact_witness:
  "full sample_path \<in> set (resolve_in (from_paths [full sample_path]) [hash_part sample_path])"
proof -
  let ?h = "hash_part sample_path" and ?ps = "[full sample_path]"
  let ?chunks = "[''ab'' @ take 7 ?h, drop 7 ?h @ ''-x'']"
  have m: "from_paths ?ps = [?h \<mapsto> full sample_path]" by (simp add: from_paths_def sample_hash_part)
  have sub: "sublist ?h (concat ?chunks)" unfolding sublist_def by (rule exI [of _ "''ab''"], rule exI [of _ "''-x''"]) simp
  have "set [?h] = into_found (fold sink_write ?chunks (sink_new (hashes (from_paths ?ps))))"
    using sink_stream [of "hashes (from_paths ?ps)" ?chunks] sub hash_part_of_Some [OF sample_hash_part]
    by (auto simp: sink_inv_def into_found_def m hashes_def windows_def)
  note scan = reference_scan_exact [OF distinct_singleton this, THEN conjunct2, THEN conjunct2, THEN iffD2]
  have "\<exists>qs rs. ?ps = qs @ full sample_path # rs \<and> (\<forall>r\<in>set rs. hash_part_of r \<noteq> Some ?h)"
    by (intro exI [of _ "[]"]) simp
  with sub sample_hash_part show ?thesis by (intro scan) blast
qed

end
