(* ===== verification/Nix_DrvHash.thy ===== *)
theory Nix_DrvHash
  imports Nix_Derivation
begin

text \<open>
  Modular hashes of derivations (\<open>rio-nix/src/derivation/hash.rs\<close>, with \<open>to_aterm_modulo\<close> of
  \<open>aterm.rs\<close>) and the filling of deferred outputs (\<open>mod.rs\<close>). \<open>sha256\<close> and \<open>hex\<close> are parameters,
  as is the caller's \<open>resolve_input\<close>. The recursion carries the number of levels left,
  \<open>MAX_HASH_RECURSION_DEPTH - depth\<close>.
\<close>

section \<open>Text with replaced inputs\<close>

definition btree_extend :: "string \<Rightarrow> string list \<Rightarrow> (string \<times> string list) list \<Rightarrow> (string \<times> string list) list" where
  "btree_extend k names m =
     btree_put k (btree_set ((case map_of m k of Some old \<Rightarrow> old | None \<Rightarrow> []) @ names)) m"

fun replace_inputs ::
  "(string \<times> string) list \<Rightarrow> (string \<times> string list) list \<Rightarrow> (string \<times> string list) list
   \<Rightarrow> DerivationError + (string \<times> string list) list" where
  "replace_inputs rw [] acc = Inr acc"
| "replace_inputs rw ((drv_path, output_names) # ds) acc =
     (case map_of rw drv_path of
        None \<Rightarrow> Inl (InputNotFound drv_path)
      | Some new_key \<Rightarrow> replace_inputs rw ds (btree_extend new_key output_names acc))"

definition to_aterm_modulo :: "Derivation \<Rightarrow> (string \<times> string) list \<Rightarrow> bool \<Rightarrow> DerivationError + string" where
  "to_aterm_modulo d input_rewrites mask_outputs =
     and_then (replace_inputs input_rewrites (input_drvs d) []) (\<lambda>replaced_inputs.
       Inr (''Derive('' @ write_aterm_outputs (outputs d) mask_outputs @ '',''
            @ write_aterm_input_drvs replaced_inputs @ '',''
            @ write_aterm_tail (input_srcs d) (platform d) (builder d) (args d) (env d)
                (if mask_outputs then Some (o_name ` set (outputs d)) else None)))"

section \<open>The hash\<close>

definition MAX_HASH_RECURSION_DEPTH :: nat where "MAX_HASH_RECURSION_DEPTH = 512"

type_synonym hash_state = "(string \<rightharpoonup> u8 list) \<times> string set"

definition fod_fingerprint :: "DerivationOutput \<Rightarrow> string" where
  "fod_fingerprint out = ''fixed:out:'' @ o_hash_algo out @ '':'' @ o_hash out @ '':'' @ o_path out"

definition finish_hash ::
  "string \<Rightarrow> bool \<Rightarrow> (DerivationError + u8 list) \<times> hash_state \<Rightarrow> (DerivationError + u8 list) \<times> hash_state" where
  "finish_hash drv_path mask_outputs = (\<lambda>(result, cache, visiting).
     case result of
       Inl e \<Rightarrow> (Inl e, cache, visiting - {drv_path})
     | Inr h \<Rightarrow> (Inr h, if mask_outputs then cache else cache(drv_path \<mapsto> h), visiting - {drv_path}))"

definition hash_rewritten ::
  "(string \<Rightarrow> u8 list) \<Rightarrow> Derivation \<Rightarrow> bool \<Rightarrow> (DerivationError + (string \<times> string) list) \<times> hash_state
   \<Rightarrow> (DerivationError + u8 list) \<times> hash_state" where
  "hash_rewritten sha256 drv mask_outputs = (\<lambda>(rw, st).
     (and_then rw (\<lambda>input_rewrites.
        and_then (to_aterm_modulo drv input_rewrites mask_outputs) (\<lambda>t. Inr (sha256 t))), st))"

function hash_inner ::
  "(string \<Rightarrow> u8 list) \<Rightarrow> (u8 list \<Rightarrow> string) \<Rightarrow> (string \<Rightarrow> Derivation option) \<Rightarrow> nat \<Rightarrow> Derivation \<Rightarrow> string
   \<Rightarrow> bool \<Rightarrow> hash_state \<Rightarrow> (DerivationError + u8 list) \<times> hash_state"
and hash_inputs ::
  "(string \<Rightarrow> u8 list) \<Rightarrow> (u8 list \<Rightarrow> string) \<Rightarrow> (string \<Rightarrow> Derivation option) \<Rightarrow> nat \<Rightarrow> string list
   \<Rightarrow> (string \<times> string) list \<Rightarrow> hash_state \<Rightarrow> (DerivationError + (string \<times> string) list) \<times> hash_state" where
  "hash_inner sha256 hex resolve levels drv drv_path mask_outputs (cache, visiting) =
     (case (if mask_outputs then None else cache drv_path) of
        Some cached \<Rightarrow> (Inr cached, cache, visiting)
      | None \<Rightarrow>
          if drv_path \<in> visiting then (Inl (CycleDetected drv_path), cache, visiting)
          else
            case levels of
              0 \<Rightarrow> (Inl (RecursionLimitExceeded drv_path), cache, visiting)
            | Suc n \<Rightarrow>
                finish_hash drv_path mask_outputs
                  (if is_fixed_output (outputs drv)
                   then (Inr (sha256 (fod_fingerprint (outputs drv ! 0))), cache, insert drv_path visiting)
                   else hash_rewritten sha256 drv mask_outputs
                          (hash_inputs sha256 hex resolve n (map fst (input_drvs drv)) []
                             (cache, insert drv_path visiting))))"
| "hash_inputs sha256 hex resolve levels [] input_rewrites st = (Inr input_rewrites, st)"
| "hash_inputs sha256 hex resolve levels (p # ps) input_rewrites st =
     (case resolve p of
        None \<Rightarrow> (Inl (InputNotFound p), st)
      | Some input_drv \<Rightarrow>
          (case hash_inner sha256 hex resolve levels input_drv p False st of
             (Inl e, st) \<Rightarrow> (Inl e, st)
           | (Inr input_hash, st) \<Rightarrow>
               hash_inputs sha256 hex resolve levels ps (btree_put p (hex input_hash) input_rewrites) st))"
  by pat_completeness auto

termination
  by (relation "inv_image (less_than <*lex*> less_than)
      (\<lambda>x. case x of Inl (_, _, _, n, _) \<Rightarrow> (2 * n, 0) | Inr (_, _, _, n, ps, _) \<Rightarrow> (2 * n + 1, length ps))") auto

declare hash_inner.simps [simp del]

definition hash_derivation_modulo ::
  "(string \<Rightarrow> u8 list) \<Rightarrow> (u8 list \<Rightarrow> string) \<Rightarrow> (string \<Rightarrow> Derivation option) \<Rightarrow> Derivation \<Rightarrow> string
   \<Rightarrow> (string \<rightharpoonup> u8 list) \<Rightarrow> (DerivationError + u8 list) \<times> (string \<rightharpoonup> u8 list)" where
  "hash_derivation_modulo sha256 hex resolve drv drv_path cache =
     (case hash_inner sha256 hex resolve MAX_HASH_RECURSION_DEPTH drv drv_path
             (has_ca_floating_outputs (outputs drv)) (cache, {}) of
        (res, cache', _) \<Rightarrow> (res, cache'))"

section \<open>The hash without cache, cycle check and depth limit\<close>

definition drv_inputs :: "Derivation \<Rightarrow> string list" where
  "drv_inputs d = map fst (input_drvs d)"

inductive modulo_hash ::
  "(string \<Rightarrow> u8 list) \<Rightarrow> (u8 list \<Rightarrow> string) \<Rightarrow> (string \<Rightarrow> Derivation option) \<Rightarrow> Derivation \<Rightarrow> bool \<Rightarrow> u8 list \<Rightarrow> bool"
  where
  fixed: "is_fixed_output (outputs d) \<Longrightarrow> modulo_hash sha256 hex tree d m (sha256 (fod_fingerprint (outputs d ! 0)))"
| inputs: "\<not> is_fixed_output (outputs d) \<Longrightarrow> length hs = length (drv_inputs d) \<Longrightarrow>
     (\<forall>i<length hs. \<exists>d'. tree (drv_inputs d ! i) = Some d' \<and> modulo_hash sha256 hex tree d' False (hs ! i)) \<Longrightarrow>
     to_aterm_modulo d (btree_collect (zip (drv_inputs d) (map hex hs))) m = Inr t \<Longrightarrow>
     modulo_hash sha256 hex tree d m (sha256 t)"

inductive_cases modulo_hashE: "modulo_hash sha256 hex tree d m h"

lemma modulo_hash_unique:
  "modulo_hash sha256 hex tree d m h \<Longrightarrow> modulo_hash sha256 hex tree d m h' \<Longrightarrow> h' = h"
proof (induction arbitrary: h' rule: modulo_hash.induct)
  case (inputs d hs tree sha256 hex m t)
  from inputs.prems inputs.hyps(1) obtain hs' t' where h: "length hs' = length (drv_inputs d)"
    "\<forall>i<length hs'. \<exists>d'. tree (drv_inputs d ! i) = Some d' \<and> modulo_hash sha256 hex tree d' False (hs' ! i)"
    "to_aterm_modulo d (btree_collect (zip (drv_inputs d) (map hex hs'))) m = Inr t'" "h' = sha256 t'"
    by (elim modulo_hashE) auto
  have "hs' = hs"
  proof (rule nth_equalityI)
    show "length hs' = length hs" using h(1) inputs.hyps(2) by simp
    fix i assume "i < length hs'"
    with h inputs show "hs' ! i = hs ! i" by fastforce
  qed
  with h inputs.hyps show ?case by simp
next
  case (fixed d sha256 hex tree m)
  thus ?case by (auto elim: modulo_hashE)
qed

section \<open>The cache holds only true hashes\<close>

definition cache_ok ::
  "(string \<Rightarrow> u8 list) \<Rightarrow> (u8 list \<Rightarrow> string) \<Rightarrow> (string \<Rightarrow> Derivation option) \<Rightarrow> (string \<rightharpoonup> u8 list) \<Rightarrow> bool" where
  "cache_ok sha256 hex tree cache \<longleftrightarrow>
     (\<forall>p h. cache p = Some h \<longrightarrow> (\<exists>d. tree p = Some d \<and> modulo_hash sha256 hex tree d False h))"

definition inputs_ok ::
  "(string \<Rightarrow> u8 list) \<Rightarrow> (u8 list \<Rightarrow> string) \<Rightarrow> (string \<Rightarrow> Derivation option) \<Rightarrow> string list \<Rightarrow> u8 list list \<Rightarrow> bool" where
  "inputs_ok sha256 hex tree ps hs \<longleftrightarrow> length hs = length ps
     \<and> (\<forall>i<length hs. \<exists>d'. tree (ps ! i) = Some d' \<and> modulo_hash sha256 hex tree d' False (hs ! i))"

lemma inputs_ok_Cons:
  "tree p = Some d \<Longrightarrow> modulo_hash sha256 hex tree d False h \<Longrightarrow> inputs_ok sha256 hex tree ps hs \<Longrightarrow>
   inputs_ok sha256 hex tree (p # ps) (h # hs)"
  by (auto simp: inputs_ok_def nth_Cons split: nat.split)

lemma cache_ok_upd:
  "cache_ok sha256 hex tree c \<Longrightarrow> tree p = Some d \<Longrightarrow> modulo_hash sha256 hex tree d False h \<Longrightarrow>
   cache_ok sha256 hex tree (c(p \<mapsto> h))"
  by (auto simp: cache_ok_def)

definition key_rewrites :: "(u8 list \<Rightarrow> string) \<Rightarrow> (string \<times> string) list \<Rightarrow> string list \<Rightarrow> u8 list list \<Rightarrow> (string \<times> string) list" where
  "key_rewrites hex rw ps hs = fold (\<lambda>(k, v). btree_put k v) (zip ps (map hex hs)) rw"

lemma key_rewrites_Cons: "key_rewrites hex rw (p # ps) (h # hs) = key_rewrites hex (btree_put p (hex h) rw) ps hs"
  by (simp add: key_rewrites_def)

lemma hash_sound:
  "hash_inner sha256 hex resolve n drv path m st = (res, c', v') \<Longrightarrow> resolve \<subseteq>\<^sub>m tree \<Longrightarrow>
   cache_ok sha256 hex tree (fst st) \<Longrightarrow> tree path = Some drv \<Longrightarrow>
   v' = snd st \<and> cache_ok sha256 hex tree c' \<and> (\<forall>h. res = Inr h \<longrightarrow> modulo_hash sha256 hex tree drv m h)"
  "hash_inputs sha256 hex resolve n ps rw st = (res', c', v') \<Longrightarrow> resolve \<subseteq>\<^sub>m tree \<Longrightarrow>
   cache_ok sha256 hex tree (fst st) \<Longrightarrow>
   v' = snd st \<and> cache_ok sha256 hex tree c'
   \<and> (\<forall>rw'. res' = Inr rw' \<longrightarrow> (\<exists>hs. inputs_ok sha256 hex tree ps hs \<and> rw' = key_rewrites hex rw ps hs))"
proof (induction sha256 hex resolve n drv path m st and sha256 hex resolve n ps rw st
    arbitrary: res c' v' and res' c' v' rule: hash_inner_hash_inputs.induct)
  case (1 sha256 hex resolve levels drv drv_path mask cache visiting)
  note ok = "1.prems"(3) [simplified] and tr = "1.prems"(4)
  consider (hit) h where "\<not> mask" "cache drv_path = Some h"
    | (cycle) "mask \<or> cache drv_path = None" "drv_path \<in> visiting"
    | (deep) "mask \<or> cache drv_path = None" "drv_path \<notin> visiting" "levels = 0"
    | (fod) n where "mask \<or> cache drv_path = None" "drv_path \<notin> visiting" "levels = Suc n" "is_fixed_output (outputs drv)"
    | (rec) n where "mask \<or> cache drv_path = None" "drv_path \<notin> visiting" "levels = Suc n" "\<not> is_fixed_output (outputs drv)"
    by (cases levels) auto
  thus ?case
  proof cases
    case hit
    then obtain d where "tree drv_path = Some d" "modulo_hash sha256 hex tree d False h" using ok by (auto simp: cache_ok_def)
    with hit tr "1.prems"(1) ok show ?thesis by (auto simp: hash_inner.simps)
  next
    case rec
    hence e: "(if mask then None else cache drv_path) = None" by auto
    obtain rr c1 v1 where i: "hash_inputs sha256 hex resolve n (drv_inputs drv) [] (cache, insert drv_path visiting) = (rr, c1, v1)"
      by (cases "hash_inputs sha256 hex resolve n (drv_inputs drv) [] (cache, insert drv_path visiting)") auto
    have IH: "v1 = insert drv_path visiting \<and> cache_ok sha256 hex tree c1
      \<and> (\<forall>rw'. rr = Inr rw' \<longrightarrow> (\<exists>hs. inputs_ok sha256 hex tree (drv_inputs drv) hs \<and> rw' = key_rewrites hex [] (drv_inputs drv) hs))"
      using "1.IH" [OF e rec(2,3,4), folded drv_inputs_def, OF i "1.prems"(2)] ok by simp
    have "modulo_hash sha256 hex tree drv mask (sha256 t)"
      if "rr = Inr rw'" "to_aterm_modulo drv rw' mask = Inr t" for rw' t
      using that IH rec(4) by (auto simp: inputs_ok_def key_rewrites_def btree_collect_def intro: modulo_hash.inputs)
    with IH rec e i "1.prems"(1) tr show ?thesis
      by (auto simp: hash_inner.simps drv_inputs_def finish_hash_def hash_rewritten_def and_then_Inr
          intro: cache_ok_upd split: sum.splits if_splits)
  qed (use "1.prems"(1) ok tr in \<open>auto simp: hash_inner.simps finish_hash_def
      intro: cache_ok_upd modulo_hash.fixed split: if_splits option.splits\<close>)
next
  case (2 sha256 hex resolve levels rw st)
  thus ?case by (cases st) (auto simp: inputs_ok_def key_rewrites_def)
next
  case (3 sha256 hex resolve levels p ps rw st)
  show ?case
  proof (cases "resolve p")
    case None
    with "3.prems" show ?thesis by (cases st) auto
  next
    case (Some d)
    hence tr: "tree p = Some d" using "3.prems"(2) by (metis domI map_le_def)
    obtain r c1 v1 where i: "hash_inner sha256 hex resolve levels d p False st = (r, c1, v1)"
      by (cases "hash_inner sha256 hex resolve levels d p False st") auto
    note IH = "3.IH"(1) [OF Some i "3.prems"(2,3) tr]
    show ?thesis
    proof (cases r)
      case (Inl e)
      with IH i Some "3.prems"(1) show ?thesis by auto
    next
      case (Inr h)
      have "hash_inputs sha256 hex resolve levels ps (btree_put p (hex h) rw) (c1, v1) = (res', c', v')"
        using "3.prems"(1) Some i Inr by simp
      note IH2 = "3.IH"(2) [OF Some i [symmetric] Inr this "3.prems"(2)]
      with IH Inr tr show ?thesis
        by (auto simp: key_rewrites_Cons [symmetric] intro: inputs_ok_Cons)
    qed
  qed
qed

section \<open>Errors name real faults\<close>

definition edges :: "(string \<Rightarrow> Derivation option) \<Rightarrow> (string \<times> string) set" where
  "edges tree = {(p, q). \<exists>d. tree p = Some d \<and> \<not> is_fixed_output (outputs d) \<and> q \<in> set (drv_inputs d)}"

definition fault ::
  "(string \<Rightarrow> Derivation option) \<Rightarrow> (string \<Rightarrow> Derivation option) \<Rightarrow> string \<Rightarrow> DerivationError \<Rightarrow> bool" where
  "fault resolve tree root e =
     (case e of
        InputNotFound q \<Rightarrow> resolve q = None \<and> (root, q) \<in> (edges tree)\<^sup>+
      | CycleDetected q \<Rightarrow> (root, q) \<in> (edges tree)\<^sup>* \<and> (q, q) \<in> (edges tree)\<^sup>+
      | RecursionLimitExceeded q \<Rightarrow> (root, q) \<in> edges tree ^^ MAX_HASH_RECURSION_DEPTH
      | _ \<Rightarrow> False)"

lemma replace_inputs_total:
  "(\<forall>p\<in>fst ` set ds. map_of rw p \<noteq> None) \<Longrightarrow> \<exists>m. replace_inputs rw ds acc = Inr m"
  by (induction rw ds acc rule: replace_inputs.induct) auto

lemma keys_key_rewrites:
  "length hs = length ps \<Longrightarrow> fst ` set (key_rewrites hex rw ps hs) = fst ` set rw \<union> set ps"
proof (induction ps arbitrary: rw hs)
  case (Cons p ps)
  then obtain h hs' where "hs = h # hs'" by (cases hs) auto
  with Cons show ?case by (auto simp: key_rewrites_Cons set_btree_put)
qed (simp add: key_rewrites_def)

lemma to_aterm_modulo_total:
  assumes "length hs = length (drv_inputs d)"
  shows "\<exists>t. to_aterm_modulo d (key_rewrites hex [] (drv_inputs d) hs) m = Inr t"
proof -
  have "\<forall>p\<in>fst ` set (input_drvs d). map_of (key_rewrites hex [] (drv_inputs d) hs) p \<noteq> None"
    using keys_key_rewrites [OF assms, of hex "[]"] by (auto simp: map_of_eq_None_iff drv_inputs_def)
  from replace_inputs_total [OF this, of "[]"] show ?thesis by (auto simp: to_aterm_modulo_def)
qed

lemma hash_faults:
  "hash_inner sha256 hex resolve n drv path m st = (Inl e, st') \<Longrightarrow> resolve \<subseteq>\<^sub>m tree \<Longrightarrow>
   cache_ok sha256 hex tree (fst st) \<Longrightarrow> tree path = Some drv \<Longrightarrow>
   (root, path) \<in> edges tree ^^ k \<Longrightarrow> k + n = MAX_HASH_RECURSION_DEPTH \<Longrightarrow>
   (\<forall>x\<in>snd st. (x, path) \<in> (edges tree)\<^sup>+) \<Longrightarrow> fault resolve tree root e"
  "hash_inputs sha256 hex resolve n ps rw st = (Inl e, st') \<Longrightarrow> resolve \<subseteq>\<^sub>m tree \<Longrightarrow>
   cache_ok sha256 hex tree (fst st) \<Longrightarrow>
   (\<forall>p\<in>set ps. (root, p) \<in> edges tree ^^ Suc k) \<Longrightarrow> Suc k + n = MAX_HASH_RECURSION_DEPTH \<Longrightarrow>
   (\<forall>x\<in>snd st. \<forall>p\<in>set ps. (x, p) \<in> (edges tree)\<^sup>+) \<Longrightarrow> fault resolve tree root e"
proof (induction sha256 hex resolve n drv path m st and sha256 hex resolve n ps rw st
    arbitrary: st' k and st' k rule: hash_inner_hash_inputs.induct)
  case (1 sha256 hex resolve levels drv drv_path mask cache visiting)
  have miss: "(if mask then None else cache drv_path) = None"
    using "1.prems"(1) by (auto simp: hash_inner.simps split: if_splits option.splits)
  consider (cycle) "drv_path \<in> visiting" | (deep) "drv_path \<notin> visiting" "levels = 0"
    | (rec) n where "drv_path \<notin> visiting" "levels = Suc n" "\<not> is_fixed_output (outputs drv)"
    using "1.prems"(1) miss by (cases levels) (auto simp: hash_inner.simps finish_hash_def split: if_splits)
  thus ?case
  proof cases
    case cycle
    hence "e = CycleDetected drv_path" using "1.prems"(1) miss by (simp add: hash_inner.simps)
    thus ?thesis using cycle "1.prems"(5,7) by (auto simp: fault_def relpow_imp_rtrancl)
  next
    case deep
    hence "e = RecursionLimitExceeded drv_path" using "1.prems"(1) miss by (simp add: hash_inner.simps)
    thus ?thesis using deep "1.prems"(5,6) by (simp add: fault_def)
  next
    case rec
    obtain rr c1 v1 where i: "hash_inputs sha256 hex resolve n (drv_inputs drv) [] (cache, insert drv_path visiting) = (rr, c1, v1)"
      by (cases "hash_inputs sha256 hex resolve n (drv_inputs drv) [] (cache, insert drv_path visiting)") auto
    note sound = hash_sound(2) [OF i "1.prems"(2)]
    have "rr \<noteq> Inr rw'" for rw'
    proof
      assume rr: "rr = Inr rw'"
      then obtain hs where "length hs = length (drv_inputs drv)" "rw' = key_rewrites hex [] (drv_inputs drv) hs"
        using sound "1.prems"(3) by (auto simp: inputs_ok_def)
      then obtain t where "to_aterm_modulo drv rw' mask = Inr t" using to_aterm_modulo_total by metis
      thus False using "1.prems"(1) miss rec i rr
        by (simp add: hash_inner.simps drv_inputs_def [symmetric] finish_hash_def hash_rewritten_def)
    qed
    moreover from this have "rr = Inl e"
      using "1.prems"(1) miss rec i
      by (cases rr) (auto simp: hash_inner.simps drv_inputs_def [symmetric] finish_hash_def hash_rewritten_def)
    moreover have edge: "(drv_path, p) \<in> edges tree" if "p \<in> set (drv_inputs drv)" for p
      using that rec(3) "1.prems"(4) by (auto simp: edges_def)
    ultimately show ?thesis
      using i "1.prems" rec(2)
      by (intro "1.IH" [OF miss rec, folded drv_inputs_def, of "(c1, v1)" k]) (auto intro: trancl_into_trancl)
  qed
next
  case (2 sha256 hex resolve levels rw st)
  thus ?case by simp
next
  case (3 sha256 hex resolve levels p ps rw st)
  show ?case
  proof (cases "resolve p")
    case None
    hence "e = InputNotFound p" using "3.prems"(1) by simp
    moreover have "(root, p) \<in> (edges tree)\<^sup>+" using "3.prems"(4) by (metis list.set_intros(1) trancl_power zero_less_Suc)
    ultimately show ?thesis using None by (simp add: fault_def)
  next
    case (Some d)
    hence tr: "tree p = Some d" using "3.prems"(2) by (metis domI map_le_def)
    obtain r c1 v1 where i: "hash_inner sha256 hex resolve levels d p False st = (r, c1, v1)"
      by (cases "hash_inner sha256 hex resolve levels d p False st") auto
    note sound = hash_sound(1) [OF i "3.prems"(2,3) tr]
    show ?thesis
    proof (cases r)
      case (Inl e')
      hence "e' = e" using "3.prems"(1) Some i by simp
      with Inl i show ?thesis using "3.prems" tr by (intro "3.IH"(1) [OF Some, of "(c1, v1)" "Suc k"]) auto
    next
      case (Inr h)
      hence "hash_inputs sha256 hex resolve levels ps (btree_put p (hex h) rw) (c1, v1) = (Inl e, st')"
        using "3.prems"(1) Some i by simp
      thus ?thesis using "3.prems" sound by (intro "3.IH"(2) [OF Some i [symmetric] Inr, of st' k]) auto
    qed
  qed
qed

section \<open>A sample graph\<close>

definition sample_drv :: "string list \<Rightarrow> Derivation" where
  "sample_drv ins =
     \<lparr>outputs = [\<lparr>o_name = ''out'', o_path = ''/p'', o_hash_algo = [], o_hash = []\<rparr>],
      input_drvs = map (\<lambda>p. (p, [''out''])) ins, input_srcs = [], platform = ''x'', builder = ''y'', args = [], env = []\<rparr>"

definition sample_graph :: "string \<Rightarrow> Derivation option" where
  "sample_graph = [''a'' \<mapsto> sample_drv [], ''b'' \<mapsto> sample_drv [''a''], ''c'' \<mapsto> sample_drv [''c'']]"

abbreviation sample_sha :: "string \<Rightarrow> u8 list" where
  "sample_sha s \<equiv> replicate 32 (of_nat (length s))"

abbreviation sample_hex :: "u8 list \<Rightarrow> string" where
  "sample_hex h \<equiv> replicate 64 (CHR ''0'')"

lemmas sample_defs = hash_derivation_modulo_def hash_inner.simps sample_drv_def sample_graph_def
  is_fixed_output_def has_ca_floating_outputs_def MAX_HASH_RECURSION_DEPTH_def finish_hash_def hash_rewritten_def
  to_aterm_modulo_def

section \<open>The three promises\<close>

lemma hash_derivation_modulo_inner:
  "\<exists>v. hash_inner sha256 hex resolve MAX_HASH_RECURSION_DEPTH drv path (has_ca_floating_outputs (outputs drv)) (cache, {})
       = (fst (hash_derivation_modulo sha256 hex resolve drv path cache),
          snd (hash_derivation_modulo sha256 hex resolve drv path cache), v)"
  by (auto simp: hash_derivation_modulo_def split: prod.split)

lemma hash_modulo_fault:
  assumes "resolve \<subseteq>\<^sub>m tree" "tree path = Some drv" "cache_ok sha256 hex tree cache"
    and "fst (hash_derivation_modulo sha256 hex resolve drv path cache) = Inl e"
  shows "fault resolve tree path e"
proof -
  obtain st' where "hash_inner sha256 hex resolve MAX_HASH_RECURSION_DEPTH drv path
      (has_ca_floating_outputs (outputs drv)) (cache, {}) = (Inl e, st')"
    using hash_derivation_modulo_inner assms(4) by metis
  from hash_faults(1) [OF this assms(1), of path 0] assms(2,3) show ?thesis by simp
qed

text \<open>
  C21. The cache is invisible. For any cache that holds only true hashes, a hash that is returned
  is the one defined by recursion over the inputs alone, without cache, cycle check or depth
  limit; that definition gives each derivation at most one hash; and the cache handed back again holds only
  true hashes, whether the call succeeded or not.
\<close>

theorem drv_hash_memo_transparent:
  assumes "resolve \<subseteq>\<^sub>m tree" "tree path = Some drv" "cache_ok sha256 hex tree cache"
  shows "cache_ok sha256 hex tree (snd (hash_derivation_modulo sha256 hex resolve drv path cache))
    \<and> (fst (hash_derivation_modulo sha256 hex resolve drv path cache) = Inr h \<longrightarrow>
       {h'. modulo_hash sha256 hex tree drv (has_ca_floating_outputs (outputs drv)) h'} = {h})"
proof -
  obtain v where "hash_inner sha256 hex resolve MAX_HASH_RECURSION_DEPTH drv path
      (has_ca_floating_outputs (outputs drv)) (cache, {})
    = (fst (hash_derivation_modulo sha256 hex resolve drv path cache),
       snd (hash_derivation_modulo sha256 hex resolve drv path cache), v)"
    using hash_derivation_modulo_inner by blast
  from hash_sound(1) [OF this assms(1)] assms(2,3) show ?thesis
    by (auto dest: modulo_hash_unique)
qed

theorem drv_hash_memo_transparent_witness:
  "\<exists>h. fst (hash_derivation_modulo sample_sha sample_hex sample_graph (sample_drv [''a'']) ''b'' Map.empty) = Inr h
     \<and> {h'. modulo_hash sample_sha sample_hex sample_graph (sample_drv [''a'']) False h'} = {h}"
proof -
  have "\<exists>h. fst (hash_derivation_modulo sample_sha sample_hex sample_graph (sample_drv [''a'']) ''b'' Map.empty) = Inr h"
    by (simp add: sample_defs)
  moreover have "\<not> has_ca_floating_outputs (outputs (sample_drv [''a'']))" by (simp add: sample_defs)
  moreover have "cache_ok sample_sha sample_hex sample_graph Map.empty" by (simp add: cache_ok_def)
  moreover have "sample_graph ''b'' = Some (sample_drv [''a''])" by (simp add: sample_graph_def)
  ultimately show ?thesis
    using drv_hash_memo_transparent [of sample_graph sample_graph "''b''" "sample_drv [''a'']" sample_sha sample_hex Map.empty]
    by auto
qed

text \<open>
  C35. Errors are true. The hash of a derivation fails only with an error that names a fault of the
  graph: an input reachable from it that the caller cannot resolve, a derivation reachable from it that depends
  on itself, or one that is 512 steps below it.
\<close>

theorem drv_hash_errors_true:
  assumes "resolve \<subseteq>\<^sub>m tree" "tree path = Some drv" "cache_ok sha256 hex tree cache"
    and "fst (hash_derivation_modulo sha256 hex resolve drv path cache) = Inl e"
  shows "fault resolve tree path e"
  using assms by (rule hash_modulo_fault)

theorem drv_hash_errors_true_witness:
  "fst (hash_derivation_modulo sample_sha sample_hex sample_graph (sample_drv [''c'']) ''c'' Map.empty) = Inl (CycleDetected ''c'')
   \<and> fault sample_graph sample_graph ''c'' (CycleDetected ''c'')"
proof -
  have e: "fst (hash_derivation_modulo sample_sha sample_hex sample_graph (sample_drv [''c'']) ''c'' Map.empty) = Inl (CycleDetected ''c'')"
    by (simp add: sample_defs)
  thus ?thesis by (intro conjI drv_hash_errors_true [OF _ _ _ e]) (simp_all add: cache_ok_def sample_graph_def)
qed

lemma rank_chain:
  assumes "\<And>p q. (p, q) \<in> R \<Longrightarrow> rank q < (rank p :: nat)" "(p, q) \<in> R ^^ k"
  shows "rank q + k \<le> rank p"
  using assms(2)
proof (induction k arbitrary: q)
  case (Suc k)
  then obtain y where "(p, y) \<in> R ^^ k" "(y, q) \<in> R" by auto
  with Suc.IH [of y] assms(1) [of y q] show ?case by simp
qed simp

text \<open>
  C36. Hashing succeeds on every sound graph. If every input can be resolved, the derivations can be
  ranked so that inputs rank below what depends on them, and the subject ranks below 512, then
  a hash is returned.
\<close>

theorem drv_hash_total:
  assumes "resolve \<subseteq>\<^sub>m tree" "tree path = Some drv" "cache_ok sha256 hex tree cache"
    and "\<forall>(p, q) \<in> edges tree. resolve q \<noteq> None \<and> rank q < (rank p :: nat)"
    and "rank path < MAX_HASH_RECURSION_DEPTH"
  shows "\<exists>h. fst (hash_derivation_modulo sha256 hex resolve drv path cache) = Inr h"
proof (rule ccontr)
  assume "\<nexists>h. fst (hash_derivation_modulo sha256 hex resolve drv path cache) = Inr h"
  then obtain e where "fst (hash_derivation_modulo sha256 hex resolve drv path cache) = Inl e"
    by (metis sumE)
  from hash_modulo_fault [OF assms(1-3) this] have f: "fault resolve tree path e" .
  have dec: "rank q < rank p" if "(p, q) \<in> edges tree" for p q using assms(4) that by auto
  have plus: "rank q < rank p" if "(p, q) \<in> (edges tree)\<^sup>+" for p q
    using that by (induction rule: trancl_induct) (auto dest: dec)
  have "resolve q \<noteq> None" if "(p, q) \<in> (edges tree)\<^sup>+" for p q
    using that assms(4) by (cases rule: tranclE) auto
  thus False using f plus rank_chain [of "edges tree" rank path _ MAX_HASH_RECURSION_DEPTH, OF dec] assms(5)
    by (fastforce simp: fault_def split: DerivationError.splits)
qed

definition sample_tree :: "string \<Rightarrow> Derivation option" where
  "sample_tree = [''a'' \<mapsto> sample_drv [], ''b'' \<mapsto> sample_drv [''a'']]"

theorem drv_hash_total_witness:
  "\<exists>h. fst (hash_derivation_modulo sample_sha sample_hex sample_tree (sample_drv [''a'']) ''b'' Map.empty) = Inr h"
proof -
  have "edges sample_tree = {(''b'', ''a'')}"
    by (auto simp: edges_def sample_tree_def sample_drv_def drv_inputs_def is_fixed_output_def split: if_splits)
  thus ?thesis
    by (intro drv_hash_total [where tree = sample_tree and rank = "\<lambda>p. if p = ''b'' then 1 else 0"])
       (simp_all add: cache_ok_def sample_tree_def MAX_HASH_RECURSION_DEPTH_def)
qed

section \<open>Deferred outputs\<close>

definition basic_new ::
  "DerivationOutput list \<Rightarrow> string list \<Rightarrow> string \<Rightarrow> string \<Rightarrow> string list \<Rightarrow> (string \<times> string) list
   \<Rightarrow> DerivationError + BasicDerivation" where
  "basic_new outs srcs plat bld as ev =
     (if outs = [] then Inl NoOutputs
      else Inr \<lparr>b_outputs = outs, b_input_srcs = srcs, b_platform = plat, b_builder = bld, b_args = as, b_env = ev\<rparr>)"

text \<open>\<open>expect\<close> on the result is a panic, \<open>None\<close>.\<close>

definition to_basic :: "Derivation \<Rightarrow> BasicDerivation option" where
  "to_basic d =
     (case basic_new (outputs d) (input_srcs d) (platform d) (builder d) (args d) (env d) of
        Inr b \<Rightarrow> Some b
      | Inl _ \<Rightarrow> None)"

definition from_resolved :: "Derivation \<Rightarrow> string list \<Rightarrow> BasicDerivation option" where
  "from_resolved d extra_srcs =
     map_option (\<lambda>b. b\<lparr>b_input_srcs := btree_set (b_input_srcs b @ extra_srcs)\<rparr>) (to_basic d)"

definition is_deferred :: "DerivationOutput \<Rightarrow> bool" where
  "is_deferred out \<longleftrightarrow> o_path out = [] \<and> o_hash_algo out = []"

fun fill_loop ::
  "(string \<Rightarrow> u8 list) \<Rightarrow> (u8 list \<Rightarrow> string) \<Rightarrow> u8 list \<Rightarrow> string \<Rightarrow> nat list \<Rightarrow> BasicDerivation
   \<Rightarrow> (string \<times> string) list \<Rightarrow> (DerivationError + (string \<times> string) list) \<times> BasicDerivation" where
  "fill_loop sha256 hex drv_hash drv_name [] b filled = (Inr filled, b)"
| "fill_loop sha256 hex drv_hash drv_name (i # is) b filled =
     (let out_name = o_name (b_outputs b ! i) in
      case make_output sha256 hex out_name drv_hash drv_name of
        Inl e \<Rightarrow> (Inl (InvalidOutputPath e), b)
      | Inr sp \<Rightarrow>
          fill_loop sha256 hex drv_hash drv_name is
            (b\<lparr>b_outputs := (b_outputs b)[i := (b_outputs b ! i)\<lparr>o_path := full sp\<rparr>],
               b_env := btree_put out_name (full sp) (b_env b)\<rparr>)
            (filled @ [(out_name, full sp)]))"

definition fill_deferred_outputs ::
  "(string \<Rightarrow> u8 list) \<Rightarrow> (u8 list \<Rightarrow> string) \<Rightarrow> string \<Rightarrow> BasicDerivation
   \<Rightarrow> (DerivationError + (string \<times> string) list) \<times> BasicDerivation" where
  "fill_deferred_outputs sha256 hex drv_name b =
     (let deferred = filter (\<lambda>i. is_deferred (b_outputs b ! i)) [0..<length (b_outputs b)] in
      if deferred = [] then (Inr [], b)
      else fill_loop sha256 hex (sha256 (basic_to_aterm b)) drv_name deferred b [])"

lemma to_basic_parsed: "drv_wf d \<Longrightarrow> \<exists>b. to_basic d = Some b"
  by (simp add: to_basic_def basic_new_def drv_wf_def)

text \<open>With no input derivations left, the resolved form prints as the derivation does.\<close>

lemma to_basic_to_aterm: "input_drvs d = [] \<Longrightarrow> to_basic d = Some b \<Longrightarrow> basic_to_aterm b = to_aterm d"
  by (auto simp: to_basic_def basic_new_def basic_to_aterm_def to_aterm_def write_aterm_input_drvs_def write_list_def
      split: if_splits)

lemma fill_loop_outputs:
  assumes "fill_loop sha256 hex h nm is b filled = (Inr filled', b')" "distinct is" "\<forall>i\<in>set is. i < length (b_outputs b)"
  shows "length (b_outputs b') = length (b_outputs b)
    \<and> (\<forall>j<length (b_outputs b). if j \<in> set is
         then \<exists>sp. make_output sha256 hex (o_name (b_outputs b ! j)) h nm = Inr sp
                \<and> b_outputs b' ! j = (b_outputs b ! j)\<lparr>o_path := full sp\<rparr>
         else b_outputs b' ! j = b_outputs b ! j)
    \<and> map fst filled' = map fst filled @ map (\<lambda>i. o_name (b_outputs b ! i)) is"
  using assms
proof (induction sha256 hex h nm "is" b filled rule: fill_loop.induct)
  case (2 sha256 hex h nm i "is" b filled)
  obtain sp where sp: "make_output sha256 hex (o_name (b_outputs b ! i)) h nm = Inr sp"
    using "2.prems"(1) by (auto simp: Let_def split: sum.splits)
  let ?b = "b\<lparr>b_outputs := (b_outputs b)[i := (b_outputs b ! i)\<lparr>o_path := full sp\<rparr>],
              b_env := btree_put (o_name (b_outputs b ! i)) (full sp) (b_env b)\<rparr>"
  have step: "fill_loop sha256 hex h nm is ?b (filled @ [(o_name (b_outputs b ! i), full sp)]) = (Inr filled', b')"
    using "2.prems"(1) sp by (simp add: Let_def)
  have keep: "b_outputs ?b ! j = b_outputs b ! j" if "j \<in> set is" for j
    using that "2.prems"(2) by (cases "i = j") auto
  note IH = "2.IH" [OF refl sp step]
  show ?case using IH "2.prems" sp keep by (auto simp: nth_list_update split: if_splits)
qed simp

text \<open>
  A successful fill leaves no deferred output, computes each path it fills with \<open>make_output\<close> over
  one hash of the unfilled text, and touches no other output.
\<close>

lemma fill_deferred_outputs_filled:
  assumes "fill_deferred_outputs sha256 hex nm b = (Inr filled, b')" "j < length (b_outputs b)"
  shows "if is_deferred (b_outputs b ! j)
    then \<exists>sp. make_output sha256 hex (o_name (b_outputs b ! j)) (sha256 (basic_to_aterm b)) nm = Inr sp
           \<and> b_outputs b' ! j = (b_outputs b ! j)\<lparr>o_path := full sp\<rparr> \<and> \<not> is_deferred (b_outputs b' ! j)
    else b_outputs b' ! j = b_outputs b ! j"
proof -
  let ?D = "filter (\<lambda>i. is_deferred (b_outputs b ! i)) [0..<length (b_outputs b)]"
  have path: "full sp \<noteq> []" if "make_output sha256 hex out h nm = Inr sp" for sp out h
    using that from_fingerprint_wf [of sha256 "output_path_name nm out"]
    by (auto simp: make_output_def Let_def sp_wf_def STORE_PREFIX_def)
  show ?thesis
  proof (cases "?D = []")
    case True
    with assms show ?thesis by (auto simp: fill_deferred_outputs_def filter_empty_conv)
  next
    case False
    with assms(1) have "fill_loop sha256 hex (sha256 (basic_to_aterm b)) nm ?D b [] = (Inr filled, b')"
      by (simp add: fill_deferred_outputs_def Let_def)
    moreover have "distinct ?D" "\<forall>i\<in>set ?D. i < length (b_outputs b)" by simp_all
    ultimately have all: "\<forall>j<length (b_outputs b). if j \<in> set ?D
        then \<exists>sp. make_output sha256 hex (o_name (b_outputs b ! j)) (sha256 (basic_to_aterm b)) nm = Inr sp
               \<and> b_outputs b' ! j = (b_outputs b ! j)\<lparr>o_path := full sp\<rparr>
        else b_outputs b' ! j = b_outputs b ! j"
      using fill_loop_outputs by blast
    note fill = all [rule_format, OF assms(2)]
    show ?thesis
    proof (cases "is_deferred (b_outputs b ! j)")
      case True
      with fill assms(2) obtain sp where sp:
        "make_output sha256 hex (o_name (b_outputs b ! j)) (sha256 (basic_to_aterm b)) nm = Inr sp"
        "b_outputs b' ! j = (b_outputs b ! j)\<lparr>o_path := full sp\<rparr>" by auto
      with path [OF sp(1)] True show ?thesis by (simp add: is_deferred_def)
    qed (use fill in simp)
  qed
qed

end
