(* ===== verification/Spec2Isabelle.thy ===== *)
theory Spec2Isabelle
  imports Retry_Sweep Retry_Classify Log_Ingest Log_Account Log_Coverage Authz_Kernel
    Evidence_Outcome Sched_Graph Nix_Refscan Nix_DrvHash
begin

text \<open>
  Rio is a distributed build service for Nix: a gateway accepts builds, a scheduler keeps the
  graph of derivations and leases them to builder pods, a store serves and materializes
  paths, and a controller sizes the fleet. The decisions these services must get right are
  factored into four crates without I/O, the kernels, into the scheduler's in-memory state
  machines and derivation graph, and into the library of Nix formats that all services use.
  This development models those.

  \<^item> Retry (\<^verbatim>\<open>src/rio-retry-kernel/src/lib.rs\<close>): how many more times a failed derivation may
    be tried. The scheduler appends a row to a ledger for every attempt and folds the ledger
    to a verdict.
    \<^verbatim>\<open>Retry_IdSet\<close> has the executor-id sets (\<^verbatim>\<open>BoundedIdSet\<close>, the array-backed set that stands
    in for \<^verbatim>\<open>BTreeSet\<close>), fleet exhaustion and \<^verbatim>\<open>placeable\<close>. \<^verbatim>\<open>Retry_Fold\<close> has budgets,
    \<^verbatim>\<open>backoff_secs\<close>, counters and the reference fold, one definition per arm of \<^verbatim>\<open>apply\<close>.
    \<^verbatim>\<open>Retry_Ledger\<close> has ledger rows, \<^verbatim>\<open>row_to_event\<close> and the classes that are free up to a
    bound. \<^verbatim>\<open>Retry_Decide\<close> has \<^verbatim>\<open>decide\<close> and its contract clauses. \<^verbatim>\<open>Retry_Sweep\<close> has the
    materialization lane, the retention sweep and the loader's suffix. \<^verbatim>\<open>Retry_Classify\<close> has
    \<^verbatim>\<open>classify\<close> and the substring search it uses.
  \<^item> Build logs (\<^verbatim>\<open>src/rio-log-kernel/src/lib.rs\<close>): lines arrive in batches, are cut into chunks
    recorded in a manifest, and are read back from a watermark.
    \<^verbatim>\<open>Log_Visit\<close> has the reader: chunk and object visits, the policy for short objects, the
    live seam, the tail and the closing claim. \<^verbatim>\<open>Log_Ingest\<close> has batch admission, the seal's
    coverage test and chunk cutting. \<^verbatim>\<open>Log_Account\<close> has usage accounting over overlapping
    rows. \<^verbatim>\<open>Log_Coverage\<close> has \<^verbatim>\<open>CoverageMap\<close>.
  \<^item> Authorization (\<^verbatim>\<open>src/rio-authz-kernel/src/lib.rs\<close>): \<^verbatim>\<open>Authz_Kernel\<close> has the verifier
    layer's decision and the start-up check that its keys are coherent.
  \<^item> Evidence (\<^verbatim>\<open>src/rio-evidence-kernel/src\<close>): what may be concluded from pulls, probes and
    substitution attempts. \<^verbatim>\<open>Evidence_Pull\<close> has \<^verbatim>\<open>pull.rs\<close>, \<^verbatim>\<open>Evidence_Route\<close> has \<^verbatim>\<open>lib.rs\<close>,
    \<^verbatim>\<open>content.rs\<close>, \<^verbatim>\<open>visibility.rs\<close>, \<^verbatim>\<open>settle.rs\<close>, \<^verbatim>\<open>establish.rs\<close> and \<^verbatim>\<open>routing.rs\<close>,
    \<^verbatim>\<open>Evidence_Outcome\<close> has \<^verbatim>\<open>outcome.rs\<close>.
  \<^item> Scheduler state (\<^verbatim>\<open>src/rio-scheduler/src/state\<close>): \<^verbatim>\<open>Sched_State\<close> has the derivation status
    machine with the minting and release of attempts and the resubmit disposition
    (\<^verbatim>\<open>derivation.rs\<close>), and the build lifecycle (\<^verbatim>\<open>build.rs\<close>).
  \<^item> Scheduler graph (\<^verbatim>\<open>src/rio-scheduler/src/dag/mod.rs\<close>, \<^verbatim>\<open>critical_path.rs\<close> and the in-memory
    steps of \<^verbatim>\<open>actor\<close>): the derivations of all builds, their edges and the builds interested
    in them. \<^verbatim>\<open>Sched_Dag\<close> has the nodes, the graph, its recovery inserts, removal and reaping.
    \<^verbatim>\<open>Sched_Cycle\<close> has the depth-first cycle search. \<^verbatim>\<open>Sched_Merge\<close> has \<^verbatim>\<open>merge\<close> with its log and
    \<^verbatim>\<open>rollback_merge\<close>, and \<^verbatim>\<open>Sched_MergeOk\<close> its correctness. \<^verbatim>\<open>Sched_Topo\<close> has \<^verbatim>\<open>kahn_topo\<close> and
    the critical-path priorities: \<^verbatim>\<open>compute_initial\<close>, \<^verbatim>\<open>update_ancestors\<close> and \<^verbatim>\<open>full_sweep\<close>.
    \<^verbatim>\<open>Sched_Ready\<close> has the dependency queries, \<^verbatim>\<open>compute_initial_states\<close>, and the actor's
    \<^verbatim>\<open>seed_initial_states\<close>, \<^verbatim>\<open>promote_newly_ready_batch\<close>, \<^verbatim>\<open>cascade_dependency_failure\<close> and
    \<^verbatim>\<open>reevaluate_removal_survivors\<close>. \<^verbatim>\<open>Sched_Cutoff\<close> has \<^verbatim>\<open>cascade_cutoff\<close>, \<^verbatim>\<open>find_roots\<close> and
    \<^verbatim>\<open>build_summary\<close>. \<^verbatim>\<open>Sched_Graph\<close> joins them: one step relation over the operations
    that change the graph, the recovery inserts and rollbacks included.
    \<^verbatim>\<open>Rio_Wanted\<close> has the wanted-output unions of \<^verbatim>\<open>rio-common\<close> that the merge uses.
  \<^item> Nix formats (\<^verbatim>\<open>src/rio-nix/src\<close>): \<^verbatim>\<open>Nix_Base32\<close> and \<^verbatim>\<open>Nix_Hash\<close> have the encodings of hashes
    and the derived paths, \<^verbatim>\<open>Nix_StorePath\<close> the store paths, \<^verbatim>\<open>Nix_Wire\<close> the strings of the wire
    and archive format, \<^verbatim>\<open>Nix_Nar\<close> the archive reader and writer, \<^verbatim>\<open>Nix_Refscan\<close> the streaming
    reference scanner, \<^verbatim>\<open>Nix_Derivation\<close> the ATerm parser and printer, and \<^verbatim>\<open>Nix_DrvHash\<close> the
    modular derivation hash with its cache.

  \<^verbatim>\<open>Rio_Prelude\<close> holds what they share: Rust's saturating and checked arithmetic on words, and
  the locale \<^verbatim>\<open>fold_machine\<close> for a loop that folds a step over a list under an invariant.
  \<^verbatim>\<open>Rio_BTree\<close> holds the ordered maps and sets as sorted lists.

  Conventions. \<^verbatim>\<open>u32\<close> and \<^verbatim>\<open>u64\<close> are 32 and 64 bit words, and plain \<^verbatim>\<open>+\<close> wraps; \<^verbatim>\<open>i64\<close> columns
  are integers with saturation written out. \<^verbatim>\<open>BTreeSet\<close> is a set; a method on \<^verbatim>\<open>&mut self\<close>
  returns the new record; an \<^verbatim>\<open>Option\<close> is an option and a \<^verbatim>\<open>Result\<close> a sum; a panic is
  \<^term>\<open>None\<close>. Enums are datatypes with the source's constructor names, qualified where two
  enums share one. A \<^verbatim>\<open>HashMap\<close> is a map and a \<^verbatim>\<open>HashSet\<close> a set; where the code iterates one, the
  order is the argument \<^verbatim>\<open>iter\<close>, of which the hypothesis \<^verbatim>\<open>hash_order\<close> says that it lists each element
  once. Durations in floating point have a type with a zero, an addition and a linear order
  and no law between them. Most loops are structural recursions on the list or array they
  traverse. The worklist loops (cycle search, topological order, cones, cascades) may a
  priori run forever or underflow, so they are partial functions into options, and each is
  proved to return on well-formed graphs. The depth of the derivation hash is bounded by 512
  as in the code, and that graphs less deep are hashed is proved.

  What is shown.
  \<^item> Retry. The decision over a ledger is the reference fold of the events its rows denote; its
    four contract clauses hold of every ledger; it ignores the materialization lane; and
    deleting what the sweep deletes does not change the loaded decision. Loading only the
    suffix does not change it either, but for the pacing deadline after a cache-hit clear.
    Between resets only a bounded number of attempts can charge the retry budgets before the
    verdict stops requeueing; crashes and backstop timeouts, which charge the poison
    threshold alone, are bounded with them when each names a new executor, and not
    otherwise. Only a bounded number of closes of the two uncharged classes can occur in a
    row. The bounded id set implements a set, and the backoff loop a closed form.
  \<^item> Logs. A walk serves each line held at or above the watermark once and in order; a claim
    of completeness is true; the seal's test is exact, and a log that passes it is served
    whole. Cutting takes the longest consecutive prefix within the caps. Accounting counts
    the rows not covered by others, and a replayed row is free. The coverage map is a set
    of lines in normal form, and the durable frontier is the end of its first unbroken run.
  \<^item> Authorization. The boot check passes exactly the configurations in which JWT on implies
    both HMAC keys. With JWT on, a configuration that passes enforces every family's own
    credential; with JWT off it may enforce some families or none, since a family whose key
    is absent admits everything.
  \<^item> Evidence. Every answer of pull admission, of establishment and of routing is characterized
    by the evidence it is given on; re-probes confirm only unanimously; the tenant fold has the
    stated precedence, and a substitution loop's verdict does not depend on order.
  \<^item> Scheduler state. The running clock is set exactly while a derivation runs, a cancelled
    derivation stays so, leaving a terminal status clears the identity of the attempt, and
    a build settles once.
  \<^item> Scheduler graph. Every graph the operations produce from the empty one is well-formed and
    acyclic, where recovery, which checks for no cycle, loads edges that close none. A submission is merged whole or leaves the graph as it was, and is refused only
    for a malformed path or a cycle. What an accepted one leaves at its nodes is stated: status machine, interest and
    wanted outputs. Reaping removes exactly the nodes nobody wants that are finished and not poisoned,
    and strands no queued survivor. The sweep gives every unfinished node its critical-path
    priority, and the incremental updates reach the same priorities. Seeding establishes the
    readiness invariant, a failure reaches exactly the dependents that have not started, and
    from the invariant every run of assignments, successes and failures settles every
    derivation. The early cutoff skips exactly its set, or a thousand nodes of it.
  \<^item> Nix formats. Store paths, archives and derivations are read exactly from what is printed. The
    scanner finds exactly the references, however the archive is cut. The cached derivation
    hash is the uncached one; it is returned on acyclic graphs, and its errors are true.

  Interfaces. The locales \<^verbatim>\<open>id_set\<close>, \<^verbatim>\<open>line_cover\<close>, \<^verbatim>\<open>verifier_arm\<close> and \<^verbatim>\<open>fold_machine\<close> state the
  contracts that clients rely on, and each is interpreted on the model's own operations.

  Not modelled: the services around the kernels and the graph (RPC handlers, database queries,
  Kubernetes objects, process and file handling, sockets), because they are I/O; the daemon
  protocol and the streaming, listing and restoring of archives in \<^verbatim>\<open>rio-nix\<close>; leader
  election in \<^verbatim>\<open>rio-lease\<close>, which is a client of the Kubernetes API; the duration estimator of
  \<^verbatim>\<open>rio-scheduler/src/sla\<close>, which is numerical fitting; cryptographic libraries. Of the actor
  only the steps named above are modelled, without the persistence, the events and what a
  failure makes of a build. The effect of what is left out appears as arguments: clocks, fleet
  views, probe answers, estimates and database rows. The error strings, log output and metrics
  of the modelled code are left out.

  The rest of this theory joins components: the seal's test with the reader's walk, and the
  classifier and ledger with the decision.
\<close>

section \<open>From the seal to the reader\<close>

text \<open>The manifest rows as the sealing query reads them, in signed columns.\<close>

definition manifest_row :: "u64 \<times> u64 \<Rightarrow> i64 \<times> i64" where
  "manifest_row c = (int (unat (fst c)), int (unat (snd c)))"

lemma manifest_rows_ok:
  assumes "manifest_ok cs" "\<forall>c \<in> set cs. unat (fst c) + unat (snd c) \<le> m" "int m \<le> i64_max"
  shows "list_all i64_chunk (map manifest_row cs)" "sorted (map fst (map manifest_row cs))"
proof -
  have "i64_chunk (manifest_row c)" if "c \<in> set cs" for c
    using bspec [OF assms(2) that] assms(3)
    unfolding i64_chunk_def manifest_row_def fst_conv snd_conv by linarith
  thus "list_all i64_chunk (map manifest_row cs)" by (simp add: list_all_iff)
  have "sorted (map (int \<circ> unat) (map fst cs))"
    using assms(1) by (simp add: sorted_wrt_map word_le_nat_alt del: of_nat_unat)
  thus "sorted (map fst (map manifest_row cs))" by (simp add: manifest_row_def comp_def)
qed

lemma manifest_rows_lines: "int l \<in> i64_lines (map manifest_row cs) \<longleftrightarrow> l \<in> manifest_lines cs"
proof -
  have "int l \<in> {fst (manifest_row c) ..< fst (manifest_row c) + snd (manifest_row c)} \<longleftrightarrow> l \<in> chunk_lines c" for c
    unfolding manifest_row_def fst_conv snd_conv chunk_lines_def atLeastLessThan_iff by linarith
  thus ?thesis unfolding i64_lines_def manifest_lines_def by simp
qed

text \<open>
  C20. A sealed log whose manifest passes the seal's coverage test is served whole: a walk from
  line zero delivers exactly the lines below the sealed count, in order and each once, and
  ends with a claim that says so.
\<close>

theorem sealed_log_served_whole:
  assumes "manifest_ok cs" "0 < n" "n \<le> I64_MAX" "list_all (\<lambda>(f, k). unat f + unat k \<le> unat n) cs"
    and "manifest_covers_contiguously (map manifest_row cs) (int (unat n))"
  shows "served 0 cs = [0 ..< unat n]
    \<and> complete (final_claim (walk_end 0 cs) (Some n)
          (manifest_covers_contiguously (map manifest_row cs) (int (unat n))) (walk_gap 0 cs))"
proof -
  have pos: "0 < int (unat n)" using assms(2) by (simp add: word_less_nat_alt del: of_nat_unat)
  have within: "\<forall>c \<in> set cs. unat (fst c) + unat (snd c) \<le> unat n"
    using assms(4) by (auto simp: list_all_iff)
  have bound: "int (unat n) \<le> i64_max"
    using assms(3) by (simp add: word_le_nat_alt I64_MAX_def i64_max_def del: of_nat_unat)
  have rows: "{0 ..< int (unat n)} \<subseteq> i64_lines (map manifest_row cs)"
    using covers_loop_iff [OF manifest_rows_ok [OF assms(1) within bound] pos] assms(5)
    by (simp add: manifest_covers_contiguously_def)
  have held: "{0 ..< unat n} \<subseteq> manifest_lines cs"
  proof
    fix l assume "l \<in> {0 ..< unat n}"
    hence "int l \<in> {0 ..< int (unat n)}" by (simp del: of_nat_unat)
    with rows show "l \<in> manifest_lines cs" using manifest_rows_lines by blast
  qed
  have "\<not> walk_gap 0 cs" "unat n \<le> unat (walk_end 0 cs)"
    using covered_no_gap [OF assms(1), of 0 "unat n"] held within by simp_all
  hence claim: "complete (final_claim (walk_end 0 cs) (Some n)
      (manifest_covers_contiguously (map manifest_row cs) (int (unat n))) (walk_gap 0 cs))"
    using assms(5) by (simp add: final_claim_def word_le_nat_alt del: of_nat_unat)
  have "manifest_lines cs \<subseteq> {0 ..< unat n}"
    using within by (fastforce simp: manifest_lines_def chunk_lines_def)
  with served_lines [OF assms(1), of 0] held
  have "sorted_wrt (<) (served 0 cs)" "set (served 0 cs) = set [0 ..< unat n]" by auto
  hence "served 0 cs = [0 ..< unat n]"
    by (intro sorted_distinct_set_unique) (simp_all add: strict_sorted_iff)
  with claim show ?thesis by blast
qed

theorem sealed_log_served_whole_witness:
  "served 0 [(0, 3), (2, 4)] = [0 ..< unat (6::u64)]
    \<and> complete (final_claim (walk_end 0 [(0, 3), (2, 4)]) (Some 6)
          (manifest_covers_contiguously (map manifest_row [(0, 3), (2, 4)]) (int (unat (6::u64))))
          (walk_gap 0 [(0, 3), (2, 4)]))"
  by (rule sealed_log_served_whole)
    (simp_all add: bigint_chunk_def I64_MAX_def word_le_nat_alt manifest_row_def
      manifest_covers_contiguously_def i64_saturating_add_def i64_max_def i64_min_def)

section \<open>From an observed failure to the decision\<close>

text \<open>The ledger after a worker's report of an observed failure on the build lane.\<close>

definition append_attempt ::
  "'id LedgerRow list \<Rightarrow> 'id LedgerRow \<Rightarrow> ObservedFailure \<Rightarrow> FloorOutcomeView \<Rightarrow> 'id LedgerRow list" where
  "append_attempt h r e fl =
     h @ [r\<lparr>event_kind := Attempt, reporting_party := Worker, kind := Retry_Ledger.Build,
            outcome_class := classify e fl\<rparr>]"

lemma decide_initial_attempt:
  "event_kind r \<noteq> Reset \<Longrightarrow> decide_initial (h @ [r]) = decide_initial h"
  by (induction h) (simp_all add: decide_initial_def split: option.splits)

text \<open>
  A report that the store was degraded costs a derivation time and nothing else: recording it
  leaves the verdict, the exclusion set and every counter as they were, and only moves the
  pacing deadline, never earlier than it was and never before the report.
\<close>

lemma store_degraded_only_paces:
  "let d = decide h b now; d' = decide (append_attempt h r WorkerStoreDegraded fl) b now in
   verdict d' = verdict d \<and> exclusion d' = exclusion d
   \<and> no_backoff (counters d') = no_backoff (counters d)
   \<and> (\<exists>t. decision_backoff_until d' = Some t \<and> row_at r \<le> t
         \<and> (case decision_backoff_until d of Some t0 \<Rightarrow> t0 \<le> t | None \<Rightarrow> True))"
proof -
  define row where "row = r\<lparr>event_kind := Attempt, reporting_party := Worker, kind := Retry_Ledger.Build,
    outcome_class := OutcomeClass.StoreDegraded\<rparr>"
  have app: "append_attempt h r WorkerStoreDegraded fl = h @ [row]"
    by (simp add: append_attempt_def row_def)
  have "decide_initial (h @ [row]) = decide_initial h"
    by (rule decide_initial_attempt) (simp add: row_def)
  hence fold: "decide_fold b (h @ [row]) = decide_step b (decide_fold b h) row"
    by (simp add: decide_fold_def)
  have step: "run_step row OutcomeClass.StoreDegraded = Pace"
    by (simp add: run_step_def is_bounded_uncharged_row_def BOUNDED_UNCHARGED_def row_def)
  obtain c v run where s: "decide_fold b h = (c, v, run)" by (cases "decide_fold b h")
  have ge: "row_at r \<le> saturating_add (row_at r) x" for x
    by (simp add: word_le_nat_alt unat_saturating_add)
  have at: "row_at row = row_at r" by (simp add: row_def)
  have "ttl_downgrade (c\<lparr>backoff_until := x\<rparr>) v now b = ttl_downgrade c v now b" for x
    by (simp add: ttl_downgrade_def split: Verdict.split)
  with ge show ?thesis
    unfolding app decide_def fold s
    by (auto simp: decide_step_def step at Let_def no_backoff_def split: option.split)
      (meson order.trans less_imp_le)
qed

end
